(* ===== verification/Prelude.thy ===== *)
theory Prelude
  imports Main "HOL-Library.Word"
begin

text \<open>
  Shared vocabulary of the development: the faults a C++ operation can end in, the result
  type and its sequencing, the fixed-width conversions the sources rely on, and generic
  lemmas on lists that several components use.

  A result is \<open>Inr v\<close> for a normal return and \<open>Inl f\<close> for a fault. \<open>Panic\<close> is a
  failed \<open>assert\<close> or an explicit \<open>panic\<close> (the build defines \<open>NDEBUG\<close>, and
  \<open>libraries/support/assert.h\<close> turns the checks on exactly then). \<open>OutOfBounds\<close> is a
  read or write outside the array the code indexes, which the C++ does not check.
  \<open>Uninitialized\<close> is a read of storage no constructor has written. \<open>Diverges\<close> is a
  loop that never leaves.
\<close>

datatype fault = Panic | OutOfBounds | Uninitialized | Diverges

type_synonym 'a res = "fault + 'a"

type_synonym byte = "8 word"

named_theorems res_simps
named_theorems width_simps

subsection \<open>Sequencing results\<close>

definition bindR :: "'a res \<Rightarrow> ('a \<Rightarrow> 'b res) \<Rightarrow> 'b res" where
  "bindR m f = (case m of Inl e \<Rightarrow> Inl e | Inr x \<Rightarrow> f x)"

definition assertR :: "bool \<Rightarrow> 'a res \<Rightarrow> 'a res" where
  "assertR b m = (if b then m else Inl Panic)"

subsection \<open>Fixed-width integers\<close>

text \<open>
  \<open>END_SENTINEL\<close> and \<open>inc16\<close> belong to \<open>uint16_t\<close> indexes, \<open>u32\<close> is the value
  of an integer after conversion to \<open>uint32_t\<close>, \<open>s32\<close> after conversion to \<open>int\<close>
  (32 bits, two's complement), and \<open>cdiv\<close> and \<open>cmod\<close> are the C++ quotient, which
  rounds towards zero, and remainder, which takes the sign of the dividend, for a positive
  divisor.
\<close>

definition END_SENTINEL :: nat where
  "END_SENTINEL = 65535"

definition inc16 :: "nat \<Rightarrow> nat" where
  "inc16 i = (i + 1) mod 65536"

definition u32 :: "int \<Rightarrow> int" where
  "u32 x = x mod 4294967296"

definition s32 :: "int \<Rightarrow> int" where
  "s32 x = (x + 2147483648) mod 4294967296 - 2147483648"

definition INT_MAX :: int where
  "INT_MAX = 2147483647"

definition cmod :: "int \<Rightarrow> int \<Rightarrow> int" where
  "cmod a b = (if 0 \<le> a then a mod b else - ((- a) mod b))"

definition cdiv :: "int \<Rightarrow> int \<Rightarrow> int" where
  "cdiv a b = (if 0 \<le> a then a div b else - ((- a) div b))"

lemma bindR_Inr [simp, res_simps]: "bindR (Inr x) f = f x"
  by (simp add: bindR_def)

lemma bindR_Inl [simp, res_simps]: "bindR (Inl e) f = Inl e"
  by (simp add: bindR_def)

lemma bindR_eq_Inr [simp, res_simps]: "bindR m f = Inr y \<longleftrightarrow> (\<exists>x. m = Inr x \<and> f x = Inr y)"
  by (cases m) auto

lemma bindR_eq_Inl [res_simps]:
  "bindR m f = Inl e \<longleftrightarrow> m = Inl e \<or> (\<exists>x. m = Inr x \<and> f x = Inl e)"
  by (cases m) auto

lemma bindR_assoc: "bindR (bindR m f) g = bindR m (\<lambda>x. bindR (f x) g)"
  by (cases m) auto

lemma assertR_True [simp, res_simps]: "b \<Longrightarrow> assertR b m = m"
  by (simp add: assertR_def)

lemma assertR_False [simp, res_simps]: "\<not> b \<Longrightarrow> assertR b m = Inl Panic"
  by (simp add: assertR_def)

lemma assertR_eq_Inr [simp, res_simps]: "assertR b m = Inr y \<longleftrightarrow> b \<and> m = Inr y"
  by (cases b) auto

lemma u32_id [width_simps]: "0 \<le> x \<Longrightarrow> x < 4294967296 \<Longrightarrow> u32 x = x"
  by (simp add: u32_def)

lemma u32_bounds [width_simps]: "0 \<le> u32 x" "u32 x < 4294967296"
  by (simp_all add: u32_def)

lemma s32_id [width_simps]: "-2147483648 \<le> x \<Longrightarrow> x < 2147483648 \<Longrightarrow> s32 x = x"
  by (simp add: s32_def)

lemma s32_bounds [width_simps]: "-2147483648 \<le> s32 x" "s32 x \<le> INT_MAX"
proof -
  show "-2147483648 \<le> s32 x" by (simp add: s32_def)
  have "(x + 2147483648) mod 4294967296 < 4294967296" by simp
  then show "s32 x \<le> INT_MAX" unfolding s32_def INT_MAX_def by linarith
qed

lemma cmod_nonneg [width_simps]: "0 \<le> a \<Longrightarrow> cmod a b = a mod b"
  by (simp add: cmod_def)

lemma cdiv_nonneg [width_simps]: "0 \<le> a \<Longrightarrow> cdiv a b = a div b"
  by (simp add: cdiv_def)

lemma inc16_less [width_simps]: "i < 65535 \<Longrightarrow> inc16 i = Suc i"
  by (simp add: inc16_def)

subsection \<open>Lists\<close>

lemma nth_upt_map: "i < n \<Longrightarrow> map f [0..<n] ! i = f i"
  by simp

lemma map_upt_Suc_shift: "map f [0..<Suc n] = f 0 # map (\<lambda>k. f (Suc k)) [0..<n]"
  by (simp add: upt_conv_Cons map_Suc_upt [symmetric] del: upt_Suc)

lemma filter_upt_Suc: "filter P [0..<Suc n] = filter P [0..<n] @ (if P n then [n] else [])"
  by simp

lemma card_filter_upt: "card {i. i < n \<and> P i} = length (filter P [0..<n])"
proof -
  have "{i. i < n \<and> P i} = set (filter P [0..<n])" by auto
  then show ?thesis by (simp only: distinct_card distinct_filter distinct_upt)
qed

end
