(* ===== verification/Pool.thy ===== *)
theory Pool
  imports Prelude
begin

text \<open>
  The pool allocator of \<open>libraries/support/pool.h\<close>: an array of nodes with a
  doubly linked free list threaded through the unused nodes, a watermark, and handles that
  are array indexes. The theory models every operation, states the representation invariant
  (the free list as an index list), shows that each operation keeps it and never leaves the
  array, and that a pool implements a finite map from handles to values. The interface
  other components rely on is the locale \<open>handle_table\<close>, interpreted here on the pool.

  Indexes are \<open>uint16_t\<close> in every instance the repository has, so the sentinel is 65535;
  \<open>fixed_pool\<close>'s \<open>static_assert\<close> keeps the capacity at most that.
\<close>

subsection \<open>The interface of a handle table\<close>

text \<open>
  What a client of the pool relies on: \<open>lookup\<close> is the abstract map, \<open>alloc\<close> is
  \<open>emplace_anywhere\<close>, \<open>put\<close> is \<open>emplace\<close> and \<open>release\<close> is \<open>erase\<close>.
\<close>

locale handle_table =
  fixes inv :: "'p \<Rightarrow> bool"
    and cap :: "'p \<Rightarrow> nat"
    and lookup :: "'p \<Rightarrow> nat \<Rightarrow> 'a option"
    and alloc :: "'a \<Rightarrow> 'p \<Rightarrow> ('p \<times> nat) res"
    and put :: "nat \<Rightarrow> 'a \<Rightarrow> 'p \<Rightarrow> 'p res"
    and release :: "nat \<Rightarrow> 'p \<Rightarrow> 'p res"
  assumes lookup_bound: "inv p \<Longrightarrow> lookup p i = Some x \<Longrightarrow> i < cap p"
    and alloc_total: "inv p \<Longrightarrow> card (dom (lookup p)) < cap p \<Longrightarrow> \<exists>r. alloc x p = Inr r"
    and alloc_step: "inv p \<Longrightarrow> alloc x p = Inr (p', i) \<Longrightarrow>
        inv p' \<and> cap p' = cap p \<and> lookup p i = None \<and> lookup p' = (lookup p)(i := Some x)"
    and put_total: "inv p \<Longrightarrow> i < cap p \<Longrightarrow> \<exists>p'. put i x p = Inr p'"
    and put_step: "inv p \<Longrightarrow> put i x p = Inr p' \<Longrightarrow>
        inv p' \<and> cap p' = cap p \<and> lookup p' = (lookup p)(i := Some x)"
    and release_total: "inv p \<Longrightarrow> lookup p i \<noteq> None \<Longrightarrow> \<exists>p'. release i p = Inr p'"
    and release_step: "inv p \<Longrightarrow> release i p = Inr p' \<Longrightarrow>
        inv p' \<and> cap p' = cap p \<and> lookup p i \<noteq> None \<and> lookup p' = (lookup p)(i := None)"
begin

lemma finite_dom_lookup: "inv p \<Longrightarrow> finite (dom (lookup p))"
proof -
  assume p: "inv p"
  have "dom (lookup p) \<subseteq> {..<cap p}" using lookup_bound [OF p] by auto
  then show ?thesis by (rule finite_subset) simp
qed

lemma alloc_bound: "inv p \<Longrightarrow> alloc x p = Inr (p', i) \<Longrightarrow> i < cap p"
  using alloc_step [of p x p' i] lookup_bound [of p' i x] by auto

lemma alloc_other: "inv p \<Longrightarrow> alloc x p = Inr (p', i) \<Longrightarrow> j \<noteq> i \<Longrightarrow> lookup p' j = lookup p j"
  using alloc_step [of p x p' i] by auto

lemma alloc_card: "inv p \<Longrightarrow> alloc x p = Inr (p', i) \<Longrightarrow>
    card (dom (lookup p')) = Suc (card (dom (lookup p)))"
  using alloc_step [of p x p' i] finite_dom_lookup [of p] by (simp add: domIff)

lemma release_card: "inv p \<Longrightarrow> release i p = Inr p' \<Longrightarrow>
    Suc (card (dom (lookup p'))) = card (dom (lookup p))"
proof -
  assume p: "inv p" and r: "release i p = Inr p'"
  have "i \<in> dom (lookup p)" "lookup p' = (lookup p)(i := None)"
    using release_step [OF p r] by auto
  then show ?thesis
    using card_Suc_Diff1 [OF finite_dom_lookup [OF p], of i] by simp
qed

lemma release_after_alloc:
  "inv p \<Longrightarrow> alloc x p = Inr (p', i) \<Longrightarrow> \<exists>p''. release i p' = Inr p'' \<and> lookup p'' = lookup p"
proof -
  assume p: "inv p" and a: "alloc x p = Inr (p', i)"
  note s = alloc_step [OF p a]
  then have p': "inv p'" and "lookup p' i \<noteq> None" by auto
  then obtain p'' where r: "release i p' = Inr p''" using release_total by blast
  then show ?thesis using release_step [OF p' r] s by (auto simp: fun_eq_iff)
qed

lemma alloc_twice_distinct:
  "inv p \<Longrightarrow> alloc x p = Inr (p1, i) \<Longrightarrow> alloc y p1 = Inr (p2, j) \<Longrightarrow> i \<noteq> j"
  using alloc_step [of p x p1 i] alloc_step [of p1 y p2 j] by auto

end

subsection \<open>Nodes and pools\<close>

record 'a node =
  next_free :: nat
  prev_free :: nat
  nvalue :: "'a option"

record 'a pool =
  pdata :: "'a node list"
  watermark :: nat
  free_list_head :: nat
  free_list_tail :: nat
  pcount :: nat

definition fresh_node :: "'a node" where
  "fresh_node = \<lparr>next_free = END_SENTINEL, prev_free = END_SENTINEL, nvalue = None\<rparr>"

definition clear :: "'a pool \<Rightarrow> 'a pool" where
  "clear p = p\<lparr>watermark := 0, free_list_head := END_SENTINEL,
      free_list_tail := END_SENTINEL, pcount := 0\<rparr>"

definition fixed_pool :: "nat \<Rightarrow> 'a pool" where
  "fixed_pool capacity = clear \<lparr>pdata = replicate capacity fresh_node, watermark = 0,
      free_list_head = END_SENTINEL, free_list_tail = END_SENTINEL, pcount = 0\<rparr>"

text \<open>An assignment through \<open>_data_begin[i]\<close>: nothing checks the index.\<close>

definition write_node :: "nat \<Rightarrow> ('a node \<Rightarrow> 'a node) \<Rightarrow> 'a pool \<Rightarrow> 'a pool res" where
  "write_node i f p =
     (if i < length (pdata p) then Inr (p\<lparr>pdata := (pdata p)[i := f (pdata p ! i)]\<rparr>)
      else Inl OutOfBounds)"

definition valid :: "nat \<Rightarrow> 'a pool \<Rightarrow> bool" where
  "valid i p \<longleftrightarrow>
     i < watermark p \<and> next_free (pdata p ! i) = END_SENTINEL \<and>
     i \<noteq> free_list_head p \<and> i \<noteq> free_list_tail p"

definition prepend_to_free_list :: "nat \<Rightarrow> 'a pool \<Rightarrow> 'a pool res" where
  "prepend_to_free_list i p =
     bindR (if free_list_head p \<noteq> END_SENTINEL
            then write_node (free_list_head p) (\<lambda>n. n\<lparr>prev_free := i\<rparr>) p else Inr p) (\<lambda>p1.
     bindR (write_node i (\<lambda>n. n\<lparr>next_free := free_list_head p1\<rparr>) p1) (\<lambda>p2.
     let p3 = p2\<lparr>free_list_head := i\<rparr>
     in Inr (if free_list_tail p3 = END_SENTINEL then p3\<lparr>free_list_tail := i\<rparr> else p3)))"

text \<open>
  The loop of \<open>increase_size\<close> runs while the watermark is below the index and moves
  the watermark by one each time, so it runs \<open>idx - _watermark\<close> times.
\<close>

fun increase_loop :: "nat \<Rightarrow> 'a pool \<Rightarrow> 'a pool res" where
  "increase_loop 0 p = Inr p"
| "increase_loop (Suc n) p =
     bindR (write_node (watermark p) (\<lambda>_. fresh_node) p) (\<lambda>p1.
     bindR (prepend_to_free_list (watermark p1) p1) (\<lambda>p2.
     increase_loop n (p2\<lparr>watermark := Suc (watermark p2)\<rparr>)))"

definition increase_size :: "nat \<Rightarrow> 'a pool \<Rightarrow> 'a pool res" where
  "increase_size i p = assertR (i < length (pdata p)) (increase_loop (i - watermark p) p)"

definition unlink :: "nat \<Rightarrow> 'a pool \<Rightarrow> 'a pool res" where
  "unlink i p =
     (let nf = next_free (pdata p ! i); pf = prev_free (pdata p ! i) in
      bindR (if pf \<noteq> END_SENTINEL then write_node pf (\<lambda>n. n\<lparr>next_free := nf\<rparr>) p else Inr p) (\<lambda>p1.
      bindR (if nf \<noteq> END_SENTINEL then write_node nf (\<lambda>n. n\<lparr>prev_free := pf\<rparr>) p1 else Inr p1) (\<lambda>p2.
      let p3 = (if free_list_head p2 = i then p2\<lparr>free_list_head := nf\<rparr> else p2)
      in Inr (if free_list_tail p3 = i then p3\<lparr>free_list_tail := pf\<rparr> else p3))))"

definition emplace :: "nat \<Rightarrow> 'a \<Rightarrow> 'a pool \<Rightarrow> 'a pool res" where
  "emplace i x p =
     bindR (increase_size i p) (\<lambda>p1.
     assertR (i < length (pdata p1))
      (if valid i p1 then write_node i (\<lambda>n. n\<lparr>nvalue := Some x\<rparr>) p1
       else
         bindR (if i = watermark p1 then Inr (p1\<lparr>watermark := Suc (watermark p1)\<rparr>)
                else unlink i p1) (\<lambda>p2.
         bindR (write_node i (\<lambda>_. fresh_node\<lparr>nvalue := Some x\<rparr>) p2) (\<lambda>p3.
         Inr (p3\<lparr>pcount := Suc (pcount p3)\<rparr>)))))"

definition emplace_anywhere :: "'a \<Rightarrow> 'a pool \<Rightarrow> ('a pool \<times> nat) res" where
  "emplace_anywhere x p =
     (let i = (if free_list_head p \<noteq> END_SENTINEL then free_list_head p else watermark p)
      in bindR (emplace i x p) (\<lambda>p'. Inr (p', i)))"

definition erase :: "nat \<Rightarrow> 'a pool \<Rightarrow> 'a pool res" where
  "erase i p =
     assertR (valid i p)
      (if Suc i = watermark p
       then Inr (p\<lparr>watermark := watermark p - 1, pcount := pcount p - 1\<rparr>)
       else bindR (prepend_to_free_list i p) (\<lambda>p1. Inr (p1\<lparr>pcount := pcount p1 - 1\<rparr>)))"

text \<open>\<open>at\<close> returns a null pointer for an invalid index; \<open>operator []\<close> asserts.\<close>

definition at :: "'a pool \<Rightarrow> nat \<Rightarrow> 'a option" where
  "at p i = (if valid i p then nvalue (pdata p ! i) else None)"

definition get :: "'a pool \<Rightarrow> nat \<Rightarrow> 'a res" where
  "get p i = assertR (valid i p)
     (case nvalue (pdata p ! i) of Some x \<Rightarrow> Inr x | None \<Rightarrow> Inl Uninitialized)"

text \<open>A write through the reference \<open>operator []\<close> returns.\<close>

definition modify :: "nat \<Rightarrow> ('a \<Rightarrow> 'a) \<Rightarrow> 'a pool \<Rightarrow> 'a pool res" where
  "modify i f p = assertR (valid i p) (write_node i (\<lambda>n. n\<lparr>nvalue := map_option f (nvalue n)\<rparr>) p)"

definition full :: "'a pool \<Rightarrow> bool" where
  "full p \<longleftrightarrow> length (pdata p) \<le> pcount p"

subsection \<open>Iterators\<close>

text \<open>
  \<open>iterator_base\<close>: a container and a \<open>uint16_t\<close> index. \<open>jump_to_valid\<close> steps over
  gaps until the watermark; the index wraps, so the loop always gets there.
\<close>

function jump_to_valid :: "'a pool \<Rightarrow> nat \<Rightarrow> nat" where
  "jump_to_valid p i =
     (if i mod 65536 \<noteq> watermark p mod 65536 \<and> \<not> valid i p
      then jump_to_valid p (inc16 i) else i)"
  by pat_completeness auto

definition iter_dist :: "'a pool \<Rightarrow> nat \<Rightarrow> nat" where
  "iter_dist p i = (watermark p mod 65536 + 65536 - i mod 65536) mod 65536"

lemma iter_dist_inc16:
  "i mod 65536 \<noteq> watermark p mod 65536 \<Longrightarrow> iter_dist p (inc16 i) < iter_dist p i"
proof -
  define a where "a = i mod 65536"
  define w where "w = watermark p mod 65536"
  have bounds: "a < 65536" "w < 65536" by (simp_all add: a_def w_def)
  have inc: "inc16 i mod 65536 = (if a = 65535 then 0 else Suc a)"
  proof -
    have "inc16 i mod 65536 = Suc a mod 65536" by (simp add: inc16_def a_def mod_Suc_eq)
    then show ?thesis using bounds by auto
  qed
  assume "i mod 65536 \<noteq> watermark p mod 65536"
  then have neq: "a \<noteq> w" by (simp add: a_def w_def)
  consider "a < w" | "w < a" using neq by linarith
  then show ?thesis
  proof cases
    case 1
    then have "(w + 65536 - a) mod 65536 = w - a"
      using bounds by (simp add: mod_if)
    moreover have "(w + 65536 - Suc a) mod 65536 = w - Suc a"
      using 1 bounds by (simp add: mod_if)
    ultimately show ?thesis
      using 1 bounds inc unfolding iter_dist_def a_def [symmetric] w_def [symmetric]
      by (simp split: if_splits)
  next
    case 2
    then have "(w + 65536 - a) mod 65536 = w + 65536 - a" using bounds by simp
    then show ?thesis
      using 2 bounds inc unfolding iter_dist_def a_def [symmetric] w_def [symmetric]
      by auto
  qed
qed

termination jump_to_valid
  by (relation "measure (\<lambda>(p, i). iter_dist p i)") (auto intro: iter_dist_inc16)

declare jump_to_valid.simps [simp del]

definition pool_begin :: "'a pool \<Rightarrow> nat" where
  "pool_begin p = jump_to_valid p 0"

definition pool_next :: "'a pool \<Rightarrow> nat \<Rightarrow> nat" where
  "pool_next p i = jump_to_valid p (inc16 i)"

text \<open>The indexes a loop \<open>for (it = i; it != end(); ++it)\<close> visits in an unchanging pool.\<close>

lemma jump_to_valid_dist: "iter_dist p (jump_to_valid p i) \<le> iter_dist p i"
proof (induction p i rule: jump_to_valid.induct)
  case (1 p i)
  show ?case
  proof (cases "i mod 65536 \<noteq> watermark p mod 65536 \<and> \<not> valid i p")
    case True
    have "jump_to_valid p i = jump_to_valid p (inc16 i)"
      using True by (subst jump_to_valid.simps) simp
    moreover have "iter_dist p (jump_to_valid p (inc16 i)) \<le> iter_dist p (inc16 i)"
      using "1.IH" True by blast
    moreover have "iter_dist p (inc16 i) < iter_dist p i"
      using True iter_dist_inc16 by blast
    ultimately show ?thesis by simp
  next
    case False
    then have "jump_to_valid p i = i" by (subst jump_to_valid.simps) auto
    then show ?thesis by simp
  qed
qed

lemma jump_to_valid_stops:
  "jump_to_valid p i mod 65536 = watermark p mod 65536 \<or> valid (jump_to_valid p i) p"
proof (induction p i rule: jump_to_valid.induct)
  case (1 p i)
  show ?case by (subst (1 2) jump_to_valid.simps) (use 1 in auto)
qed

lemma pool_next_dist:
  "i mod 65536 \<noteq> watermark p mod 65536 \<Longrightarrow> iter_dist p (pool_next p i) < iter_dist p i"
  using iter_dist_inc16 [of i p] jump_to_valid_dist [of p "inc16 i"] by (simp add: pool_next_def)

function iter_from :: "'a pool \<Rightarrow> nat \<Rightarrow> nat list" where
  "iter_from p i = (if i mod 65536 = watermark p mod 65536 then [] else i # iter_from p (pool_next p i))"
  by pat_completeness auto
termination
proof (relation "measure (\<lambda>(p, i). iter_dist p i)", goal_cases)
  case 1 then show ?case by simp
next
  case (2 p i)
  then have "iter_dist p (inc16 i) < iter_dist p i" by (rule iter_dist_inc16)
  with jump_to_valid_dist [of p "inc16 i"] show ?case
    by (simp add: pool_next_def)
qed

declare iter_from.simps [simp del]

subsection \<open>The representation invariant\<close>

text \<open>
  \<open>dseg d p is n\<close>: the indexes \<open>is\<close> form a doubly linked segment of the nodes
  \<open>d\<close>, entered from \<open>p\<close> and left to \<open>n\<close>.
\<close>

definition first_or :: "nat \<Rightarrow> nat list \<Rightarrow> nat" where
  "first_or n xs = (case xs of [] \<Rightarrow> n | x # _ \<Rightarrow> x)"

definition last_or :: "nat \<Rightarrow> nat list \<Rightarrow> nat" where
  "last_or p xs = (if xs = [] then p else last xs)"

fun dseg :: "'a node list \<Rightarrow> nat \<Rightarrow> nat list \<Rightarrow> nat \<Rightarrow> bool" where
  "dseg d p [] n = True"
| "dseg d p (i # is) n =
     (prev_free (d ! i) = p \<and> next_free (d ! i) = first_or n is \<and> dseg d i is n)"

text \<open>\<open>pool_rep p fl\<close>: the pool is well formed and its free list is \<open>fl\<close>.\<close>

definition pool_rep :: "'a pool \<Rightarrow> nat list \<Rightarrow> bool" where
  "pool_rep p fl \<longleftrightarrow>
     length (pdata p) \<le> END_SENTINEL \<and> watermark p \<le> length (pdata p) \<and>
     distinct fl \<and> (\<forall>i \<in> set fl. i < watermark p) \<and>
     free_list_head p = first_or END_SENTINEL fl \<and>
     free_list_tail p = last_or END_SENTINEL fl \<and>
     dseg (pdata p) END_SENTINEL fl END_SENTINEL \<and>
     (\<forall>i < watermark p. i \<notin> set fl \<longrightarrow>
        next_free (pdata p ! i) = END_SENTINEL \<and> prev_free (pdata p ! i) = END_SENTINEL \<and>
        nvalue (pdata p ! i) \<noteq> None) \<and>
     pcount p + length fl = watermark p"

definition pool_inv :: "'a pool \<Rightarrow> bool" where
  "pool_inv p \<longleftrightarrow> (\<exists>fl. pool_rep p fl)"

definition capacity :: "'a pool \<Rightarrow> nat" where
  "capacity p = length (pdata p)"

lemma first_or_simps [simp]: "first_or n [] = n" "first_or n (x # xs) = x"
  by (simp_all add: first_or_def)

lemma last_or_simps [simp]:
  "last_or p [] = p" "last_or p [x] = x" "last_or p (x # y # xs) = last_or p (y # xs)"
  "last_or p (xs @ [x]) = x"
  by (simp_all add: last_or_def)

lemma last_or_Cons: "last_or p (x # xs) = last_or x xs"
  by (simp add: last_or_def)

lemma first_or_append: "first_or n (xs @ ys) = first_or (first_or n ys) xs"
  by (cases xs) simp_all

lemma last_or_append: "last_or p (xs @ ys) = last_or (last_or p xs) ys"
  by (simp add: last_or_def)

lemma first_or_cases: "first_or n xs = n \<or> first_or n xs \<in> set xs"
  by (cases xs) simp_all

lemma last_or_cases: "last_or p xs = p \<or> last_or p xs \<in> set xs"
  by (simp add: last_or_def)

lemma dseg_append:
  "dseg d p (xs @ ys) n \<longleftrightarrow> dseg d p xs (first_or n ys) \<and> dseg d (last_or p xs) ys n"
  by (induction xs arbitrary: p) (auto simp: first_or_append last_or_Cons)

lemma dseg_cong:
  "(\<And>i. i \<in> set xs \<Longrightarrow> next_free (d' ! i) = next_free (d ! i) \<and> prev_free (d' ! i) = prev_free (d ! i)) \<Longrightarrow>
   dseg d' p xs n = dseg d p xs n"
  by (induction xs arbitrary: p) auto

lemma dseg_update_other: "i \<notin> set xs \<Longrightarrow> dseg (d[i := v]) p xs n = dseg d p xs n"
  by (rule dseg_cong) (metis nth_list_update_neq)

lemma dseg_set_prev:
  assumes "dseg d p (x # xs) n" "x \<notin> set xs" "x < length d"
  shows "dseg (d[x := (d ! x)\<lparr>prev_free := q\<rparr>]) q (x # xs) n"
  using assms by (simp add: dseg_update_other)

lemma dseg_set_next:
  assumes "dseg d p (xs @ [x]) m" "x \<notin> set xs" "x < length d"
  shows "dseg (d[x := (d ! x)\<lparr>next_free := n\<rparr>]) p (xs @ [x]) n"
  using assms by (simp add: dseg_append dseg_update_other)

lemma dseg_next_mem:
  "dseg d p xs n \<Longrightarrow> i \<in> set xs \<Longrightarrow> i \<noteq> last_or p xs \<Longrightarrow> next_free (d ! i) \<in> set xs"
proof (induction xs arbitrary: p)
  case Nil
  then show ?case by simp
next
  case (Cons x xs)
  show ?case
  proof (cases "i = x")
    case True
    with Cons.prems show ?thesis by (cases xs) auto
  next
    case False
    with Cons show ?thesis by (auto simp: last_or_Cons)
  qed
qed

text \<open>Under the invariant, validity is exactly absence from the free list.\<close>

lemma valid_iff:
  assumes "pool_rep p fl"
  shows "valid i p \<longleftrightarrow> i < watermark p \<and> i \<notin> set fl"
proof (cases "i < watermark p \<and> i \<in> set fl")
  case True
  have seg: "dseg (pdata p) END_SENTINEL fl END_SENTINEL"
    and bound: "\<forall>j \<in> set fl. j < END_SENTINEL"
    and tail: "free_list_tail p = last_or END_SENTINEL fl"
    using assms by (auto simp: pool_rep_def)
  show ?thesis
  proof (cases "i = last_or END_SENTINEL fl")
    case True
    with tail \<open>i < watermark p \<and> i \<in> set fl\<close> show ?thesis by (simp add: valid_def)
  next
    case False
    then have "next_free (pdata p ! i) \<in> set fl" using dseg_next_mem [OF seg] True by blast
    with bound have "next_free (pdata p ! i) \<noteq> END_SENTINEL" by auto
    with True show ?thesis by (simp add: valid_def)
  qed
next
  case False
  have "i < watermark p \<Longrightarrow> i \<notin> set fl \<Longrightarrow> i \<noteq> first_or END_SENTINEL fl \<and> i \<noteq> last_or END_SENTINEL fl"
    using assms first_or_cases [of END_SENTINEL fl] last_or_cases [of END_SENTINEL fl]
    by (auto simp: pool_rep_def)
  with False assms show ?thesis by (auto simp: valid_def pool_rep_def)
qed

lemma at_iff:
  assumes "pool_rep p fl"
  shows "at p i = (if i < watermark p \<and> i \<notin> set fl then nvalue (pdata p ! i) else None)"
  by (simp add: at_def valid_iff [OF assms])

lemma dom_at: "pool_rep p fl \<Longrightarrow> dom (at p) = {..<watermark p} - set fl"
  by (auto simp: at_iff pool_rep_def split: if_splits)

lemma card_dom_at: "pool_rep p fl \<Longrightarrow> card (dom (at p)) = pcount p"
proof -
  assume r: "pool_rep p fl"
  have "set fl \<subseteq> {..<watermark p}" using r by (auto simp: pool_rep_def)
  then have "card ({..<watermark p} - set fl) = watermark p - card (set fl)"
    by (simp add: card_Diff_subset)
  with r show ?thesis by (auto simp: dom_at pool_rep_def distinct_card)
qed

subsection \<open>The operations keep the invariant\<close>

lemma write_node_ok: "i < length (pdata p) \<Longrightarrow>
    write_node i f p = Inr (p\<lparr>pdata := (pdata p)[i := f (pdata p ! i)]\<rparr>)"
  by (simp add: write_node_def)

text \<open>What the linking part of a pool looks like, apart from watermark and count.\<close>

definition links :: "'a pool \<Rightarrow> nat list \<Rightarrow> bool" where
  "links p fl \<longleftrightarrow>
     length (pdata p) \<le> END_SENTINEL \<and> distinct fl \<and> (\<forall>i \<in> set fl. i < length (pdata p)) \<and>
     free_list_head p = first_or END_SENTINEL fl \<and>
     free_list_tail p = last_or END_SENTINEL fl \<and>
     dseg (pdata p) END_SENTINEL fl END_SENTINEL"

lemma pool_rep_links: "pool_rep p fl \<Longrightarrow> links p fl"
  by (auto simp: pool_rep_def links_def)

lemma prepend_links:
  assumes l: "links p fl" and i: "i < length (pdata p)" "i \<notin> set fl"
    and prev: "prev_free (pdata p ! i) = END_SENTINEL"
  shows "\<exists>p'. prepend_to_free_list i p = Inr p' \<and> links p' (i # fl) \<and>
     length (pdata p') = length (pdata p) \<and> watermark p' = watermark p \<and> pcount p' = pcount p \<and>
     (\<forall>j. j \<noteq> i \<longrightarrow> j \<notin> set fl \<longrightarrow> pdata p' ! j = pdata p ! j) \<and>
     (\<forall>j. nvalue (pdata p' ! j) = nvalue (pdata p ! j))"
proof (cases fl)
  case Nil
  then show ?thesis using l i prev
    by (simp add: prepend_to_free_list_def links_def write_node_ok nth_list_update)
next
  case (Cons h hs)
  let ?d = "(pdata p)[h := (pdata p ! h)\<lparr>prev_free := i\<rparr>]"
  have hd: "h < length (pdata p)" "h \<noteq> i" "h \<noteq> END_SENTINEL" "i \<noteq> h"
    using l i Cons by (auto simp: links_def)
  have "last (h # hs) \<in> set (h # hs)" by (rule last_in_set) simp
  then have "last (h # hs) < END_SENTINEL"
    using l Cons by (metis links_def less_le_trans)
  then have last: "last_or END_SENTINEL (h # hs) \<noteq> END_SENTINEL" by (simp add: last_or_def)
  have "dseg ?d i (h # hs) END_SENTINEL"
    using l Cons by (intro dseg_set_prev) (auto simp: links_def)
  then have "dseg (?d[i := (?d ! i)\<lparr>next_free := h\<rparr>]) END_SENTINEL (i # h # hs) END_SENTINEL"
    using l i Cons hd prev by (simp add: dseg_update_other)
  moreover have "prepend_to_free_list i p =
      Inr (p\<lparr>pdata := ?d[i := (?d ! i)\<lparr>next_free := h\<rparr>], free_list_head := i\<rparr>)"
    using l Cons hd i last by (simp add: prepend_to_free_list_def links_def write_node_ok)
  ultimately show ?thesis
    using l i hd Cons last by (auto simp: links_def last_or_def nth_list_update)
qed

text \<open>\<open>erase\<close>: the handle leaves the map, nothing else changes.\<close>

lemma pool_rep_erase:
  assumes r: "pool_rep p fl" and v: "valid i p"
  shows "\<exists>p' fl'. erase i p = Inr p' \<and> pool_rep p' fl' \<and> capacity p' = capacity p \<and>
     at p' = (at p)(i := None)"
proof -
  from v have i: "i < watermark p" "i \<notin> set fl" by (simp_all add: valid_iff [OF r])
  show ?thesis
  proof (cases "Suc i = watermark p")
    case True
    let ?p = "p\<lparr>watermark := i, pcount := pcount p - Suc 0\<rparr>"
    have e: "erase i p = Inr ?p" using v True [symmetric] by (simp add: erase_def)
    have less: "j < i" if "j \<in> set fl" for j
    proof -
      have "j < Suc i" using r that True by (simp add: pool_rep_def)
      then show ?thesis using i that by (auto simp: less_Suc_eq)
    qed
    have "length fl \<le> i"
    proof -
      have "card (set fl) \<le> card {..<i}" using less by (intro card_mono) auto
      then show ?thesis using r by (simp add: pool_rep_def distinct_card)
    qed
    then have r': "pool_rep ?p fl" using r less True [symmetric] by (auto simp: pool_rep_def)
    have "at ?p = (at p)(i := None)"
      using True [symmetric] by (auto simp: at_iff [OF r'] at_iff [OF r] fun_eq_iff less_Suc_eq)
    with r' e show ?thesis by (auto simp: capacity_def)
  next
    case False
    have "i < length (pdata p)" using r i by (auto simp: pool_rep_def)
    moreover have "prev_free (pdata p ! i) = END_SENTINEL" using r i by (auto simp: pool_rep_def)
    ultimately obtain p1 where p1: "prepend_to_free_list i p = Inr p1" "links p1 (i # fl)"
      "length (pdata p1) = length (pdata p)" "watermark p1 = watermark p" "pcount p1 = pcount p"
      "\<And>j. j \<noteq> i \<Longrightarrow> j \<notin> set fl \<Longrightarrow> pdata p1 ! j = pdata p ! j"
      "\<And>j. nvalue (pdata p1 ! j) = nvalue (pdata p ! j)"
      using prepend_links [OF pool_rep_links [OF r]] i by blast
    have "length fl < watermark p"
    proof -
      have "card (set fl) < card {..<watermark p}"
        using r i by (intro psubset_card_mono) (auto simp: pool_rep_def)
      then show ?thesis using r by (simp add: pool_rep_def distinct_card)
    qed
    then have r': "pool_rep (p1\<lparr>pcount := pcount p1 - Suc 0\<rparr>) (i # fl)"
      using r p1 i by (auto simp: pool_rep_def links_def)
    have "at (p1\<lparr>pcount := pcount p1 - Suc 0\<rparr>) = (at p)(i := None)"
      using p1(4,7) by (auto simp: at_iff [OF r'] at_iff [OF r] fun_eq_iff)
    with r' v p1 False show ?thesis by (auto simp: erase_def capacity_def)
  qed
qed

lemma increase_loop_rep:
  "pool_rep p fl \<Longrightarrow> watermark p + n \<le> length (pdata p) \<Longrightarrow>
   \<exists>p' fl'. increase_loop n p = Inr p' \<and> pool_rep p' fl' \<and> length (pdata p') = length (pdata p) \<and>
     watermark p' = watermark p + n \<and> at p' = at p"
proof (induction n arbitrary: p fl)
  case 0
  then show ?case by auto
next
  case (Suc n)
  let ?w = "watermark p"
  let ?p0 = "p\<lparr>pdata := (pdata p)[?w := fresh_node]\<rparr>"
  have w: "?w < length (pdata p)" "?w \<notin> set fl" using Suc.prems by (auto simp: pool_rep_def)
  have "links ?p0 fl"
    using pool_rep_links [OF Suc.prems(1)] w by (simp add: links_def dseg_update_other)
  then obtain p1 where p1: "prepend_to_free_list ?w ?p0 = Inr p1" "links p1 (?w # fl)"
      "length (pdata p1) = length (pdata p)" "watermark p1 = ?w" "pcount p1 = pcount p"
      "\<And>j. j \<noteq> ?w \<Longrightarrow> j \<notin> set fl \<Longrightarrow> pdata p1 ! j = pdata p ! j"
      "\<And>j. nvalue (pdata p1 ! j) = nvalue (pdata ?p0 ! j)"
    using prepend_links [of ?p0 fl ?w] w by (auto simp: fresh_node_def)
  let ?p2 = "p1\<lparr>watermark := Suc ?w\<rparr>"
  have r2: "pool_rep ?p2 (?w # fl)"
    using Suc.prems p1 w by (auto simp: pool_rep_def links_def less_Suc_eq)
  have "at ?p2 = at p"
    using p1(4,6) w by (auto simp: at_iff [OF r2] at_iff [OF Suc.prems(1)] fun_eq_iff)
  then show ?case
    using Suc.IH [OF r2] Suc.prems p1 w by (simp add: write_node_ok)
qed

lemma increase_size_rep:
  assumes "pool_rep p fl" "i < capacity p"
  shows "\<exists>p' fl'. increase_size i p = Inr p' \<and> pool_rep p' fl' \<and> capacity p' = capacity p \<and>
     i \<le> watermark p' \<and> at p' = at p"
proof -
  have "watermark p + (i - watermark p) \<le> length (pdata p)"
    using assms by (auto simp: capacity_def pool_rep_def)
  from increase_loop_rep [OF assms(1) this] assms(2) show ?thesis
    by (auto simp: increase_size_def capacity_def)
qed

lemma nvalue_relink [simp]:
  "nvalue (d[i := (d ! i)\<lparr>next_free := v\<rparr>] ! j) = nvalue (d ! j)"
  "nvalue (d[i := (d ! i)\<lparr>prev_free := v\<rparr>] ! j) = nvalue (d ! j)"
  by (cases "i < length d"; cases "i = j"; simp add: list_update_beyond)+

text \<open>Taking a node out of the middle of the free list.\<close>

lemma dseg_bypass:
  assumes seg: "dseg d p (xs @ i # ys) n" and dist: "distinct (xs @ i # ys)"
    and len: "\<forall>j \<in> set (xs @ i # ys). j < length d"
  defines "d1 \<equiv> (if xs = [] then d else d[last xs := (d ! last xs)\<lparr>next_free := first_or n ys\<rparr>])"
  defines "d2 \<equiv> (if ys = [] then d1 else d1[hd ys := (d1 ! hd ys)\<lparr>prev_free := last_or p xs\<rparr>])"
  shows "dseg d2 p (xs @ ys) n"
proof -
  have segs: "dseg d p xs i" "dseg d i ys n" using seg by (simp_all add: dseg_append)
  have len1: "length d1 = length d" by (simp add: d1_def)
  have x1: "dseg d1 p xs (first_or n ys)"
  proof (cases xs rule: rev_cases)
    case Nil
    then show ?thesis by simp
  next
    case (snoc us u)
    with segs dist len show ?thesis by (simp add: d1_def dseg_set_next)
  qed
  have y1: "dseg d1 i ys n"
    using segs dist last_in_set [of xs]
    by (auto simp: d1_def disjoint_iff intro!: dseg_update_other [THEN iffD2])
  have "dseg d2 p xs (first_or n ys)"
    using x1 dist by (cases ys) (auto simp: d2_def intro!: dseg_update_other [THEN iffD2])
  moreover have "dseg d2 (last_or p xs) ys n"
  proof (cases ys)
    case Nil
    then show ?thesis by simp
  next
    case (Cons v vs)
    with y1 dist len len1 have "dseg (d1[v := (d1 ! v)\<lparr>prev_free := last_or p xs\<rparr>]) (last_or p xs) (v # vs) n"
      by (intro dseg_set_prev) auto
    with Cons show ?thesis by (simp add: d2_def)
  qed
  ultimately show ?thesis by (simp add: dseg_append)
qed

lemma links_middle:
  assumes "links p (xs @ i # ys)"
  shows "next_free (pdata p ! i) = first_or END_SENTINEL ys"
    "prev_free (pdata p ! i) = last_or END_SENTINEL xs"
    "xs = [] \<longleftrightarrow> last_or END_SENTINEL xs = END_SENTINEL"
    "ys = [] \<longleftrightarrow> first_or END_SENTINEL ys = END_SENTINEL"
proof -
  have b: "\<forall>j \<in> set (xs @ i # ys). j < END_SENTINEL"
    using assms unfolding links_def by (metis less_le_trans)
  show "next_free (pdata p ! i) = first_or END_SENTINEL ys"
    "prev_free (pdata p ! i) = last_or END_SENTINEL xs"
    using assms by (simp_all add: links_def dseg_append)
  show "xs = [] \<longleftrightarrow> last_or END_SENTINEL xs = END_SENTINEL"
  proof (cases "xs = []")
    case False
    then have "last xs < END_SENTINEL" using b by simp
    with False show ?thesis by (simp add: last_or_def)
  qed simp
  show "ys = [] \<longleftrightarrow> first_or END_SENTINEL ys = END_SENTINEL"
    using b by (cases ys) auto
qed

lemma unlink_links:
  assumes l: "links p (xs @ i # ys)"
  shows "\<exists>p'. unlink i p = Inr p' \<and> links p' (xs @ ys) \<and>
     length (pdata p') = length (pdata p) \<and> watermark p' = watermark p \<and> pcount p' = pcount p \<and>
     (\<forall>j. j \<notin> set (xs @ ys) \<longrightarrow> pdata p' ! j = pdata p ! j) \<and>
     (\<forall>j. nvalue (pdata p' ! j) = nvalue (pdata p ! j))"
proof -
  let ?d = "pdata p" and ?nf = "first_or END_SENTINEL ys" and ?pf = "last_or END_SENTINEL xs"
  define d1 where "d1 = (if xs = [] then ?d else ?d[last xs := (?d ! last xs)\<lparr>next_free := ?nf\<rparr>])"
  define d2 where "d2 = (if ys = [] then d1 else d1[hd ys := (d1 ! hd ys)\<lparr>prev_free := ?pf\<rparr>])"
  define h where "h = (if free_list_head p = i then ?nf else free_list_head p)"
  define t where "t = (if free_list_tail p = i then ?pf else free_list_tail p)"
  note mid = links_middle [OF l]
  have lst: "xs \<noteq> [] \<Longrightarrow> last xs \<in> set xs \<and> ?pf = last xs" by (simp add: last_or_def)
  have fst: "ys \<noteq> [] \<Longrightarrow> hd ys \<in> set ys \<and> ?nf = hd ys" by (cases ys) auto
  have lens: "length d1 = length ?d" "length d2 = length ?d" by (simp_all add: d1_def d2_def)
  have seg: "dseg d2 END_SENTINEL (xs @ ys) END_SENTINEL"
    unfolding d2_def d1_def using l by (intro dseg_bypass) (auto simp: links_def)
  have head: "h = first_or END_SENTINEL (xs @ ys)"
    using l by (cases xs) (auto simp: h_def links_def)
  have tail: "t = last_or END_SENTINEL (xs @ ys)"
    using l lst by (cases ys rule: rev_cases) (auto simp: t_def links_def last_or_append last_or_def)
  have w1: "(if ?pf \<noteq> END_SENTINEL then write_node ?pf (\<lambda>n. n\<lparr>next_free := ?nf\<rparr>) p else Inr p)
      = Inr (p\<lparr>pdata := d1\<rparr>)"
    using mid(3) lst l by (auto simp: d1_def links_def write_node_ok)
  have w2: "(if ?nf \<noteq> END_SENTINEL then write_node ?nf (\<lambda>n. n\<lparr>prev_free := ?pf\<rparr>) (p\<lparr>pdata := d1\<rparr>)
      else Inr (p\<lparr>pdata := d1\<rparr>)) = Inr (p\<lparr>pdata := d2\<rparr>)"
    using mid(4) fst l lens by (auto simp: d2_def links_def write_node_ok)
  have "unlink i p = Inr (p\<lparr>pdata := d2, free_list_head := h, free_list_tail := t\<rparr>)"
    unfolding unlink_def mid(1,2) Let_def w1 bindR_Inr w2 by (simp add: h_def t_def)
  moreover have "links (p\<lparr>pdata := d2, free_list_head := h, free_list_tail := t\<rparr>) (xs @ ys)"
    using l seg head tail lens by (auto simp: links_def)
  moreover have "d2 ! j = ?d ! j" if "j \<notin> set (xs @ ys)" for j
  proof -
    have "xs \<noteq> [] \<Longrightarrow> last xs \<noteq> j" "ys \<noteq> [] \<Longrightarrow> hd ys \<noteq> j" using that lst fst by auto
    then show ?thesis by (simp add: d2_def d1_def)
  qed
  moreover have "nvalue (d2 ! j) = nvalue (?d ! j)" for j
    by (simp add: d2_def d1_def)
  ultimately show ?thesis using lens by auto
qed

lemma pool_rep_overwrite:
  fixes p :: "'a pool" and x :: 'a
  assumes r: "pool_rep p fl" and i: "i < watermark p" "i \<notin> set fl"
  defines "p' \<equiv> p\<lparr>pdata := (pdata p)[i := (pdata p ! i)\<lparr>nvalue := Some x\<rparr>]\<rparr>"
  shows "pool_rep p' fl \<and> at p' = (at p)(i := Some x)"
proof -
  have r': "pool_rep p' fl"
    using r i by (auto simp: pool_rep_def p'_def dseg_update_other nth_list_update)
  moreover have "i < length (pdata p)" using r i by (auto simp: pool_rep_def)
  moreover have "pdata p' = (pdata p)[i := (pdata p ! i)\<lparr>nvalue := Some x\<rparr>]" "watermark p' = watermark p"
    by (simp_all add: p'_def)
  ultimately have "at p' = (at p)(i := Some x)"
    using i by (auto simp: at_iff [OF r'] at_iff [OF r] fun_eq_iff)
  with r' show ?thesis by simp
qed

lemma pool_rep_append_node:
  fixes p :: "'a pool" and x :: 'a
  assumes r: "pool_rep p fl" and i: "watermark p < length (pdata p)"
  defines "i \<equiv> watermark p"
  defines "p' \<equiv> p\<lparr>watermark := Suc i, pdata := (pdata p)[i := fresh_node\<lparr>nvalue := Some x\<rparr>],
      pcount := Suc (pcount p)\<rparr>"
  shows "pool_rep p' fl \<and> at p' = (at p)(i := Some x)"
proof -
  have "i \<notin> set fl" using r by (auto simp: pool_rep_def i_def)
  with r i have r': "pool_rep p' fl"
    by (auto simp: pool_rep_def p'_def i_def dseg_update_other nth_list_update fresh_node_def less_Suc_eq)
  have "pdata p' = (pdata p)[i := fresh_node\<lparr>nvalue := Some x\<rparr>]" "watermark p' = Suc i"
    by (simp_all add: p'_def)
  then have "at p' = (at p)(i := Some x)"
    using i \<open>i \<notin> set fl\<close>
    by (auto simp: at_iff [OF r'] at_iff [OF r] fun_eq_iff i_def)
  with r' show ?thesis by simp
qed

lemma pool_rep_reuse:
  assumes r: "pool_rep p fl" and i: "i \<in> set fl"
  shows "\<exists>p2. unlink i p = Inr p2 \<and> length (pdata p2) = length (pdata p) \<and>
     (let p' = p2\<lparr>pdata := (pdata p2)[i := fresh_node\<lparr>nvalue := Some x\<rparr>], pcount := Suc (pcount p2)\<rparr>
      in pool_inv p' \<and> at p' = (at p)(i := Some x))"
proof -
  obtain xs ys where fl: "fl = xs @ i # ys" using i by (meson split_list)
  obtain p2 where p2: "unlink i p = Inr p2" "links p2 (xs @ ys)"
     "length (pdata p2) = length (pdata p)" "watermark p2 = watermark p" "pcount p2 = pcount p"
     "\<And>j. j \<notin> set (xs @ ys) \<Longrightarrow> pdata p2 ! j = pdata p ! j"
     "\<And>j. nvalue (pdata p2 ! j) = nvalue (pdata p ! j)"
    using unlink_links [OF pool_rep_links [OF r [unfolded fl]]] by blast
  let ?p = "p2\<lparr>pdata := (pdata p2)[i := fresh_node\<lparr>nvalue := Some x\<rparr>], pcount := Suc (pcount p2)\<rparr>"
  have i': "i \<notin> set (xs @ ys)" "i < length (pdata p)" "i < watermark p"
    using r fl by (auto simp: pool_rep_def)
  have r': "pool_rep ?p (xs @ ys)"
    using r p2 i' fl
    by (auto simp: pool_rep_def links_def dseg_update_other nth_list_update fresh_node_def)
  have "at ?p = (at p)(i := Some x)"
    using p2(3,4,7) i' fl
    by (auto simp: at_iff [OF r'] at_iff [OF r] fun_eq_iff nth_list_update)
  with r' p2(1,3) show ?thesis by (auto simp: pool_inv_def Let_def)
qed

lemma pool_rep_emplace:
  assumes r: "pool_rep p fl" and i: "i < capacity p"
  shows "\<exists>p'. emplace i x p = Inr p' \<and> pool_inv p' \<and> capacity p' = capacity p \<and>
     at p' = (at p)(i := Some x)"
proof -
  obtain p1 fl1 where p1: "increase_size i p = Inr p1" "pool_rep p1 fl1" "capacity p1 = capacity p"
      "i \<le> watermark p1" "at p1 = at p"
    using increase_size_rep [OF r i] by blast
  have len: "i < length (pdata p1)" using i p1 by (simp add: capacity_def)
  consider (over) "valid i p1" | (top) "\<not> valid i p1" "i = watermark p1"
    | (free) "\<not> valid i p1" "i \<noteq> watermark p1" "i \<in> set fl1"
    using valid_iff [OF p1(2), of i] p1(4) by fastforce
  then show ?thesis
  proof cases
    case over
    then show ?thesis
      using pool_rep_overwrite [OF p1(2), of i x] valid_iff [OF p1(2), of i] p1 len
      by (auto simp: emplace_def write_node_ok capacity_def pool_inv_def)
  next
    case top
    then show ?thesis
      using pool_rep_append_node [OF p1(2), of x] p1 len
      by (auto simp: emplace_def write_node_ok capacity_def pool_inv_def)
  next
    case free
    then show ?thesis
      using pool_rep_reuse [OF p1(2), of i x] p1 len
      by (auto simp: emplace_def write_node_ok capacity_def Let_def)
  qed
qed

lemma emplace_out_of_range: "capacity p \<le> i \<Longrightarrow> emplace i x p = Inl Panic"
  by (simp add: emplace_def increase_size_def capacity_def)

lemma pool_rep_emplace_anywhere:
  assumes r: "pool_rep p fl"
  shows "if full p then emplace_anywhere x p = Inl Panic
     else \<exists>p' i. emplace_anywhere x p = Inr (p', i) \<and> pool_inv p' \<and> capacity p' = capacity p \<and>
       at p i = None \<and> at p' = (at p)(i := Some x)"
proof (cases fl)
  case Nil
  then have i: "free_list_head p = END_SENTINEL" "pcount p = watermark p"
    using r by (simp_all add: pool_rep_def)
  show ?thesis
  proof (cases "full p")
    case True
    then show ?thesis using i emplace_out_of_range [of p "watermark p" x]
      by (simp add: emplace_anywhere_def full_def capacity_def)
  next
    case False
    then have w: "watermark p < capacity p" using i by (simp add: full_def capacity_def)
    have "at p (watermark p) = None" by (simp add: at_iff [OF r])
    then show ?thesis using False i pool_rep_emplace [OF r w, of x]
      by (auto simp: emplace_anywhere_def)
  qed
next
  case (Cons h hs)
  then have h: "free_list_head p = h" "h < capacity p" "h \<noteq> END_SENTINEL" "at p h = None" "\<not> full p"
    using r by (auto simp: pool_rep_def capacity_def full_def at_iff [OF r])
  then show ?thesis using pool_rep_emplace [OF r h(2), of x]
    by (auto simp: emplace_anywhere_def)
qed

lemma full_iff: "pool_inv p \<Longrightarrow> full p \<longleftrightarrow> capacity p \<le> card (dom (at p))"
  by (auto simp: pool_inv_def full_def capacity_def card_dom_at)

lemma pcount_at: "pool_inv p \<Longrightarrow> pcount p = card (dom (at p))"
  by (auto simp: pool_inv_def card_dom_at)

lemma at_bound: "pool_inv p \<Longrightarrow> at p i = Some x \<Longrightarrow> i < capacity p"
  by (auto simp: pool_inv_def capacity_def at_def valid_def pool_rep_def split: if_splits)

lemma valid_at: "pool_inv p \<Longrightarrow> valid i p \<longleftrightarrow> at p i \<noteq> None"
  by (auto simp: pool_inv_def at_def valid_iff pool_rep_def)

lemma pool_inv_fixed_pool [simp]: "capacity_le \<le> 65535 \<Longrightarrow> pool_inv (fixed_pool capacity_le)"
  by (auto simp: pool_inv_def pool_rep_def fixed_pool_def clear_def END_SENTINEL_def intro!: exI [of _ "[]"])

lemma at_fixed_pool [simp]: "at (fixed_pool n) = Map.empty"
  by (auto simp: at_def valid_def fixed_pool_def clear_def)

lemma capacity_fixed_pool [simp]: "capacity (fixed_pool n) = n"
  by (simp add: capacity_def fixed_pool_def clear_def)

lemma full_fixed_pool [simp]: "full (fixed_pool n) \<longleftrightarrow> n = 0"
  by (simp add: full_def fixed_pool_def clear_def)

lemma pool_inv_clear: "pool_inv p \<Longrightarrow> pool_inv (clear p) \<and> at (clear p) = Map.empty \<and> capacity (clear p) = capacity p"
  by (auto simp: pool_inv_def pool_rep_def clear_def at_def valid_def capacity_def intro!: exI [of _ "[]"])

lemma modify_step:
  assumes "pool_inv p" "at p i = Some x"
  shows "\<exists>p'. modify i f p = Inr p' \<and> pool_inv p' \<and> capacity p' = capacity p \<and> at p' = (at p)(i := Some (f x))"
proof -
  obtain fl where r: "pool_rep p fl" using assms(1) by (auto simp: pool_inv_def)
  have i: "i < watermark p" "i \<notin> set fl" "nvalue (pdata p ! i) = Some x" "i < length (pdata p)"
    using assms(2) r by (auto simp: at_iff [OF r] pool_rep_def split: if_splits)
  then show ?thesis
    using pool_rep_overwrite [OF r i(1,2), of "f x"]
    by (auto simp: modify_def valid_iff [OF r] write_node_ok capacity_def pool_inv_def)
qed

lemma get_at: "pool_inv p \<Longrightarrow> get p i = (case at p i of None \<Rightarrow> Inl Panic | Some x \<Rightarrow> Inr x)"
  using valid_at [of p i] by (cases "valid i p") (auto simp: get_def at_def split: option.split)

lemma emplace_anywhere_total:
  "pool_inv p \<Longrightarrow> card (dom (at p)) < capacity p \<Longrightarrow> \<exists>r. emplace_anywhere x p = Inr r"
  using full_iff [of p] pool_rep_emplace_anywhere [of p _ x] by (fastforce simp: pool_inv_def)

lemma emplace_anywhere_step:
  "pool_inv p \<Longrightarrow> emplace_anywhere x p = Inr (p', i) \<Longrightarrow>
   pool_inv p' \<and> capacity p' = capacity p \<and> at p i = None \<and> at p' = (at p)(i := Some x)"
  using pool_rep_emplace_anywhere [of p _ x] by (fastforce simp: pool_inv_def split: if_splits)

lemma emplace_total: "pool_inv p \<Longrightarrow> i < capacity p \<Longrightarrow> \<exists>p'. emplace i x p = Inr p'"
  using pool_rep_emplace [of p _ i x] by (auto simp: pool_inv_def)

lemma emplace_step:
  assumes "pool_inv p" "emplace i x p = Inr p'"
  shows "pool_inv p' \<and> capacity p' = capacity p \<and> at p' = (at p)(i := Some x)"
proof -
  have "i < capacity p" using assms(2) emplace_out_of_range [of p i x] by fastforce
  then show ?thesis using assms pool_rep_emplace [of p _ i x] by (auto simp: pool_inv_def)
qed

lemma erase_total: "pool_inv p \<Longrightarrow> at p i \<noteq> None \<Longrightarrow> \<exists>p'. erase i p = Inr p'"
  using pool_rep_erase [of p _ i] valid_at [of p i] by (auto simp: pool_inv_def)

lemma erase_step:
  assumes "pool_inv p" "erase i p = Inr p'"
  shows "pool_inv p' \<and> capacity p' = capacity p \<and> at p i \<noteq> None \<and> at p' = (at p)(i := None)"
proof -
  have v: "valid i p" using assms(2) by (simp add: erase_def)
  then show ?thesis
    using assms pool_rep_erase [of p _ i] valid_at [of p i] by (auto simp: pool_inv_def)
qed

interpretation pl: handle_table pool_inv capacity at emplace_anywhere emplace erase
  by (unfold_locales;
      (rule at_bound emplace_anywhere_total emplace_anywhere_step emplace_total emplace_step
        erase_total erase_step; assumption))

subsection \<open>Iteration\<close>

lemma jump_to_valid_range:
  assumes "watermark p \<le> 65535" "i \<le> watermark p"
  shows "i \<le> jump_to_valid p i \<and> jump_to_valid p i \<le> watermark p \<and>
     (\<forall>j. i \<le> j \<longrightarrow> j < jump_to_valid p i \<longrightarrow> \<not> valid j p) \<and>
     (jump_to_valid p i < watermark p \<longrightarrow> valid (jump_to_valid p i) p)"
  using assms
proof (induction p i rule: jump_to_valid.induct)
  case (1 p i)
  have neq: "i mod 65536 = watermark p mod 65536 \<longleftrightarrow> i = watermark p"
    using "1.prems" by simp
  show ?case
  proof (cases "i \<noteq> watermark p \<and> \<not> valid i p")
    case True
    then have inc: "inc16 i = Suc i" and le: "Suc i \<le> watermark p"
      using "1.prems" by (simp_all add: inc16_less)
    have step: "jump_to_valid p i = jump_to_valid p (Suc i)"
      using True neq inc by (subst jump_to_valid.simps) simp
    have "i mod 65536 \<noteq> watermark p mod 65536 \<and> \<not> valid i p" using True neq by simp
    from "1.IH" [OF this] "1.prems" le inc have
      "Suc i \<le> jump_to_valid p (Suc i) \<and> jump_to_valid p (Suc i) \<le> watermark p \<and>
       (\<forall>j. Suc i \<le> j \<longrightarrow> j < jump_to_valid p (Suc i) \<longrightarrow> \<not> valid j p) \<and>
       (jump_to_valid p (Suc i) < watermark p \<longrightarrow> valid (jump_to_valid p (Suc i)) p)" by simp
    with True step show ?thesis
      by (metis Suc_leD Suc_leI le_neq_implies_less)
  next
    case False
    then have "jump_to_valid p i = i" using neq by (subst jump_to_valid.simps) auto
    with False "1.prems" show ?thesis by auto
  qed
qed

lemma filter_upt_jump:
  assumes "i \<le> k" "k \<le> n" "\<And>j. i \<le> j \<Longrightarrow> j < k \<Longrightarrow> \<not> P j"
  shows "filter P [i..<n] = filter P [k..<n]"
proof -
  have "[i..<n] = [i..<k] @ [k..<n]" using assms by (metis le_add_diff_inverse upt_add_eq_append)
  moreover have "filter P [i..<k] = []" using assms(3) by (simp add: filter_empty_conv)
  ultimately show ?thesis by simp
qed

lemma iter_from_valid:
  assumes "watermark p \<le> 65535" "i \<le> watermark p" "i < watermark p \<Longrightarrow> valid i p"
  shows "iter_from p i = filter (\<lambda>j. valid j p) [i..<watermark p]"
  using assms
proof (induction "watermark p - i" arbitrary: i rule: less_induct)
  case less
  show ?case
  proof (cases "i = watermark p")
    case True
    then show ?thesis by (subst iter_from.simps) simp
  next
    case False
    let ?k = "pool_next p i"
    have i: "i < watermark p" "valid i p" using False less.prems by auto
    have k: "?k = jump_to_valid p (Suc i)"
      using i less.prems by (simp add: pool_next_def inc16_less)
    note r = jump_to_valid_range [OF less.prems(1), of "Suc i", folded k]
    have "iter_from p i = i # iter_from p ?k"
      using i less.prems by (subst iter_from.simps) simp
    also have "iter_from p ?k = filter (\<lambda>j. valid j p) [?k..<watermark p]"
      using r i by (intro less.hyps less.prems(1)) auto
    also have "\<dots> = filter (\<lambda>j. valid j p) [Suc i..<watermark p]"
      using r i by (intro filter_upt_jump [symmetric]) auto
    finally show ?thesis using i by (simp add: upt_conv_Cons)
  qed
qed

lemma pool_inv_watermark: "pool_inv p \<Longrightarrow> watermark p \<le> 65535"
  by (auto simp: pool_inv_def pool_rep_def END_SENTINEL_def)

lemma iter_indices:
  assumes "pool_inv p"
  shows "iter_from p (pool_begin p) = filter (\<lambda>j. valid j p) [0..<watermark p]"
proof -
  note r = jump_to_valid_range [OF pool_inv_watermark [OF assms], of 0, folded pool_begin_def]
  have "iter_from p (pool_begin p) = filter (\<lambda>j. valid j p) [pool_begin p..<watermark p]"
    using r by (intro iter_from_valid pool_inv_watermark assms) auto
  also have "\<dots> = filter (\<lambda>j. valid j p) [0..<watermark p]"
    using r by (intro filter_upt_jump [symmetric]) auto
  finally show ?thesis .
qed

subsection \<open>Properties\<close>

text \<open>
  \<^bold>\<open>C17.\<close> \<open>emplace_anywhere\<close> on a well-formed pool: when the pool is full it panics; otherwise it
  returns, never touching memory outside the array, a handle below the capacity that was
  unused, and the new pool is well formed and differs from the old one, as a map from
  handles to values, at that handle only.
\<close>

theorem emplace_anywhere_correct:
  assumes "pool_inv p"
  shows "if full p then emplace_anywhere x p = Inl Panic
     else \<exists>p' i. emplace_anywhere x p = Inr (p', i) \<and> pool_inv p' \<and> capacity p' = capacity p \<and>
       i < capacity p \<and> at p i = None \<and> at p' = (at p)(i := Some x) \<and> pcount p' = Suc (pcount p)"
proof -
  obtain fl where r: "pool_rep p fl" using assms by (auto simp: pool_inv_def)
  have "i < capacity p \<and> pcount p' = Suc (pcount p)" if "emplace_anywhere x p = Inr (p', i)" for p' i
    using that assms pl.alloc_bound [of p x p' i] pl.alloc_card [of p x p' i] emplace_anywhere_step [of p x p' i]
    by (simp add: pcount_at)
  with pool_rep_emplace_anywhere [OF r, of x] show ?thesis by (auto split: if_splits)
qed

theorem emplace_anywhere_correct_witness:
  "pool_inv (fixed_pool 2 :: nat pool) \<and> \<not> full (fixed_pool 2 :: nat pool) \<and>
   (\<exists>p' i. emplace_anywhere (7 :: nat) (fixed_pool 2) = Inr (p', i) \<and> pool_inv p' \<and> at p' i = Some 7)"
  using emplace_anywhere_correct [of "fixed_pool 2 :: nat pool" 7] by auto

text \<open>
  \<^bold>\<open>C18.\<close> \<open>erase\<close> on a well-formed pool: an unused handle panics; a used one is removed, and
  the pool that results is well formed and unchanged as a map at every other handle.
\<close>

theorem erase_correct:
  assumes "pool_inv p"
  shows "if at p i = None then erase i p = Inl Panic
     else \<exists>p'. erase i p = Inr p' \<and> pool_inv p' \<and> capacity p' = capacity p \<and>
       at p' = (at p)(i := None) \<and> Suc (pcount p') = pcount p"
proof (cases "at p i = None")
  case True
  then show ?thesis using valid_at [OF assms, of i] by (simp add: erase_def)
next
  case False
  then obtain p' where e: "erase i p = Inr p'" using erase_total [OF assms] by blast
  then show ?thesis
    using False erase_step [OF assms e] pl.release_card [OF assms e] assms
    by (simp add: pcount_at)
qed

theorem erase_correct_witness:
  "\<exists>p. emplace_anywhere (7 :: nat) (fixed_pool 2) = Inr (p, 0) \<and> pool_inv p \<and> at p 0 = Some 7 \<and>
     (\<exists>p'. erase 0 p = Inr p' \<and> pool_inv p' \<and> at p' = Map.empty)"
proof -
  obtain p where p: "emplace_anywhere (7 :: nat) (fixed_pool 2) = Inr (p, 0)"
    by (simp add: emplace_anywhere_def emplace_def increase_size_def fixed_pool_def clear_def
        valid_def write_node_def END_SENTINEL_def)
  note s = emplace_anywhere_step [OF pool_inv_fixed_pool p, simplified]
  then show ?thesis using p erase_correct [of p 0] by (auto simp: fun_eq_iff)
qed

text \<open>
  \<^bold>\<open>C19.\<close> \<open>emplace\<close> at a chosen index of a well-formed pool: an index at or beyond the
  capacity panics; any other index, whether it holds a value, lies on the free list, is the
  watermark, or lies beyond the watermark, ends up holding the value, with every other
  handle unchanged and the pool well formed.
\<close>

theorem emplace_correct:
  assumes "pool_inv p"
  shows "if capacity p \<le> i then emplace i x p = Inl Panic
     else \<exists>p'. emplace i x p = Inr p' \<and> pool_inv p' \<and> capacity p' = capacity p \<and>
       at p' = (at p)(i := Some x)"
proof (cases "capacity p \<le> i")
  case True
  then show ?thesis by (simp add: emplace_out_of_range)
next
  case False
  then show ?thesis using pool_rep_emplace [of p _ i x] assms by (auto simp: pool_inv_def)
qed

theorem emplace_correct_witness:
  "pool_inv (fixed_pool 4 :: nat pool) \<and> \<not> capacity (fixed_pool 4 :: nat pool) \<le> 2 \<and>
   (\<exists>p'. emplace 2 (9 :: nat) (fixed_pool 4) = Inr p' \<and> pool_inv p' \<and> at p' = [2 \<mapsto> 9])"
  using emplace_correct [of "fixed_pool 4 :: nat pool" 2 9] by auto

text \<open>
  \<^bold>\<open>C20.\<close> Iterating a well-formed pool from \<open>begin()\<close> with \<open>operator ++\<close> until \<open>end()\<close>
  terminates and visits exactly the used handles, each once, in increasing order.
\<close>

theorem iteration_correct:
  assumes "pool_inv p"
  shows "sorted (iter_from p (pool_begin p)) \<and> distinct (iter_from p (pool_begin p)) \<and>
     set (iter_from p (pool_begin p)) = dom (at p)"
proof -
  have "set (filter (\<lambda>j. valid j p) [0..<watermark p]) = dom (at p)"
    using valid_at [OF assms] by (auto simp: valid_def)
  then show ?thesis by (simp add: iter_indices [OF assms] sorted_wrt_filter)
qed

theorem iteration_correct_witness:
  "\<exists>p. emplace 2 (9 :: nat) (fixed_pool 4) = Inr p \<and> pool_inv p \<and> iter_from p (pool_begin p) = [2]"
proof -
  obtain p where p: "emplace 2 (9 :: nat) (fixed_pool 4) = Inr p"
    using emplace_total [of "fixed_pool 4 :: nat pool" 2 9] by auto
  note s = emplace_step [OF pool_inv_fixed_pool p, simplified]
  then have "set (iter_from p (pool_begin p)) = {2}" "distinct (iter_from p (pool_begin p))"
    using iteration_correct [of p] by auto
  then have "iter_from p (pool_begin p) = [2]"
    by (cases "iter_from p (pool_begin p)") (auto simp: subset_singleton_iff)
  with p s show ?thesis by blast
qed

end
