(* ===== verification/Queue.thy ===== *)
theory Queue
  imports Prelude
begin

text \<open>
  The circular FIFO of \<open>libraries/support/queue.h\<close>: an array of \<open>_MaxLen\<close> items with a
  read and a write index that are reduced modulo \<open>_MaxLen\<close> on access and normalised after
  every push. The abstraction \<open>q_list\<close> is the list of queued items; the locale \<open>fifo\<close> is
  the contract of the operations over it, and its lemmas serve the ring buffer, the ARP
  cache, the TCP send queue and the kernel's blocking queues.

  The indexes are C++ \<open>int\<close>s. The invariant bounds both by twice the array length, so with
  the lengths the repository uses (at most 65535) no index computation of a well-formed
  queue leaves the range of \<open>int\<close>.
\<close>

subsection \<open>The interface of a bounded FIFO\<close>

text \<open>A loop that pops \<open>n\<close> items and collects them.\<close>

fun pop_loop :: "('q \<Rightarrow> ('q \<times> 'a) res) \<Rightarrow> nat \<Rightarrow> 'q \<Rightarrow> ('q \<times> 'a list) res" where
  "pop_loop pop 0 q = Inr (q, [])"
| "pop_loop pop (Suc n) q =
     bindR (pop q) (\<lambda>(q1, x). bindR (pop_loop pop n q1) (\<lambda>(q2, xs). Inr (q2, x # xs)))"

locale fifo =
  fixes inv :: "'q \<Rightarrow> bool"
    and cap :: "'q \<Rightarrow> nat"
    and lst :: "'q \<Rightarrow> 'a list"
    and push :: "'a \<Rightarrow> 'q \<Rightarrow> ('q \<times> bool) res"
    and pop :: "'q \<Rightarrow> ('q \<times> 'a) res"
  assumes lst_bound: "inv q \<Longrightarrow> length (lst q) \<le> cap q"
    and push_full: "inv q \<Longrightarrow> length (lst q) = cap q \<Longrightarrow> push x q = Inr (q, False)"
    and push_room: "inv q \<Longrightarrow> length (lst q) < cap q \<Longrightarrow>
        \<exists>q'. push x q = Inr (q', True) \<and> inv q' \<and> cap q' = cap q \<and> lst q' = lst q @ [x]"
    and pop_front: "inv q \<Longrightarrow> lst q = x # xs \<Longrightarrow>
        \<exists>q'. pop q = Inr (q', x) \<and> inv q' \<and> cap q' = cap q \<and> lst q' = xs"
begin

lemma push_total: "inv q \<Longrightarrow> \<exists>q'. push x q = Inr (q', length (lst q) < cap q) \<and> inv q' \<and> cap q' = cap q"
  using push_full [of q x] push_room [of q x] lst_bound [of q] by (cases "length (lst q) < cap q") auto

lemma push_True: "inv q \<Longrightarrow> push x q = Inr (q', True) \<Longrightarrow>
    inv q' \<and> cap q' = cap q \<and> lst q' = lst q @ [x] \<and> length (lst q) < cap q"
  using push_full [of q x] push_room [of q x] lst_bound [of q] by (cases "length (lst q) < cap q") auto

lemma push_False: "inv q \<Longrightarrow> push x q = Inr (q', False) \<Longrightarrow> q' = q \<and> length (lst q) = cap q"
  using push_full [of q x] push_room [of q x] lst_bound [of q] by (cases "length (lst q) < cap q") auto

lemma pop_loop_list:
  "inv q \<Longrightarrow> n \<le> length (lst q) \<Longrightarrow>
   \<exists>q'. pop_loop pop n q = Inr (q', take n (lst q)) \<and> inv q' \<and> cap q' = cap q \<and> lst q' = drop n (lst q)"
proof (induction n arbitrary: q)
  case (Suc n)
  then obtain x xs where l: "lst q = x # xs" by (cases "lst q") auto
  from pop_front [OF Suc.prems(1) l] obtain q1 where
    q1: "pop q = Inr (q1, x)" "inv q1" "cap q1 = cap q" "lst q1 = xs" by blast
  with Suc.IH [of q1] Suc.prems l show ?case by auto
qed simp

lemma push_then_drain:
  "inv q \<Longrightarrow> push x q = Inr (q', True) \<Longrightarrow>
   \<exists>q''. pop_loop pop (length (lst q')) q' = Inr (q'', lst q @ [x]) \<and> lst q'' = []"
  using push_True [of q x q'] pop_loop_list [of q' "length (lst q')"] by auto

end

subsection \<open>The class\<close>

record 'a queue =
  items :: "'a list"
  read_idx :: int
  write_idx :: int

definition max_len :: "'a queue \<Rightarrow> int" where
  "max_len q = int (length (items q))"

definition mk_queue :: "'a \<Rightarrow> nat \<Rightarrow> 'a queue" where
  "mk_queue v n = \<lparr>items = replicate n v, read_idx = 0, write_idx = 0\<rparr>"

text \<open>Access to \<open>_items[idx % _MaxLen]\<close>; a negative remainder is outside the array.\<close>

definition item_get :: "int \<Rightarrow> 'a queue \<Rightarrow> 'a res" where
  "item_get i q =
     (let k = cmod i (max_len q)
      in if 0 \<le> k \<and> k < max_len q then Inr (items q ! nat k) else Inl OutOfBounds)"

definition item_put :: "int \<Rightarrow> 'a \<Rightarrow> 'a queue \<Rightarrow> 'a queue res" where
  "item_put i v q =
     (let k = cmod i (max_len q)
      in if 0 \<le> k \<and> k < max_len q then Inr (q\<lparr>items := (items q)[nat k := v]\<rparr>) else Inl OutOfBounds)"

definition normalize :: "'a queue \<Rightarrow> 'a queue" where
  "normalize q =
     (let smallest = cdiv (read_idx q) (max_len q)
      in q\<lparr>read_idx := read_idx q - smallest * max_len q,
           write_idx := write_idx q - smallest * max_len q\<rparr>)"

definition push_back :: "'a \<Rightarrow> 'a queue \<Rightarrow> ('a queue \<times> bool) res" where
  "push_back v q =
     (if max_len q \<le> write_idx q - read_idx q then Inr (q, False)
      else bindR (item_put (write_idx q) v q) (\<lambda>q1.
           Inr (normalize (q1\<lparr>write_idx := write_idx q1 + 1\<rparr>), True)))"

definition pop_front :: "'a queue \<Rightarrow> ('a queue \<times> 'a) res" where
  "pop_front q = bindR (item_get (read_idx q) q) (\<lambda>x. Inr (q\<lparr>read_idx := read_idx q + 1\<rparr>, x))"

definition q_front :: "'a queue \<Rightarrow> 'a res" where
  "q_front q = item_get (read_idx q) q"

definition q_size :: "'a queue \<Rightarrow> int" where
  "q_size q = write_idx q - read_idx q"

definition q_full :: "'a queue \<Rightarrow> bool" where
  "q_full q \<longleftrightarrow> q_size q = max_len q"

definition q_begin :: "'a queue \<Rightarrow> int" where
  "q_begin q = read_idx q"

definition q_end :: "'a queue \<Rightarrow> int" where
  "q_end q = write_idx q"

definition q_clear :: "'a queue \<Rightarrow> 'a queue" where
  "q_clear q = q\<lparr>read_idx := 0, write_idx := 0\<rparr>"

text \<open>
  The loop of \<open>replace\<close> pushes default items until the position exists or the queue is
  full. A push that succeeds raises the size by one, so the loop ends.
\<close>

lemma size_normalize [simp]: "q_size (normalize q) = q_size q"
  by (simp add: q_size_def normalize_def Let_def)

lemma max_len_normalize [simp]: "max_len (normalize q) = max_len q"
  by (simp add: max_len_def normalize_def Let_def)

lemma push_back_size:
  "push_back v q = Inr (q', True) \<Longrightarrow>
   q_size q' = q_size q + 1 \<and> max_len q' = max_len q \<and> q_size q < max_len q"
  by (auto simp: push_back_def item_put_def Let_def q_size_def max_len_def normalize_def split: if_splits)

function replace_loop :: "'a \<Rightarrow> int \<Rightarrow> 'a queue \<Rightarrow> 'a queue res" where
  "replace_loop d offset q =
     (if write_idx q \<le> read_idx q + offset
      then (case push_back d q of
              Inl e \<Rightarrow> Inl e
            | Inr (q', ok) \<Rightarrow> if ok then replace_loop d offset q' else Inr q')
      else Inr q)"
  by pat_completeness auto
termination
  by (relation "measure (\<lambda>(d, offset, q). nat (max_len q - q_size q))") (auto dest!: push_back_size)

declare replace_loop.simps [simp del]

definition replace :: "'a \<Rightarrow> int \<Rightarrow> 'a \<Rightarrow> 'a queue \<Rightarrow> ('a queue \<times> bool) res" where
  "replace d offset v q =
     bindR (replace_loop d offset q) (\<lambda>q1.
     if write_idx q1 < read_idx q1 + offset then Inr (q1, False)
     else bindR (item_put (read_idx q1 + offset) v q1) (\<lambda>q2. Inr (q2, True)))"

subsection \<open>Invariant and abstraction\<close>

definition slot :: "'a queue \<Rightarrow> nat \<Rightarrow> nat" where
  "slot q i = nat ((read_idx q + int i) mod max_len q)"

definition q_inv :: "'a queue \<Rightarrow> bool" where
  "q_inv q \<longleftrightarrow> 0 \<le> read_idx q \<and> read_idx q \<le> write_idx q \<and>
     write_idx q - read_idx q \<le> max_len q \<and> write_idx q < 2 * max_len q"

definition q_list :: "'a queue \<Rightarrow> 'a list" where
  "q_list q = map (\<lambda>i. items q ! slot q i) [0..<nat (q_size q)]"

definition q_cap :: "'a queue \<Rightarrow> nat" where
  "q_cap q = length (items q)"

lemma length_q_list [simp]: "length (q_list q) = nat (q_size q)"
  by (simp add: q_list_def)

lemma q_list_nth: "i < nat (q_size q) \<Longrightarrow> q_list q ! i = items q ! slot q i"
  by (simp add: q_list_def)

lemma q_inv_size: "q_inv q \<Longrightarrow> 0 \<le> q_size q \<and> q_size q \<le> max_len q \<and> 0 < max_len q"
  by (auto simp: q_inv_def q_size_def)

lemma q_inv_mk_queue [simp]: "q_inv (mk_queue v n) \<longleftrightarrow> 0 < n"
  by (auto simp: q_inv_def mk_queue_def max_len_def)

lemma q_list_mk_queue [simp]: "q_list (mk_queue v n) = []"
  by (simp add: q_list_def q_size_def mk_queue_def)

lemma q_cap_mk_queue [simp]: "q_cap (mk_queue v n) = n"
  by (simp add: q_cap_def mk_queue_def)

lemma q_inv_clear: "q_inv q \<Longrightarrow> q_inv (q_clear q)"
  by (auto simp: q_inv_def q_clear_def max_len_def)

lemma q_list_clear [simp]: "q_list (q_clear q) = []"
  by (simp add: q_list_def q_size_def q_clear_def)

lemma q_cap_clear [simp]: "q_cap (q_clear q) = q_cap q"
  by (simp add: q_cap_def q_clear_def)

lemma slot_bound: "0 < max_len q \<Longrightarrow> slot q i < length (items q)"
  by (simp add: slot_def max_len_def nat_less_iff)

lemma slot_inj:
  assumes "slot q i = slot q j" "0 < max_len q" "int i < max_len q" "int j < max_len q"
  shows "i = j"
proof -
  have "(read_idx q + int i) mod max_len q = (read_idx q + int j) mod max_len q"
    using assms(1,2) by (simp add: slot_def eq_nat_nat_iff)
  then have d: "max_len q dvd int i - int j"
    by (simp add: mod_eq_dvd_iff)
  have "\<bar>int i - int j\<bar> < max_len q" using assms(3,4) by linarith
  then have "int i - int j = 0" using dvd_imp_le_int [OF _ d] by linarith
  then show ?thesis by simp
qed

lemma item_get_slot: "q_inv q \<Longrightarrow> item_get (read_idx q + int i) q = Inr (items q ! slot q i)"
  by (auto simp: item_get_def slot_def Let_def q_inv_def cmod_nonneg)

lemma item_put_slot:
  "q_inv q \<Longrightarrow> item_put (read_idx q + int i) v q = Inr (q\<lparr>items := (items q)[slot q i := v]\<rparr>)"
  by (auto simp: item_put_def slot_def Let_def q_inv_def cmod_nonneg)

lemma max_len_update [simp]: "max_len (q\<lparr>items := (items q)[k := v]\<rparr>) = max_len q"
  by (simp add: max_len_def)

lemma slot_update [simp]: "slot (q\<lparr>items := (items q)[k := v]\<rparr>) i = slot q i"
  by (simp add: slot_def)

lemma q_inv_update [simp]: "q_inv (q\<lparr>items := (items q)[k := v]\<rparr>) = q_inv q"
  by (simp add: q_inv_def)

lemma q_size_update [simp]: "q_size (q\<lparr>items := xs\<rparr>) = q_size q"
  by (simp add: q_size_def)

lemma q_cap_update [simp]: "q_cap (q\<lparr>items := (items q)[k := v]\<rparr>) = q_cap q"
  by (simp add: q_cap_def)

lemma q_list_put:
  assumes "q_inv q" "int i < q_size q"
  shows "q_list (q\<lparr>items := (items q)[slot q i := v]\<rparr>) = (q_list q)[i := v]"
proof (rule nth_equalityI)
  fix k assume "k < length (q_list (q\<lparr>items := (items q)[slot q i := v]\<rparr>))"
  then have k: "int k < q_size q" by simp
  have m: "0 < max_len q" "q_size q \<le> max_len q" using q_inv_size [OF assms(1)] by auto
  then have "slot q i = slot q k \<longleftrightarrow> i = k" using slot_inj [of q i k] k assms(2) by auto
  then show "q_list (q\<lparr>items := (items q)[slot q i := v]\<rparr>) ! k = (q_list q)[i := v] ! k"
    using k assms(2) slot_bound [OF m(1)] by (auto simp: q_list_nth nth_list_update)
qed simp

lemma slot_normalize: "0 \<le> read_idx q \<Longrightarrow> slot (normalize q) i = slot q i"
  by (simp add: slot_def normalize_def Let_def max_len_def cdiv_nonneg minus_div_mult_eq_mod mod_add_left_eq)

lemma items_normalize [simp]: "items (normalize q) = items q"
  by (simp add: normalize_def Let_def)

lemma q_list_normalize: "0 \<le> read_idx q \<Longrightarrow> q_list (normalize q) = q_list q"
  by (simp add: q_list_def slot_normalize)

lemma q_inv_normalize:
  assumes "0 \<le> read_idx q" "read_idx q \<le> write_idx q" "write_idx q - read_idx q \<le> max_len q" "0 < max_len q"
  shows "q_inv (normalize q)"
proof -
  have r: "read_idx (normalize q) = read_idx q mod max_len q"
    using assms by (simp add: normalize_def Let_def cdiv_nonneg minus_div_mult_eq_mod)
  have w: "write_idx (normalize q) - read_idx (normalize q) = write_idx q - read_idx q"
    using size_normalize [of q] by (simp add: q_size_def)
  have "0 \<le> read_idx (normalize q)" "read_idx (normalize q) < max_len q" using assms r by auto
  with w assms show ?thesis unfolding q_inv_def max_len_normalize by linarith
qed

lemma push_back_full: "q_inv q \<Longrightarrow> length (q_list q) = q_cap q \<Longrightarrow> push_back v q = Inr (q, False)"
  by (auto simp: push_back_def q_size_def q_cap_def max_len_def q_inv_def)

lemma push_back_room:
  assumes "q_inv q" "length (q_list q) < q_cap q"
  shows "\<exists>q'. push_back v q = Inr (q', True) \<and> q_inv q' \<and> q_cap q' = q_cap q \<and> q_list q' = q_list q @ [v]"
proof -
  let ?k = "slot q (nat (q_size q))"
  let ?q1 = "q\<lparr>items := (items q)[?k := v]\<rparr>"
  let ?q2 = "?q1\<lparr>write_idx := write_idx q + 1\<rparr>"
  have s: "0 \<le> q_size q" "q_size q < max_len q"
    using assms q_inv_size [OF assms(1)] by (auto simp: q_cap_def max_len_def)
  have w: "write_idx q = read_idx q + int (nat (q_size q))" using s by (simp add: q_size_def)
  have put: "item_put (write_idx q) v q = Inr ?q1"
    using item_put_slot [OF assms(1), of "nat (q_size q)" v] w by simp
  have p: "push_back v q = Inr (normalize ?q2, True)"
    using s put by (simp add: push_back_def q_size_def)
  have b: "0 \<le> read_idx ?q2" "read_idx ?q2 \<le> write_idx ?q2" "write_idx ?q2 - read_idx ?q2 \<le> max_len ?q2"
    using s assms(1) by (auto simp: q_inv_def q_size_def max_len_def)
  have i: "q_inv (normalize ?q2)" using b s by (intro q_inv_normalize) (auto simp: max_len_def)
  have sz: "nat (q_size ?q2) = Suc (nat (q_size q))" using s by (simp add: q_size_def)
  have sl: "slot ?q2 j = slot q j" for j by (simp add: slot_def max_len_def)
  have k: "?k < length (items q)" using s by (intro slot_bound) auto
  have ne: "?k \<noteq> slot q j" if "j < nat (q_size q)" for j
  proof -
    have "int j < max_len q" using that s by linarith
    then show ?thesis using slot_inj [of q "nat (q_size q)" j] that s by auto
  qed
  have "q_list ?q2 = q_list q @ [v]"
    using k ne by (auto simp: q_list_def sz sl)
  then have "q_list (normalize ?q2) = q_list q @ [v]" using b(1) by (simp add: q_list_normalize)
  moreover have "q_cap (normalize ?q2) = q_cap q" by (simp add: q_cap_def)
  ultimately show ?thesis using p i by blast
qed

lemma pop_front_step:
  assumes "q_inv q" "q_list q = x # xs"
  shows "\<exists>q'. pop_front q = Inr (q', x) \<and> q_inv q' \<and> q_cap q' = q_cap q \<and> q_list q' = xs"
proof -
  let ?q = "q\<lparr>read_idx := read_idx q + 1\<rparr>"
  have "length (q_list q) = Suc (length xs)" using assms(2) by simp
  then have sz: "nat (q_size q) = Suc (length xs)" by simp
  have hd: "items q ! slot q 0 = x" using q_list_nth [of 0 q] sz assms(2) by simp
  have i: "q_inv ?q" using assms(1) sz by (auto simp: q_inv_def q_size_def max_len_def)
  have "slot ?q j = slot q (Suc j)" for j by (simp add: slot_def max_len_def algebra_simps)
  moreover have "nat (q_size ?q) = length xs" using sz by (simp add: q_size_def)
  ultimately have "q_list ?q = tl (q_list q)"
    by (simp add: q_list_def sz map_upt_Suc_shift del: upt_Suc)
  then have "q_list ?q = xs" using assms(2) by simp
  moreover have "pop_front q = Inr (?q, x)"
    using item_get_slot [OF assms(1), of 0] hd by (simp add: pop_front_def)
  ultimately show ?thesis using i by (auto simp: q_cap_def)
qed

lemma q_list_bound: "q_inv q \<Longrightarrow> length (q_list q) \<le> q_cap q"
  using q_inv_size [of q] by (simp add: q_cap_def max_len_def nat_le_iff)

interpretation qf: fifo q_inv q_cap q_list push_back pop_front
  by unfold_locales (rule q_list_bound push_back_full push_back_room pop_front_step; assumption)+

subsection \<open>\<open>replace\<close>\<close>

definition pad :: "'a \<Rightarrow> nat \<Rightarrow> 'a list \<Rightarrow> 'a list" where
  "pad d n xs = xs @ replicate (n - length xs) d"

lemma length_pad [simp]: "length (pad d n xs) = max n (length xs)"
  by (simp add: pad_def)

lemma pad_snoc: "length xs < n \<Longrightarrow> pad d n (xs @ [d]) = pad d n xs"
proof -
  assume "length xs < n"
  then have "n - length xs = Suc (n - Suc (length xs))" by simp
  then show ?thesis by (simp add: pad_def)
qed

lemma pad_id [simp]: "n \<le> length xs \<Longrightarrow> pad d n xs = xs"
  by (simp add: pad_def)

text \<open>The loop of \<open>replace\<close> pads the queue with default items up to the position, or until it is full.\<close>

lemma replace_loop_pad:
  assumes "q_inv q" "0 \<le> offset"
  shows "\<exists>q'. replace_loop d offset q = Inr q' \<and> q_inv q' \<and> q_cap q' = q_cap q \<and>
     q_list q' = pad d (min (Suc (nat offset)) (q_cap q)) (q_list q)"
  using assms
proof (induction d offset q rule: replace_loop.induct)
  case (1 d offset q)
  have sz: "write_idx q \<le> read_idx q + offset \<longleftrightarrow> length (q_list q) \<le> nat offset"
    using 1(2,3) by (auto simp: q_size_def q_inv_def)
  consider (room) "length (q_list q) \<le> nat offset" "length (q_list q) < q_cap q"
    | (full) "length (q_list q) \<le> nat offset" "length (q_list q) = q_cap q"
    | (present) "nat offset < length (q_list q)"
    using q_list_bound [OF 1(2)] by linarith
  then show ?case
  proof cases
    case room
    then obtain q1 where q1: "push_back d q = Inr (q1, True)" "q_inv q1" "q_cap q1 = q_cap q"
      "q_list q1 = q_list q @ [d]" using push_back_room [OF 1(2)] by blast
    have "write_idx q \<le> read_idx q + offset" using room sz by blast
    then have "replace_loop d offset q = replace_loop d offset q1"
      using q1 by (subst replace_loop.simps) simp
    moreover have "\<exists>q'. replace_loop d offset q1 = Inr q' \<and> q_inv q' \<and> q_cap q' = q_cap q1 \<and>
        q_list q' = pad d (min (Suc (nat offset)) (q_cap q1)) (q_list q1)"
      using 1 q1 \<open>write_idx q \<le> _\<close> by blast
    ultimately show ?thesis using q1 room by (auto simp: pad_snoc)
  next
    case full
    then have "replace_loop d offset q = Inr q"
      using push_back_full [OF 1(2)] sz by (subst replace_loop.simps) simp
    then show ?thesis using 1(2) full by simp
  next
    case present
    then have "\<not> write_idx q \<le> read_idx q + offset" using sz by linarith
    then have "replace_loop d offset q = Inr q" by (subst replace_loop.simps) simp
    moreover have "min (Suc (nat offset)) (q_cap q) \<le> length (q_list q)" using present by linarith
    ultimately show ?thesis using 1(2) by simp
  qed
qed

lemma replace_cases:
  assumes "q_inv q" "0 \<le> offset"
  shows "\<exists>q'. replace d offset v q = Inr (q', nat offset \<le> q_cap q) \<and> q_inv q' \<and> q_cap q' = q_cap q \<and>
     q_list q' = (let padded = pad d (min (Suc (nat offset)) (q_cap q)) (q_list q)
        in if nat offset < q_cap q then padded[nat offset := v]
           else if nat offset = q_cap q then padded[0 := v] else padded)"
proof -
  let ?padded = "pad d (min (Suc (nat offset)) (q_cap q)) (q_list q)"
  from replace_loop_pad [OF assms, of d] obtain q1 where
    q1: "replace_loop d offset q = Inr q1" "q_inv q1" "q_cap q1 = q_cap q" "q_list q1 = ?padded" by blast
  have lb: "length (q_list q) \<le> q_cap q" by (rule q_list_bound [OF assms(1)])
  have len: "nat (q_size q1) = max (min (Suc (nat offset)) (q_cap q)) (length (q_list q))"
    using q1(4) length_q_list [of q1] by (simp del: length_q_list)
  have n: "max_len q1 = int (q_cap q)" "0 < q_cap q"
    using q1(2,3) q_inv_size [OF q1(2)] by (auto simp: max_len_def q_cap_def)
  have w: "write_idx q1 < read_idx q1 + offset \<longleftrightarrow> nat (q_size q1) < nat offset"
    using assms(2) q_inv_size [OF q1(2)] by (auto simp: q_size_def)
  have rep: "replace d offset v q =
      (if nat (q_size q1) < nat offset then Inr (q1, False)
       else Inr (q1\<lparr>items := (items q1)[slot q1 (nat offset) := v]\<rparr>, True))"
    using q1(1) w item_put_slot [OF q1(2), of "nat offset" v] assms(2)
    by (cases "offset = 0") (simp_all add: replace_def)
  have put: "q_list (q1\<lparr>items := (items q1)[slot q1 i := v]\<rparr>) = ?padded[i := v]" if "i < nat (q_size q1)" for i
    using q_list_put [OF q1(2), of i v] that q1(4) by simp
  consider "nat offset < q_cap q" | "nat offset = q_cap q" | "q_cap q < nat offset" by linarith
  then show ?thesis
  proof cases
    case 1
    then have "nat offset < nat (q_size q1)" using len by simp
    then show ?thesis using 1 rep put q1 by auto
  next
    case 2
    have "slot q1 (nat offset) = slot q1 0" using 2 n by (simp add: slot_def)
    moreover have "nat (q_size q1) = q_cap q" using 2 len lb by simp
    ultimately show ?thesis using 2 rep put [of 0] q1 n by auto
  next
    case 3
    then show ?thesis using rep q1 len lb by auto
  qed
qed

text \<open>
  \<^bold>\<open>C21.\<close> The operations of the circular queue are those of a bounded list: \<open>push_back\<close>
  appends exactly when there is room and otherwise reports \<open>false\<close> and changes nothing;
  \<open>front\<close> and \<open>pop_front\<close> on a non-empty queue return its first item, and popping removes it. The
  array is never left and the indexes stay below twice its length.
\<close>

theorem queue_refines_list:
  assumes "q_inv q"
  shows "(\<exists>q'. push_back v q = Inr (q', length (q_list q) < q_cap q) \<and> q_inv q' \<and> q_cap q' = q_cap q \<and>
       q_list q' = (if length (q_list q) < q_cap q then q_list q @ [v] else q_list q)) \<and>
     (case q_list q of [] \<Rightarrow> q_size q = 0
      | x # xs \<Rightarrow> q_front q = Inr x \<and>
          (\<exists>q'. pop_front q = Inr (q', x) \<and> q_inv q' \<and> q_cap q' = q_cap q \<and> q_list q' = xs))"
proof (rule conjI)
  show "\<exists>q'. push_back v q = Inr (q', length (q_list q) < q_cap q) \<and> q_inv q' \<and> q_cap q' = q_cap q \<and>
       q_list q' = (if length (q_list q) < q_cap q then q_list q @ [v] else q_list q)"
    using push_back_full [OF assms, of v] push_back_room [OF assms, of v] q_list_bound [OF assms] assms
    by (cases "length (q_list q) < q_cap q") auto
  have "q_size q = 0" if "q_list q = []"
    using that length_q_list [of q] q_inv_size [OF assms] by (simp del: length_q_list)
  moreover have "q_front q = Inr x" if "q_list q = x # xs" for x xs
    using pop_front_step [OF assms that] by (auto simp: q_front_def pop_front_def)
  ultimately show "case q_list q of [] \<Rightarrow> q_size q = 0
      | x # xs \<Rightarrow> q_front q = Inr x \<and>
          (\<exists>q'. pop_front q = Inr (q', x) \<and> q_inv q' \<and> q_cap q' = q_cap q \<and> q_list q' = xs)"
    using pop_front_step [OF assms] by (auto split: list.split)
qed

theorem queue_refines_list_witness:
  "q_inv (mk_queue (0 :: nat) 3) \<and>
   (\<exists>q'. push_back 5 (mk_queue (0 :: nat) 3) = Inr (q', True) \<and> q_inv q' \<and> q_list q' = [5])"
  using queue_refines_list [of "mk_queue (0 :: nat) 3" 5] by auto



end
