(* ===== verification/Ring_Buffer.thy ===== *)
theory Ring_Buffer
  imports Queue
begin

text \<open>
  The byte ring of \<open>libraries/support/ring_buffer.h\<close>, a \<open>queue\<close> of bytes with writes at an
  offset, reads, peeks and discards. Its contract, the locale \<open>byte_stream\<close>, is what the TCP
  queues and the network driver rely on. Mixed \<open>int\<close> and \<open>size_t\<close> arithmetic is written
  out with the 32-bit conversions.
\<close>

type_synonym ring_buffer = "byte queue"

subsection \<open>The operations\<close>

definition rb_size :: "ring_buffer \<Rightarrow> int" where
  "rb_size q = u32 (q_size q)"

definition rb_capacity :: "ring_buffer \<Rightarrow> int" where
  "rb_capacity q = max_len q"

definition rb_remaining :: "ring_buffer \<Rightarrow> int" where
  "rb_remaining q = u32 (rb_capacity q - rb_size q)"

definition rb_clear :: "ring_buffer \<Rightarrow> ring_buffer" where
  "rb_clear q = q_clear q"

fun rb_write_loop :: "int \<Rightarrow> nat \<Rightarrow> byte list \<Rightarrow> ring_buffer \<Rightarrow> ring_buffer res" where
  "rb_write_loop offset i [] q = Inr q"
| "rb_write_loop offset i (b # bs) q =
     bindR (replace 0 (s32 (u32 (int i + offset))) b q) (\<lambda>(q1, push_ok).
     assertR push_ok (rb_write_loop offset (Suc i) bs q1))"

definition rb_write :: "byte list \<Rightarrow> int \<Rightarrow> ring_buffer \<Rightarrow> (ring_buffer \<times> bool) res" where
  "rb_write bs offset q =
     (let offset' = (if offset = -1 then q_size q else offset)
      in if rb_capacity q < u32 (offset' + int (length bs)) then Inr (q, False)
         else bindR (rb_write_loop offset' 0 bs q) (\<lambda>q'. Inr (q', True)))"

definition read_front :: "int \<Rightarrow> ring_buffer \<Rightarrow> (ring_buffer \<times> byte list) res" where
  "read_front max_length q = pop_loop pop_front (nat (min max_length (rb_size q))) q"

fun peek_loop :: "int \<Rightarrow> nat \<Rightarrow> nat \<Rightarrow> ring_buffer \<Rightarrow> byte list res" where
  "peek_loop start i 0 q = Inr []"
| "peek_loop start i (Suc n) q =
     bindR (item_get (s32 (u32 (q_begin q + start + int i))) q) (\<lambda>c.
     bindR (peek_loop start (Suc i) n q) (\<lambda>cs. Inr (c # cs)))"

definition peek :: "int \<Rightarrow> int \<Rightarrow> ring_buffer \<Rightarrow> byte list res" where
  "peek start len q = peek_loop start 0 (nat (max (min (start + len) (s32 (rb_size q)) - start) 0)) q"

definition consume :: "int \<Rightarrow> ring_buffer \<Rightarrow> (ring_buffer \<times> nat) res" where
  "consume max_length q =
     (let n = nat (min max_length (rb_size q))
      in bindR (pop_loop pop_front n q) (\<lambda>(q', _). Inr (q', n)))"

subsection \<open>Overlays\<close>

text \<open>What writing \<open>bs\<close> at offset \<open>n\<close> makes of the contents \<open>xs\<close>: zero padding up to the offset.\<close>

definition overlay :: "nat \<Rightarrow> byte list \<Rightarrow> byte list \<Rightarrow> byte list" where
  "overlay n bs xs = (if bs = [] then xs else take n (pad 0 n xs) @ bs @ drop (n + length bs) xs)"

lemma overlay_Nil [simp]: "overlay n [] xs = xs"
  by (simp add: overlay_def)

lemma overlay_append [simp]: "overlay (length xs) bs xs = xs @ bs"
  by (simp add: overlay_def)

lemma overlay_single: "(pad 0 (Suc n) xs)[n := b] = overlay n [b] xs"
proof (cases "n < length xs")
  case True
  then show ?thesis by (simp add: overlay_def upd_conv_take_nth_drop)
next
  case False
  then have "Suc n - length xs = Suc (n - length xs)" by simp
  then have "pad 0 (Suc n) xs = pad 0 n xs @ [0]"
    by (simp add: pad_def replicate_append_same flip: replicate_Suc)
  then show ?thesis using False by (simp add: overlay_def list_update_append)
qed

lemma overlay_Cons: "overlay n (b # bs) xs = overlay (Suc n) bs (overlay n [b] xs)"
  by (auto simp: overlay_def min_def pad_def add.commute)

lemma length_overlay: "bs \<noteq> [] \<Longrightarrow> length (overlay n bs xs) = max (n + length bs) (length xs)"
  by (auto simp: overlay_def)

subsection \<open>The contract of a byte stream\<close>

locale byte_stream =
  fixes inv :: "'q \<Rightarrow> bool"
    and cap :: "'q \<Rightarrow> nat"
    and lst :: "'q \<Rightarrow> byte list"
    and wr :: "byte list \<Rightarrow> int \<Rightarrow> 'q \<Rightarrow> ('q \<times> bool) res"
    and pk :: "int \<Rightarrow> int \<Rightarrow> 'q \<Rightarrow> byte list res"
    and rd :: "int \<Rightarrow> 'q \<Rightarrow> ('q \<times> byte list) res"
  assumes lst_cap: "inv q \<Longrightarrow> length (lst q) \<le> cap q"
    and cap_16: "inv q \<Longrightarrow> cap q \<le> 65535"
    and wr_room: "inv q \<Longrightarrow> n + length bs \<le> cap q \<Longrightarrow>
        \<exists>q'. wr bs (int n) q = Inr (q', True) \<and> inv q' \<and> cap q' = cap q \<and> lst q' = overlay n bs (lst q)"
    and wr_full: "inv q \<Longrightarrow> cap q < n + length bs \<Longrightarrow> n + length bs < 2147483648 \<Longrightarrow>
        wr bs (int n) q = Inr (q, False)"
    and wr_append: "wr bs (-1) q = wr bs (int (length (lst q))) q \<or> \<not> inv q"
    and pk_list: "inv q \<Longrightarrow> start + len \<le> 65535 \<Longrightarrow>
        pk (int start) (int len) q = Inr (take len (drop start (lst q)))"
    and rd_list: "inv q \<Longrightarrow>
        \<exists>q'. rd (int n) q = Inr (q', take n (lst q)) \<and> inv q' \<and> cap q' = cap q \<and> lst q' = drop n (lst q)"
begin

lemma append_room: "inv q \<Longrightarrow> length (lst q) + length bs \<le> cap q \<Longrightarrow>
    \<exists>q'. wr bs (-1) q = Inr (q', True) \<and> inv q' \<and> cap q' = cap q \<and> lst q' = lst q @ bs"
  using wr_append [of bs q] wr_room [of q "length (lst q)" bs] by auto

lemma append_full: "inv q \<Longrightarrow> cap q < length (lst q) + length bs \<Longrightarrow>
    length bs < 2147418112 \<Longrightarrow> wr bs (-1) q = Inr (q, False)"
  using wr_append [of bs q] wr_full [of q "length (lst q)" bs] lst_cap [of q] cap_16 [of q] by auto

text \<open>Bytes written at an offset are the bytes peeked there.\<close>

lemma write_peek:
  "inv q \<Longrightarrow> wr bs (int n) q = Inr (q', True) \<Longrightarrow> n + length bs \<le> cap q \<Longrightarrow>
   pk (int n) (int (length bs)) q' = Inr (if bs = [] then [] else bs)"
  using wr_room [of q n bs] pk_list [of q' n "length bs"] cap_16 [of q] by (auto simp: overlay_def)

lemma append_read:
  "inv q \<Longrightarrow> wr bs (-1) q = Inr (q', True) \<Longrightarrow> length (lst q) + length bs \<le> cap q \<Longrightarrow>
   \<exists>q''. rd (int (length (lst q) + length bs)) q' = Inr (q'', lst q @ bs) \<and> lst q'' = []"
  using append_room [of q bs] rd_list [of q' "length (lst q) + length bs"] by auto

end

subsection \<open>The ring keeps the contract\<close>

definition rb_inv :: "ring_buffer \<Rightarrow> bool" where
  "rb_inv q \<longleftrightarrow> q_inv q \<and> q_cap q \<le> 65535"

lemma rb_inv_bounds:
  assumes "rb_inv q"
  shows "rb_capacity q = int (q_cap q)" "q_size q = int (length (q_list q))"
    "rb_size q = int (length (q_list q))" "length (q_list q) \<le> q_cap q" "q_cap q \<le> 65535"
proof -
  have q: "q_inv q" "q_cap q \<le> 65535" using assms by (auto simp: rb_inv_def)
  show c: "rb_capacity q = int (q_cap q)" by (simp add: rb_capacity_def max_len_def q_cap_def)
  show s: "q_size q = int (length (q_list q))" using q_inv_size [OF q(1)] by simp
  show l: "length (q_list q) \<le> q_cap q" by (rule q_list_bound [OF q(1)])
  show "q_cap q \<le> 65535" by (rule q(2))
  show "rb_size q = int (length (q_list q))"
    unfolding rb_size_def using s l q(2) by (subst u32_id) linarith+
qed

lemma conv_id: "0 \<le> x \<Longrightarrow> x < 2147483648 \<Longrightarrow> s32 (u32 x) = x"
  by (simp add: u32_id s32_id)

lemma rb_write_loop_overlay:
  "rb_inv q \<Longrightarrow> n + i + length bs \<le> q_cap q \<Longrightarrow>
   \<exists>q'. rb_write_loop (int n) i bs q = Inr q' \<and> rb_inv q' \<and> q_cap q' = q_cap q \<and>
     q_list q' = overlay (n + i) bs (q_list q)"
proof (induction bs arbitrary: i q)
  case (Cons b bs)
  have q: "q_inv q" "q_cap q \<le> 65535" using Cons.prems(1) by (auto simp: rb_inv_def)
  have off: "s32 (u32 (int i + int n)) = int (n + i)"
    using Cons.prems(2) q(2) by (subst conv_id) simp_all
  have "min (Suc (n + i)) (q_cap q) = Suc (n + i)" using Cons.prems(2) by simp
  with replace_cases [OF q(1), of "int (n + i)" 0 b] obtain q1 where
    q1: "replace 0 (int (n + i)) b q = Inr (q1, True)" "q_inv q1" "q_cap q1 = q_cap q"
      "q_list q1 = overlay (n + i) [b] (q_list q)"
    using Cons.prems(2) by (auto simp: Let_def overlay_single simp del: of_nat_add)
  then have "rb_inv q1" using q(2) by (simp add: rb_inv_def)
  from Cons.IH [OF this, of "Suc i"] show ?case
    using q1 Cons.prems(2) by (auto simp: off overlay_Cons [of _ b bs] simp del: of_nat_add)
qed simp

lemma rb_write_room:
  assumes "rb_inv q" "n + length bs \<le> q_cap q"
  shows "\<exists>q'. rb_write bs (int n) q = Inr (q', True) \<and> rb_inv q' \<and> q_cap q' = q_cap q \<and>
     q_list q' = overlay n bs (q_list q)"
proof -
  have "u32 (int n + int (length bs)) = int (n + length bs)"
    using assms rb_inv_bounds(5) [OF assms(1)] by (subst u32_id) auto
  then show ?thesis
    using rb_write_loop_overlay [of q n 0 bs] assms rb_inv_bounds(1) [OF assms(1)]
    by (auto simp: rb_write_def Let_def)
qed

lemma rb_write_full:
  assumes "rb_inv q" "q_cap q < n + length bs" "n + length bs < 2147483648"
  shows "rb_write bs (int n) q = Inr (q, False)"
proof -
  have "u32 (int n + int (length bs)) = int (n + length bs)"
    using assms by (subst u32_id) auto
  then show ?thesis using assms(2) rb_inv_bounds(1) [OF assms(1)] by (simp add: rb_write_def Let_def)
qed

lemma rb_write_append: "rb_write bs (-1) q = rb_write bs (int (length (q_list q))) q \<or> \<not> rb_inv q"
  using rb_inv_bounds(2) [of q] by (auto simp: rb_write_def)

lemma peek_loop_list:
  "rb_inv q \<Longrightarrow> start + i + n \<le> length (q_list q) \<Longrightarrow>
   peek_loop (int start) i n q = Inr (take n (drop (start + i) (q_list q)))"
proof (induction n arbitrary: i)
  case (Suc n)
  have q: "q_inv q" using Suc.prems(1) by (simp add: rb_inv_def)
  have "read_idx q + int (start + i) < 2147483648" "0 \<le> read_idx q"
    using q Suc.prems rb_inv_bounds(1,4,5) [OF Suc.prems(1)]
    by (auto simp: q_inv_def rb_capacity_def)
  then have ix: "s32 (u32 (q_begin q + int start + int i)) = read_idx q + int (start + i)"
    by (subst conv_id) (auto simp: q_begin_def)
  have "drop (start + i) (q_list q) = q_list q ! (start + i) # drop (Suc (start + i)) (q_list q)"
    using Suc.prems(2) by (intro Cons_nth_drop_Suc [symmetric]) linarith
  moreover have "q_list q ! (start + i) = items q ! slot q (start + i)"
    using Suc.prems(2) by (intro q_list_nth) simp
  ultimately show ?case
    using Suc.IH [of "Suc i"] Suc.prems item_get_slot [OF q, of "start + i"] ix
    by (simp del: of_nat_add)
qed simp

lemma peek_list:
  assumes "rb_inv q" "start + len \<le> 65535"
  shows "peek (int start) (int len) q = Inr (take len (drop start (q_list q)))"
proof -
  note b = rb_inv_bounds [OF assms(1)]
  have s: "s32 (rb_size q) = int (length (q_list q))"
    unfolding b(3) using b(4,5) by (intro s32_id) linarith+
  let ?n = "nat (max (min (int start + int len) (int (length (q_list q))) - int start) 0)"
  have n: "?n = min len (length (q_list q) - start)" by linarith
  have "peek_loop (int start) 0 ?n q = Inr (take ?n (drop start (q_list q)))"
  proof (cases "start + ?n \<le> length (q_list q)")
    case True
    then show ?thesis using peek_loop_list [OF assms(1), of start 0 ?n] by simp
  next
    case False
    then have "?n = 0" unfolding n by linarith
    then show ?thesis by simp
  qed
  also have "take ?n (drop start (q_list q)) = take len (drop start (q_list q))"
    unfolding n by (simp add: min_def)
  finally show ?thesis unfolding peek_def s by simp
qed

lemma read_front_list:
  assumes "rb_inv q"
  shows "\<exists>q'. read_front (int n) q = Inr (q', take n (q_list q)) \<and> rb_inv q' \<and> q_cap q' = q_cap q \<and>
     q_list q' = drop n (q_list q)"
proof -
  note b = rb_inv_bounds [OF assms]
  have n: "nat (min (int n) (rb_size q)) = min n (length (q_list q))" unfolding b(3) by linarith
  have "q_inv q" using assms by (simp add: rb_inv_def)
  from qf.pop_loop_list [OF this, of "min n (length (q_list q))"] show ?thesis
    unfolding read_front_def n using b(5) by (auto simp: rb_inv_def min_def)
qed

lemma consume_read: "consume (int n) q = bindR (read_front (int n) q) (\<lambda>(q', _). Inr (q', nat (min (int n) (rb_size q))))"
  by (simp add: consume_def read_front_def Let_def)

interpretation rb: byte_stream rb_inv q_cap q_list rb_write peek read_front
proof (unfold_locales, goal_cases)
  case (1 q) then show ?case by (rule rb_inv_bounds)
next
  case (2 q) then show ?case by (rule rb_inv_bounds)
qed (rule rb_write_room rb_write_full rb_write_append peek_list read_front_list; assumption)+

lemma rb_inv_mk [simp]: "rb_inv (mk_queue v n) \<longleftrightarrow> 0 < n \<and> n \<le> 65535"
  by (simp add: rb_inv_def)

lemma rb_inv_clear: "rb_inv q \<Longrightarrow> rb_inv (rb_clear q)"
  by (simp add: rb_inv_def rb_clear_def q_inv_clear)

lemma consume_list:
  assumes "rb_inv q"
  shows "\<exists>q'. consume (int n) q = Inr (q', min n (length (q_list q))) \<and> rb_inv q' \<and>
     q_cap q' = q_cap q \<and> q_list q' = drop n (q_list q)"
proof -
  have n: "nat (min (int n) (rb_size q)) = min n (length (q_list q))"
    unfolding rb_inv_bounds(3) [OF assms] by linarith
  from rb.rd_list [OF assms, of n] show ?thesis by (auto simp: consume_read n simp del: length_q_list)
qed

subsection \<open>Properties\<close>

text \<open>
  \<^bold>\<open>C29.\<close> \<open>ring_buffer::write\<close> at an offset from the read position, or appending for the
  offset -1: if the data would end beyond the capacity nothing is written and \<open>false\<close> is
  returned; otherwise every byte is stored (the assertion in the loop holds), a gap up to
  the offset is filled with zeros, and bytes outside the written range keep their value.
\<close>

theorem rb_write_correct:
  assumes "rb_inv q" "offset = -1 \<or> 0 \<le> offset" "offset < 1073741824" "length bs < 1073741824"
  shows "let n = (if offset = -1 then length (q_list q) else nat offset)
     in if q_cap q < n + length bs then rb_write bs offset q = Inr (q, False)
        else \<exists>q'. rb_write bs offset q = Inr (q', True) \<and> rb_inv q' \<and> q_cap q' = q_cap q \<and>
          q_list q' = overlay n bs (q_list q)"
proof (cases "offset = -1")
  case True
  then show ?thesis
    using assms(1,4) rb.append_room [of q bs] rb.append_full [of q bs]
    by (auto simp: Let_def not_less simp del: length_q_list)
next
  case False
  then have "offset = int (nat offset)" using assms(2) by simp
  then show ?thesis
    using assms False rb_write_room [of q "nat offset" bs] rb_write_full [of q "nat offset" bs]
    by (auto simp: Let_def not_less)
qed

theorem rb_write_correct_witness:
  "rb_inv (mk_queue 0 8) \<and> (2 = (-1 :: int) \<or> (0 :: int) \<le> 2) \<and>
   (\<exists>q'. rb_write [7, 9] 2 (mk_queue 0 8) = Inr (q', True) \<and> q_list q' = [0, 0, 7, 9])"
  using rb_write_correct [of "mk_queue 0 8" 2 "[7, 9]"]
  by (auto simp: overlay_def pad_def numeral_2_eq_2)

text \<open>
  \<^bold>\<open>C30.\<close> The three ways of reading a ring: \<open>peek\<close> returns the requested part of the
  contents, cut at their end, and changes nothing; \<open>read_front\<close> returns and removes the first
  bytes, at most as many as there are; \<open>consume\<close> removes the same bytes and returns their
  number.
\<close>

theorem rb_read_correct:
  assumes "rb_inv q" "start + len \<le> 65535"
  shows "peek (int start) (int len) q = Inr (take len (drop start (q_list q))) \<and>
     (\<exists>q'. read_front (int n) q = Inr (q', take n (q_list q)) \<and> rb_inv q' \<and> q_list q' = drop n (q_list q)) \<and>
     (\<exists>q'. consume (int n) q = Inr (q', min n (length (q_list q))) \<and> rb_inv q' \<and> q_list q' = drop n (q_list q))"
  using rb.pk_list [OF assms] rb.rd_list [OF assms(1), of n] consume_list [OF assms(1), of n] by blast

theorem rb_read_correct_witness:
  "\<exists>q. rb_write [7, 9] (-1) (mk_queue 0 8) = Inr (q, True) \<and> rb_inv q \<and> (1 :: nat) + 5 \<le> 65535 \<and>
     peek (int 1) (int 5) q = Inr [9] \<and> (\<exists>q'. read_front (int 1) q = Inr (q', [7]) \<and> q_list q' = [9])"
proof -
  obtain q where q: "rb_write [7, 9] (-1) (mk_queue 0 8) = Inr (q, True)" "rb_inv q" "q_list q = [7, 9]"
    using rb.append_room [of "mk_queue 0 8" "[7, 9]"] by auto
  then show ?thesis using rb_read_correct [of q 1 5 1] by auto
qed

end
