(* ===== verification/Flip_Buffer.thy ===== *)
theory Flip_Buffer
  imports Prelude
begin

text \<open>
  The double buffer of \<open>libraries/support/flip_buffer.h\<close>: allocations are carved out of the
  current buffer; when it is exhausted the other one is recycled, its generation counter
  raised, and the handles into it expire. A handle packs the buffer number, the generation
  and the offset into 64 bits.
\<close>

unbundle bit_operations_syntax

type_synonym handle = "64 word"

record buffer =
  buf_size :: nat
  buf_data :: "byte list"
  generation :: "16 word"

record flip_buffer =
  buffers :: "buffer list"
  cur_buf :: nat

definition ptr_buffer :: "handle \<Rightarrow> 8 word" where
  "ptr_buffer ptr = ucast (drop_bit 62 ptr)"

definition ptr_generation :: "handle \<Rightarrow> 16 word" where
  "ptr_generation ptr = ucast (drop_bit 32 (ptr AND 0x0000FFFF00000000))"

definition ptr_offset :: "handle \<Rightarrow> 32 word" where
  "ptr_offset ptr = ucast (ptr AND 0x00000000FFFFFFFF)"

definition create_ptr :: "8 word \<Rightarrow> 16 word \<Rightarrow> 32 word \<Rightarrow> handle" where
  "create_ptr buf gen offset = push_bit 62 (ucast buf) OR push_bit 32 (ucast gen) OR ucast offset"

definition flip_buffer_init :: "nat \<Rightarrow> flip_buffer" where
  "flip_buffer_init n =
     \<lparr>buffers = [\<lparr>buf_size = 0, buf_data = replicate n 0, generation = 1000\<rparr>,
                 \<lparr>buf_size = 0, buf_data = replicate n 0, generation = 60000\<rparr>],
      cur_buf = 0\<rparr>"

definition fb_flip :: "flip_buffer \<Rightarrow> flip_buffer" where
  "fb_flip fb = fb\<lparr>cur_buf := (if cur_buf fb = 0 then 1 else 0)\<rparr>"

definition buf_reset :: "buffer \<Rightarrow> buffer" where
  "buf_reset b = b\<lparr>buf_size := 0, generation := generation b + 1\<rparr>"

definition fb_cur :: "flip_buffer \<Rightarrow> buffer" where
  "fb_cur fb = buffers fb ! cur_buf fb"

definition update_cur :: "(buffer \<Rightarrow> buffer) \<Rightarrow> flip_buffer \<Rightarrow> flip_buffer" where
  "update_cur f fb = fb\<lparr>buffers := (buffers fb)[cur_buf fb := f (fb_cur fb)]\<rparr>"

definition fb_capacity :: "flip_buffer \<Rightarrow> nat" where
  "fb_capacity fb = length (buf_data (fb_cur fb))"

definition fb_alloc :: "nat \<Rightarrow> flip_buffer \<Rightarrow> flip_buffer \<times> handle" where
  "fb_alloc len fb =
     (if fb_capacity fb < len then (fb, 0)
      else
        let fb1 = (if fb_capacity fb - buf_size (fb_cur fb) < len then update_cur buf_reset (fb_flip fb) else fb);
            new_ptr = create_ptr (if cur_buf fb1 = 0 then 1 else 2) (generation (fb_cur fb1))
              (of_nat (buf_size (fb_cur fb1)))
        in (update_cur (\<lambda>b. b\<lparr>buf_size := buf_size b + len\<rparr>) fb1, new_ptr))"

text \<open>The pointer \<open>data\<close> returns, as a buffer number and an offset into its array.\<close>

definition fb_data :: "handle \<Rightarrow> flip_buffer \<Rightarrow> (nat \<times> nat) option" where
  "fb_data h fb =
     (let resolve = (\<lambda>i. if ptr_generation h \<noteq> generation (buffers fb ! i) then None
            else if buf_size (buffers fb ! i) \<le> unat (ptr_offset h) then None
            else Some (i, unat (ptr_offset h)))
      in if ptr_buffer h = 1 then resolve 0
         else if ptr_buffer h = 2 then resolve 1
         else None)"

subsection \<open>Packing and unpacking handles\<close>

lemma gen_mask: "(0x0000FFFF00000000 :: 64 word) = push_bit 32 (mask 16)"
  by (simp add: mask_eq_exp_minus_1 push_bit_eq_mult)

lemma off_mask: "(0x00000000FFFFFFFF :: 64 word) = mask 32"
  by (simp add: mask_eq_exp_minus_1)

lemma ptr_generation_create [simp]: "ptr_generation (create_ptr b g off) = g"
  unfolding ptr_generation_def create_ptr_def gen_mask
  by (rule bit_word_eqI) (auto simp: bit_simps dest: bit_imp_le_length)

lemma ptr_offset_create [simp]: "ptr_offset (create_ptr b g off) = off"
  unfolding ptr_offset_def create_ptr_def off_mask
  by (rule bit_word_eqI) (auto simp: bit_simps dest: bit_imp_le_length)

lemma ptr_buffer_create_1 [simp]: "ptr_buffer (create_ptr 1 g off) = 1"
  unfolding ptr_buffer_def create_ptr_def
  by (rule bit_word_eqI) (auto simp: bit_simps dest: bit_imp_le_length)

lemma ptr_buffer_create_2 [simp]: "ptr_buffer (create_ptr 2 g off) = 2"
  unfolding ptr_buffer_def create_ptr_def
  by (rule bit_word_eqI) (auto simp: bit_simps dest: bit_imp_le_length)

lemma ptr_buffer_0 [simp]: "ptr_buffer 0 = 0"
  by (simp add: ptr_buffer_def)

subsection \<open>Well-formedness\<close>

definition fb_wf :: "nat \<Rightarrow> flip_buffer \<Rightarrow> bool" where
  "fb_wf n fb \<longleftrightarrow> n < 4294967296 \<and> length (buffers fb) = 2 \<and> cur_buf fb < 2 \<and>
     (\<forall>b \<in> set (buffers fb). length (buf_data b) = n \<and> buf_size b \<le> n)"

definition buf_no :: "nat \<Rightarrow> 8 word" where
  "buf_no i = (if i = 0 then 1 else 2)"

text \<open>The handle belongs to the present generation of buffer \<open>i\<close>.\<close>

definition fb_current :: "flip_buffer \<Rightarrow> nat \<Rightarrow> handle \<Rightarrow> bool" where
  "fb_current fb i h \<longleftrightarrow> i < 2 \<and> ptr_buffer h = buf_no i \<and> ptr_generation h = generation (buffers fb ! i)"

lemma fb_data_iff: "fb_data h fb = Some (i, k) \<longleftrightarrow>
    fb_current fb i h \<and> k = unat (ptr_offset h) \<and> k < buf_size (buffers fb ! i)"
  by (auto simp: fb_data_def fb_current_def buf_no_def Let_def less_2_cases_iff split: if_splits)

lemma fb_wf_init [simp]: "fb_wf n (flip_buffer_init n) \<longleftrightarrow> n < 4294967296"
  by (auto simp: fb_wf_def flip_buffer_init_def)

lemma fb_wf_nth: "fb_wf n fb \<Longrightarrow> i < 2 \<Longrightarrow>
    length (buf_data (buffers fb ! i)) = n \<and> buf_size (buffers fb ! i) \<le> n"
  by (auto simp: fb_wf_def)

lemma fb_wf_capacity: "fb_wf n fb \<Longrightarrow> fb_capacity fb = n"
  using fb_wf_nth [of n fb "cur_buf fb"] by (auto simp: fb_wf_def fb_capacity_def fb_cur_def)

lemma fb_wf_update_cur:
  assumes "fb_wf n fb" "length (buf_data (f (fb_cur fb))) = n" "buf_size (f (fb_cur fb)) \<le> n"
  shows "fb_wf n (update_cur f fb)"
  using assms by (auto simp: fb_wf_def update_cur_def dest: set_update_subset_insert [THEN subsetD])

lemma fb_wf_flip: "fb_wf n fb \<Longrightarrow> fb_wf n (fb_flip fb)"
  by (simp add: fb_wf_def fb_flip_def)

text \<open>
  The three ways \<open>alloc\<close> can go: refused, carved out of the current buffer \<open>i\<close>, or carved
  out of the other buffer after recycling it.
\<close>

lemma alloc_refused: "fb_wf n fb \<Longrightarrow> n < len \<Longrightarrow> fb_alloc len fb = (fb, 0)"
  by (simp add: fb_alloc_def fb_wf_capacity)

definition carved :: "nat \<Rightarrow> nat \<Rightarrow> flip_buffer \<Rightarrow> flip_buffer \<Rightarrow> handle \<Rightarrow> bool" where
  "carved len i fb fb' h \<longleftrightarrow>
     h = create_ptr (buf_no i) (generation (buffers fb ! i)) (of_nat (buf_size (buffers fb ! i))) \<and>
     cur_buf fb' = i \<and>
     buffers fb' = (buffers fb)[i := (buffers fb ! i)\<lparr>buf_size := buf_size (buffers fb ! i) + len\<rparr>]"

lemma alloc_fits:
  assumes "fb_wf n fb" "buf_size (fb_cur fb) + len \<le> n"
  shows "\<exists>fb' h. fb_alloc len fb = (fb', h) \<and> fb_wf n fb' \<and> carved len (cur_buf fb) fb fb' h"
proof -
  let ?fb = "update_cur (\<lambda>b. b\<lparr>buf_size := buf_size b + len\<rparr>) fb"
  have c: "fb_capacity fb = n" "cur_buf fb < 2" "length (buf_data (fb_cur fb)) = n"
    using assms fb_wf_capacity [OF assms(1)] by (auto simp: fb_wf_def fb_capacity_def)
  have "fb_wf n ?fb" using assms c by (intro fb_wf_update_cur) auto
  moreover have "\<not> fb_capacity fb < len" "\<not> fb_capacity fb - buf_size (fb_cur fb) < len"
    using assms c by auto
  ultimately show ?thesis
    by (auto simp: fb_alloc_def carved_def update_cur_def fb_cur_def buf_no_def)
qed

definition recycled :: "flip_buffer \<Rightarrow> flip_buffer" where
  "recycled fb = update_cur buf_reset (fb_flip fb)"

lemma recycled_simps:
  assumes "fb_wf n fb"
  shows "cur_buf (recycled fb) = 1 - cur_buf fb"
    "buffers (recycled fb) = (buffers fb)[1 - cur_buf fb := buf_reset (buffers fb ! (1 - cur_buf fb))]"
    "fb_wf n (recycled fb)" "buf_size (fb_cur (recycled fb)) = 0"
proof -
  have c: "cur_buf fb = 0 \<or> cur_buf fb = 1" "length (buffers fb) = 2"
    using assms by (auto simp: fb_wf_def)
  show "cur_buf (recycled fb) = 1 - cur_buf fb"
    "buffers (recycled fb) = (buffers fb)[1 - cur_buf fb := buf_reset (buffers fb ! (1 - cur_buf fb))]"
    "buf_size (fb_cur (recycled fb)) = 0"
    using c by (auto simp: recycled_def update_cur_def fb_flip_def fb_cur_def buf_reset_def)
  have "length (buf_data (fb_cur (fb_flip fb))) = n"
    using fb_wf_capacity [OF fb_wf_flip [OF assms]] by (simp add: fb_capacity_def)
  then show "fb_wf n (recycled fb)" unfolding recycled_def
    by (intro fb_wf_update_cur fb_wf_flip [OF assms]) (auto simp: buf_reset_def)
qed

lemma alloc_recycles:
  assumes "fb_wf n fb" "len \<le> n" "n < buf_size (fb_cur fb) + len"
  shows "\<exists>fb' h. fb_alloc len fb = (fb', h) \<and> fb_wf n fb' \<and> carved len (1 - cur_buf fb) (recycled fb) fb' h"
proof -
  note r = recycled_simps [OF assms(1)]
  have c: "fb_capacity fb = n" "fb_capacity (recycled fb) = n" "buf_size (fb_cur fb) \<le> n"
    using fb_wf_capacity assms(1) r(3) fb_wf_nth [of n fb "cur_buf fb"] by (auto simp: fb_cur_def fb_wf_def)
  have "fb_alloc len fb = fb_alloc len (recycled fb)"
    using assms c r(4) by (simp add: fb_alloc_def flip: recycled_def) linarith
  then show ?thesis
    using alloc_fits [of n "recycled fb" len] recycled_simps [OF assms(1)] assms(2) by auto
qed

subsection \<open>Handles that are still current\<close>

text \<open>
  A log of the allocations made so far, oldest first. After \<open>m\<close> allocations a handle is at
  most \<open>m\<close> generations behind its buffer, so below 65536 allocations an expired handle
  cannot look current again.
\<close>

definition log_ok :: "nat \<Rightarrow> flip_buffer \<Rightarrow> (handle \<times> nat) list \<Rightarrow> bool" where
  "log_ok m fb hs \<longleftrightarrow>
     (\<forall>(h, len) \<in> set hs. h = 0 \<or> (\<exists>i < 2. ptr_buffer h = buf_no i \<and>
        unat (generation (buffers fb ! i) - ptr_generation h) \<le> m)) \<and>
     (\<forall>(h, len) \<in> set hs. \<forall>i. fb_current fb i h \<longrightarrow>
        unat (ptr_offset h) + len \<le> buf_size (buffers fb ! i)) \<and>
     sorted_wrt (\<lambda>(h, len) (h', len'). \<forall>i. fb_current fb i h \<longrightarrow> fb_current fb i h' \<longrightarrow>
        unat (ptr_offset h) + len \<le> unat (ptr_offset h')) hs"

lemma log_ok_mono: "log_ok m fb hs \<Longrightarrow> m \<le> m' \<Longrightarrow> log_ok m' fb hs"
  unfolding log_ok_def by (fastforce intro: order_trans)

lemma not_current_0 [simp]: "\<not> fb_current fb i 0"
  by (simp add: fb_current_def buf_no_def)

lemma log_ok_refused: "log_ok m fb hs \<Longrightarrow> log_ok m fb (hs @ [(0, len)])"
  by (auto simp: log_ok_def sorted_wrt_append)

lemma buf_no_inj: "i < 2 \<Longrightarrow> j < 2 \<Longrightarrow> buf_no i = buf_no j \<Longrightarrow> i = j"
  by (auto simp: buf_no_def split: if_splits)

lemma ptr_buffer_create [simp]: "ptr_buffer (create_ptr (buf_no i) g off) = buf_no i"
  by (simp add: buf_no_def)

lemma carved_current:
  assumes "carved len i fb fb' h" "i < length (buffers fb)"
  shows "fb_current fb' j h' \<longleftrightarrow> fb_current fb j h'"
  using assms by (auto simp: fb_current_def carved_def nth_list_update)

lemma carved_offset:
  assumes "carved len i fb fb' h" "fb_wf n fb" "i < 2"
  shows "unat (ptr_offset h) = buf_size (buffers fb ! i)"
proof -
  have "buf_size (buffers fb ! i) < 2 ^ 32" using fb_wf_nth [OF assms(2,3)] assms(2) by (simp add: fb_wf_def)
  then show ?thesis using assms(1) by (simp add: carved_def unat_of_nat)
qed

lemma log_ok_carved:
  assumes "log_ok m fb hs" "carved len i fb fb' h" "fb_wf n fb" "i < 2"
  shows "log_ok m fb' (hs @ [(h, len)])"
proof -
  have l: "i < length (buffers fb)" using assms(3,4) by (simp add: fb_wf_def)
  have g: "generation (buffers fb' ! j) = generation (buffers fb ! j)" for j
    using assms(2) l by (auto simp: carved_def nth_list_update)
  have sz: "buf_size (buffers fb' ! j) = buf_size (buffers fb ! j) + (if j = i then len else 0)" for j
    using assms(2) l by (auto simp: carved_def nth_list_update)
  have h: "fb_current fb j h \<longleftrightarrow> j = i" for j
    using assms(2,4) by (auto simp: fb_current_def carved_def dest: buf_no_inj)
  have hb: "ptr_buffer h = buf_no i" "ptr_generation h = generation (buffers fb ! i)"
    using h [of i] by (auto simp: fb_current_def)
  note off = carved_offset [OF assms(2-4)]
  have "\<exists>j<2. ptr_buffer h = buf_no j \<and> unat (generation (buffers fb ! j) - ptr_generation h) \<le> m"
    using hb assms(4) by auto
  moreover have old: "unat (ptr_offset a) + k \<le> buf_size (buffers fb ! j)"
    if "(a, k) \<in> set hs" "fb_current fb j a" for a k j
    using assms(1) that by (auto simp: log_ok_def)
  moreover have "unat (ptr_offset a) + k \<le> buf_size (buffers fb ! i) + len"
    if "(a, k) \<in> set hs" "fb_current fb i a" for a k
    using old [OF that] by simp
  ultimately show ?thesis
    using assms(1) by (auto simp: log_ok_def g sz h off sorted_wrt_append carved_current [OF assms(2) l])
qed

lemma recycled_current:
  assumes "fb_wf n fb"
  shows "fb_current (recycled fb) j h \<longleftrightarrow>
     (if j = 1 - cur_buf fb then j < 2 \<and> ptr_buffer h = buf_no j \<and> ptr_generation h = generation (buffers fb ! j) + 1
      else fb_current fb j h)"
  using assms recycled_simps(2) [OF assms]
  by (auto simp: fb_current_def fb_wf_def nth_list_update buf_reset_def)

lemma unat_Suc16: "unat (w :: 16 word) < 65535 \<Longrightarrow> unat (w + 1) = Suc (unat w)"
  by (simp add: unat_word_ariths)

lemma log_ok_recycled:
  assumes "log_ok m fb hs" "fb_wf n fb" "m < 65535"
  shows "log_ok (Suc m) (recycled fb) hs"
proof -
  let ?o = "1 - cur_buf fb"
  have o: "?o < length (buffers fb)" using assms(2) by (auto simp: fb_wf_def)
  note r = recycled_simps(2) [OF assms(2)]
  have age: "unat (generation (buffers (recycled fb) ! j) - ptr_generation h) =
      unat (generation (buffers fb ! j) - ptr_generation h) + (if j = ?o then 1 else 0)"
    if "unat (generation (buffers fb ! j) - ptr_generation h) \<le> m" for j h
    using unat_Suc16 [of "generation (buffers fb ! j) - ptr_generation h"] that assms(3) o r
    by (auto simp: nth_list_update buf_reset_def algebra_simps)
  have fb_cur: "fb_current (recycled fb) j h \<Longrightarrow> fb_current fb j h \<and> j \<noteq> ?o" if "(h, k) \<in> set hs" for j h k
  proof -
    assume c: "fb_current (recycled fb) j h"
    have "\<exists>i<2. ptr_buffer h = buf_no i \<and> unat (generation (buffers fb ! i) - ptr_generation h) \<le> m"
      using assms(1) that c by (auto simp: log_ok_def)
    then have a: "unat (generation (buffers fb ! j) - ptr_generation h) \<le> m"
      using c buf_no_inj by (auto simp: fb_current_def)
    have "unat (generation (buffers (recycled fb) ! j) - ptr_generation h) = 0"
      using c by (simp add: fb_current_def)
    then have "j \<noteq> ?o" using age [OF a] by auto
    then show ?thesis using c recycled_current [OF assms(2), of j h] by simp
  qed
  have sz: "j \<noteq> ?o \<Longrightarrow> buf_size (buffers (recycled fb) ! j) = buf_size (buffers fb ! j)" for j
    using r by (simp add: nth_list_update)
  have a1: "\<exists>i<2. ptr_buffer h = buf_no i \<and> unat (generation (buffers (recycled fb) ! i) - ptr_generation h) \<le> Suc m"
    if hk: "(h, k) \<in> set hs" "h \<noteq> 0" for h k
  proof -
    obtain i where i: "i < 2" "ptr_buffer h = buf_no i" "unat (generation (buffers fb ! i) - ptr_generation h) \<le> m"
      using assms(1) hk by (auto simp: log_ok_def)
    then have "unat (generation (buffers (recycled fb) ! i) - ptr_generation h) \<le> Suc m"
      using age [OF i(3)] by auto
    with i show ?thesis by blast
  qed
  have a2: "unat (ptr_offset h) + k \<le> buf_size (buffers (recycled fb) ! i)"
    if "(h, k) \<in> set hs" "fb_current (recycled fb) i h" for h k i
    using assms(1) fb_cur [OF that] sz [of i] that(1) by (auto simp: log_ok_def)
  have srt: "sorted_wrt (\<lambda>(h, len) (h', len'). \<forall>i. fb_current fb i h \<longrightarrow> fb_current fb i h' \<longrightarrow>
        unat (ptr_offset h) + len \<le> unat (ptr_offset h')) hs"
    using assms(1) unfolding log_ok_def by blast
  have "sorted_wrt (\<lambda>(h, len) (h', len'). \<forall>i. fb_current (recycled fb) i h \<longrightarrow> fb_current (recycled fb) i h' \<longrightarrow>
        unat (ptr_offset h) + len \<le> unat (ptr_offset h')) hs"
    by (rule sorted_wrt_mono_rel [OF _ srt]) (use fb_cur in fastforce)
  then show ?thesis using a1 a2 by (auto simp: log_ok_def)
qed

lemma log_ok_alloc:
  assumes "log_ok m fb hs" "fb_wf n fb" "m < 65535" "fb_alloc len fb = (fb', h)"
  shows "fb_wf n fb' \<and> log_ok (Suc m) fb' (hs @ [(h, len)])"
proof -
  consider "n < len" | "buf_size (fb_cur fb) + len \<le> n" | "len \<le> n" "n < buf_size (fb_cur fb) + len" by linarith
  then show ?thesis
  proof cases
    case 1
    then show ?thesis using assms alloc_refused [of n fb len] log_ok_mono log_ok_refused by fastforce
  next
    case 2
    then show ?thesis
      using alloc_fits [OF assms(2) 2] assms log_ok_carved [of m fb hs len "cur_buf fb" fb' h n]
        log_ok_mono [of m fb' _ "Suc m"] by (auto simp: fb_wf_def)
  next
    case 3
    note r = recycled_simps [OF assms(2)]
    obtain "fb_wf n fb'" "carved len (1 - cur_buf fb) (recycled fb) fb' h"
      using alloc_recycles [OF assms(2) 3] assms(4) by auto
    then show ?thesis
      using log_ok_carved [OF log_ok_recycled [OF assms(1-3)], of len "1 - cur_buf fb" fb' h n] r(3) by auto
  qed
qed

fun alloc_all :: "nat list \<Rightarrow> flip_buffer \<times> (handle \<times> nat) list \<Rightarrow> flip_buffer \<times> (handle \<times> nat) list" where
  "alloc_all [] s = s"
| "alloc_all (len # lens) (fb, hs) = (let (fb', h) = fb_alloc len fb in alloc_all lens (fb', hs @ [(h, len)]))"

lemma log_ok_alloc_all:
  "log_ok m fb hs \<Longrightarrow> fb_wf n fb \<Longrightarrow> m + length lens < 65536 \<Longrightarrow> alloc_all lens (fb, hs) = (fb', hs') \<Longrightarrow>
   fb_wf n fb' \<and> log_ok (m + length lens) fb' hs'"
proof (induction lens arbitrary: m fb hs)
  case (Cons len lens)
  obtain fb1 h where a: "fb_alloc len fb = (fb1, h)" by fastforce
  from Cons.prems log_ok_alloc [OF Cons.prems(1,2) _ a] Cons.IH [of "Suc m" fb1 "hs @ [(h, len)]"] a
  show ?case by auto
qed simp

subsection \<open>Properties\<close>

text \<open>
  \<^bold>\<open>C24.\<close> Among fewer than 65536 allocations from a fresh flip buffer, any two whose handles
  \<open>data\<close> still resolves occupy disjoint parts of the memory, and each lies inside its
  buffer: data saved under a handle is never overwritten while the handle resolves.
\<close>

theorem live_allocations_disjoint:
  assumes "alloc_all lens (flip_buffer_init n, []) = (fb, hs)" "length lens < 65536" "n < 4294967296"
    and "i < j" "j < length hs" "hs ! i = (h, len)" "hs ! j = (h', len')"
    and "fb_data h fb = Some (b, off)" "fb_data h' fb = Some (b', off')"
  shows "(b \<noteq> b' \<or> off + len \<le> off') \<and> off + len \<le> n \<and> off' + len' \<le> n"
proof -
  have "log_ok 0 (flip_buffer_init n) []" by (simp add: log_ok_def)
  then have l: "fb_wf n fb" "log_ok (length lens) fb hs"
    using log_ok_alloc_all [OF _ _ _ assms(1), of 0 n] assms(2,3) by auto
  have m: "(h, len) \<in> set hs" "(h', len') \<in> set hs"
    using assms(4-7) nth_mem [of i hs] nth_mem [of j hs] by auto
  have d: "fb_current fb b h" "fb_current fb b' h'" "off = unat (ptr_offset h)" "off' = unat (ptr_offset h')"
    using assms(8,9) by (auto simp: fb_data_iff)
  then have "off + len \<le> n" "off' + len' \<le> n"
    using l m fb_wf_nth [OF l(1), of b] fb_wf_nth [OF l(1), of b'] by (fastforce simp: log_ok_def fb_current_def)+
  moreover have "b \<noteq> b' \<or> off + len \<le> off'"
    using l(2) sorted_wrt_nth_less [of _ hs i j] assms(4-7) d by (auto simp: log_ok_def)
  ultimately show ?thesis by blast
qed

theorem live_allocations_disjoint_witness:
  "\<exists>fb h h'. alloc_all [3, 2] (flip_buffer_init 8, []) = (fb, [(h, 3), (h', 2)]) \<and>
     fb_data h fb = Some (0, 0) \<and> fb_data h' fb = Some (0, 3) \<and> (0 :: nat) + 3 \<le> 3 \<and> (3 :: nat) + 2 \<le> 8"
proof -
  obtain fb h h' where a: "alloc_all [3, 2] (flip_buffer_init 8, []) = (fb, [(h, 3), (h', 2)])"
    and d: "fb_data h fb = Some (0, 0)" "fb_data h' fb = Some (0, 3)"
    by (simp add: fb_alloc_def flip_buffer_init_def fb_capacity_def fb_cur_def update_cur_def fb_data_def Let_def)
  show ?thesis
    using a d live_allocations_disjoint [OF a, of 0 1 h 3 h' 2 0 0 0 3] by auto
qed

lemma carved_data:
  assumes "carved len i fb fb' h" "fb_wf n fb" "i < 2"
  shows "0 < len \<Longrightarrow> fb_data h fb' = Some (i, buf_size (buffers fb ! i))"
    "fb_data h' fb = Some (b, off) \<Longrightarrow> fb_data h' fb' = Some (b, off)"
proof -
  have l: "i < length (buffers fb)" using assms(2,3) by (simp add: fb_wf_def)
  have sz: "buf_size (buffers fb' ! j) = buf_size (buffers fb ! j) + (if j = i then len else 0)" for j
    using assms(1) l by (auto simp: carved_def nth_list_update)
  have "fb_current fb i h" using assms(1,3) by (simp add: fb_current_def carved_def)
  then show "0 < len \<Longrightarrow> fb_data h fb' = Some (i, buf_size (buffers fb ! i))"
    by (simp add: fb_data_iff carved_current [OF assms(1) l] carved_offset [OF assms] sz)
  show "fb_data h' fb = Some (b, off) \<Longrightarrow> fb_data h' fb' = Some (b, off)"
    by (auto simp: fb_data_iff carved_current [OF assms(1) l] sz)
qed

lemma recycled_expired:
  assumes "fb_wf n fb" "fb_current fb (1 - cur_buf fb) h"
  shows "\<not> fb_current (recycled fb) j h"
proof
  assume c: "fb_current (recycled fb) j h"
  then have "j = 1 - cur_buf fb" using assms(2) buf_no_inj by (auto simp: fb_current_def)
  then show False using c assms(2) recycled_current [OF assms(1), of j h] by (auto simp: fb_current_def)
qed

lemma recycled_kept:
  assumes "fb_wf n fb" "fb_data h fb = Some (b, off)" "b \<noteq> 1 - cur_buf fb"
  shows "fb_data h (recycled fb) = Some (b, off)"
  using assms recycled_current [OF assms(1), of b h] recycled_simps(2) [OF assms(1)]
  by (auto simp: fb_data_iff nth_list_update)

lemma alloc_data:
  assumes "fb_wf n fb" "0 < len" "len \<le> n"
  shows "\<exists>fb' h b off. fb_alloc len fb = (fb', h) \<and> fb_wf n fb' \<and> fb_data h fb' = Some (b, off) \<and> b < 2 \<and>
     off = unat (ptr_offset h) \<and> off + len \<le> n"
proof -
  have ok: ?thesis if c: "fb_alloc len fb = (fb', h)" "fb_wf n fb'" "carved len i g fb' h" "fb_wf n g" "i < 2"
    for fb' h i g
  proof -
    have "fb_data h fb' = Some (i, buf_size (buffers g ! i))" using carved_data(1) [OF c(3,4,5) assms(2)] .
    moreover have "i < length (buffers g)" using c(4,5) by (simp add: fb_wf_def)
    then have "buf_size (buffers fb' ! i) = buf_size (buffers g ! i) + len" using c(3) by (simp add: carved_def)
    then have "buf_size (buffers g ! i) + len \<le> n" using fb_wf_nth [OF c(2,5)] by simp
    ultimately show ?thesis using c(1,2,5) by (auto simp: fb_data_iff)
  qed
  have c: "cur_buf fb < 2" "1 - cur_buf fb < 2" using assms(1) by (auto simp: fb_wf_def)
  show ?thesis
  proof (cases "buf_size (fb_cur fb) + len \<le> n")
    case True
    then show ?thesis using alloc_fits [OF assms(1) True] ok [OF _ _ _ assms(1) c(1)] by blast
  next
    case False
    then have "n < buf_size (fb_cur fb) + len" by simp
    from alloc_recycles [OF assms(1,3) this] show ?thesis
      using ok [OF _ _ _ recycled_simps(3) [OF assms(1)] c(2)] by blast
  qed
qed

text \<open>
  \<^bold>\<open>C25.\<close> \<open>alloc\<close> refuses a length above the capacity with the null handle. Otherwise the
  new handle resolves (for a positive length) to a range inside a buffer, and every handle that resolved before
  resolves to the same place, unless there was no room left in the current buffer: then the
  handles into the other buffer, the one being recycled, and only those, stop resolving.
\<close>

theorem alloc_correct:
  assumes "fb_wf n fb" "fb_alloc len fb = (fb', h)" "0 < len"
  shows "if n < len then h = 0 \<and> fb' = fb \<and> fb_data h fb' = None
     else fb_wf n fb' \<and> (\<exists>off. fb_data h fb' = Some (cur_buf fb', off) \<and> off + len \<le> n) \<and>
       (\<forall>h' b off. fb_data h' fb = Some (b, off) \<longrightarrow>
         fb_data h' fb' = (if n < buf_size (fb_cur fb) + len \<and> b = cur_buf fb' then None else Some (b, off)))"
proof -
  consider "n < len" | "buf_size (fb_cur fb) + len \<le> n" | "len \<le> n" "n < buf_size (fb_cur fb) + len" by linarith
  then show ?thesis
  proof cases
    case 1
    then show ?thesis using assms(2) alloc_refused [OF assms(1) 1] by (auto simp: fb_data_def)
  next
    case 2
    then have c: "fb_wf n fb'" "carved len (cur_buf fb) fb fb' h" "cur_buf fb < 2" "cur_buf fb' = cur_buf fb"
      using alloc_fits [OF assms(1) 2] assms by (auto simp: fb_wf_def carved_def)
    then show ?thesis using carved_data [OF c(2) assms(1) c(3)] 2 assms(3) by (auto simp: fb_cur_def)
  next
    case 3
    note r = recycled_simps [OF assms(1)]
    have c: "fb_wf n fb'" "carved len (1 - cur_buf fb) (recycled fb) fb' h" "1 - cur_buf fb < 2"
      "cur_buf fb' = 1 - cur_buf fb"
      using alloc_recycles [OF assms(1) 3] assms(2) by (auto simp: carved_def)
    note d = carved_data [OF c(2) r(3) c(3)]
    have "fb_data h' fb' = (if b = cur_buf fb' then None else Some (b, off))" if "fb_data h' fb = Some (b, off)" for h' b off
    proof (cases "b = cur_buf fb'")
      case True
      have "\<not> fb_current fb' j h'" for j
        using recycled_expired [OF assms(1), of h' j] carved_current [OF c(2), of j h'] r(3) c(3,4) that True
        by (auto simp: fb_data_iff fb_wf_def)
      then show ?thesis using True by (cases "fb_data h' fb'") (auto simp: fb_data_iff)
    qed (use d(2) recycled_kept [OF assms(1) that] c(4) in auto)
    then show ?thesis using 3 d(1) [OF assms(3)] c r(1,4) by (auto simp: fb_cur_def)
  qed
qed

theorem alloc_correct_witness:
  "\<exists>fb' h. fb_wf 8 (flip_buffer_init 8) \<and> fb_alloc 3 (flip_buffer_init 8) = (fb', h) \<and> (0 :: nat) < 3 \<and>
     (\<exists>off. fb_data h fb' = Some (cur_buf fb', off) \<and> off + 3 \<le> 8)"
proof -
  obtain fb' h where a: "fb_alloc 3 (flip_buffer_init 8) = (fb', h)" by fastforce
  then show ?thesis using alloc_correct [OF _ a, of 8] by auto
qed

end
