(* ===== verification/Page_Alloc.thy ===== *)
theory Page_Alloc
  imports Prelude
begin

text \<open>
  The page allocator of \<open>libraries/support/page_alloc.h\<close>: pages are taken from a stack of
  freed pages first and from a rising watermark otherwise; the stack lives in pages reserved
  at the start of the region. Addresses are 32-bit and written as integers with the
  wrap-around of \<open>uintptr_t\<close> made explicit. The contract towards the kernel's memory
  management is the locale \<open>page_source\<close>.
\<close>

unbundle bit_operations_syntax

subsection \<open>The interface of a page source\<close>

locale page_source =
  fixes inv :: "'p \<Rightarrow> bool"
    and pages :: "'p \<Rightarrow> int set"
    and used :: "'p \<Rightarrow> int set"
    and take_page :: "'p \<Rightarrow> ('p \<times> int) res"
    and give_page :: "int \<Rightarrow> 'p \<Rightarrow> 'p res"
  assumes finite_pages: "finite (pages p)"
    and used_pages: "inv p \<Longrightarrow> used p \<subseteq> pages p"
    and take_empty: "inv p \<Longrightarrow> used p = pages p \<Longrightarrow> take_page p = Inl Panic"
    and take_some: "inv p \<Longrightarrow> used p \<noteq> pages p \<Longrightarrow>
        \<exists>p' a. take_page p = Inr (p', a) \<and> inv p' \<and> pages p' = pages p \<and> a \<in> pages p - used p \<and>
          used p' = insert a (used p)"
    and give_used: "inv p \<Longrightarrow> a \<in> used p \<Longrightarrow>
        \<exists>p'. give_page a p = Inr p' \<and> inv p' \<and> pages p' = pages p \<and> used p' = used p - {a}"
begin

lemma take_step: "inv p \<Longrightarrow> take_page p = Inr (p', a) \<Longrightarrow>
    inv p' \<and> pages p' = pages p \<and> a \<in> pages p - used p \<and> used p' = insert a (used p)"
  using take_empty [of p] take_some [of p] by (cases "used p = pages p") auto

lemma finite_used: "inv p \<Longrightarrow> finite (used p)"
  using used_pages finite_pages by (rule finite_subset)

lemma take_card: "inv p \<Longrightarrow> take_page p = Inr (p', a) \<Longrightarrow> card (used p') = Suc (card (used p))"
  using take_step [of p p' a] finite_used [of p] by simp

lemma take_give: "inv p \<Longrightarrow> take_page p = Inr (p', a) \<Longrightarrow>
    \<exists>p''. give_page a p' = Inr p'' \<and> inv p'' \<and> used p'' = used p"
  using take_step [of p p' a] give_used [of p' a] by auto

lemma take_twice: "inv p \<Longrightarrow> take_page p = Inr (p1, a) \<Longrightarrow> take_page p1 = Inr (p2, b) \<Longrightarrow> a \<noteq> b"
  using take_step [of p p1 a] take_step [of p1 p2 b] by auto

end

subsection \<open>The class\<close>

record region =
  rstart :: int
  rend :: int

definition region_size :: "region \<Rightarrow> int" where
  "region_size r = u32 (rend r - rstart r)"

text \<open>
  The free stack is the array from \<open>_fs_start\<close> to \<open>_fs_end\<close>; \<open>fs_head\<close> is the index of
  \<open>_fs_head\<close> in it. \<open>virtual_offset\<close> only says where that array is mapped.
\<close>

record page_allocator =
  phys_region :: region
  phys_bookkeeping :: region
  pa_watermark :: int
  fs :: "int list"
  fs_head :: nat

definition page_aligned :: "int \<Rightarrow> bool" where
  "page_aligned a \<longleftrightarrow> a AND 0xFFF = 0"

definition page_allocator_init :: "region \<Rightarrow> page_allocator res" where
  "page_allocator_init r =
     assertR (page_aligned (rstart r)) (assertR (page_aligned (rend r))
      (let needed = u32 (u32 (rend r - rstart r) div 0x1000 * 4);
           pages = u32 (needed + 0x0FFF) div 0x1000;
           bk = \<lparr>rstart = rstart r, rend = u32 (rstart r + u32 (pages * 0x1000))\<rparr>
       in assertR (page_aligned (rstart bk)) (assertR (page_aligned (rend bk))
          (assertR (rend bk < rend r)
            (Inr \<lparr>phys_region = r, phys_bookkeeping = bk, pa_watermark = rend bk,
                  fs = replicate (nat (region_size bk div 4)) 0, fs_head = 0\<rparr>)))))"

definition alloc_page :: "page_allocator \<Rightarrow> (page_allocator \<times> int) res" where
  "alloc_page p =
     (if fs_head p \<noteq> 0
      then assertR (0 < fs_head p) (assertR (fs_head p < length (fs p))
            (Inr (p\<lparr>fs_head := fs_head p - 1\<rparr>, fs p ! (fs_head p - 1))))
      else assertR (pa_watermark p < rend (phys_region p))
            (Inr (p\<lparr>pa_watermark := u32 (pa_watermark p + 0x1000)\<rparr>, pa_watermark p)))"

definition alloc_page_zero ::
  "(int \<Rightarrow> byte) \<Rightarrow> page_allocator \<Rightarrow> ((int \<Rightarrow> byte) \<times> page_allocator \<times> int) res" where
  "alloc_page_zero mem p =
     bindR (alloc_page p) (\<lambda>(p', page).
     Inr (\<lambda>a. if page \<le> a \<and> a < page + 0x1000 then 0 else mem a, p', page))"

definition free_page :: "int \<Rightarrow> page_allocator \<Rightarrow> page_allocator res" where
  "free_page page p =
     assertR (page_aligned page)
      (if page = u32 (pa_watermark p - 0x1000)
       then assertR (rend (phys_bookkeeping p) < pa_watermark p)
             (Inr (p\<lparr>pa_watermark := u32 (pa_watermark p - 0x1000)\<rparr>))
       else assertR (fs_head p < length (fs p))
             (Inr (p\<lparr>fs := (fs p)[fs_head p := page], fs_head := fs_head p + 1\<rparr>)))"

definition free_pages :: "page_allocator \<Rightarrow> int" where
  "free_pages p = u32 (u32 (rend (phys_region p) - pa_watermark p) div 0x1000 + int (fs_head p))"

definition bookkeeping_phys_region :: "page_allocator \<Rightarrow> region" where
  "bookkeeping_phys_region p = phys_bookkeeping p"

subsection \<open>Pages\<close>

lemma page_aligned_mod: "page_aligned a \<longleftrightarrow> a mod 4096 = 0"
proof -
  have "(0xFFF :: int) = mask 12" by (simp add: mask_eq_exp_minus_1)
  then have "a AND 0xFFF = take_bit 12 a" by (simp only: take_bit_eq_mask)
  then show ?thesis by (simp add: page_aligned_def take_bit_eq_mod)
qed

definition page_range :: "int \<Rightarrow> int \<Rightarrow> int set" where
  "page_range lo hi = {a. lo \<le> a \<and> a < hi \<and> a mod 4096 = 0}"

lemma finite_page_range [simp]: "finite (page_range lo hi)"
  by (rule finite_subset [of _ "{lo..<hi}"]) (auto simp: page_range_def)

lemma mod_page_obtain:
  assumes "a mod 4096 = (0 :: int)"
  obtains k where "a = 4096 * k"
  using assms by (auto simp: mod_eq_0_iff_dvd elim: dvdE)

lemma page_range_image:
  assumes "lo mod 4096 = 0" "hi mod 4096 = 0"
  shows "page_range lo hi = (\<lambda>k. lo + 4096 * int k) ` {..<nat ((hi - lo) div 4096)}"
proof -
  obtain l where l: "lo = 4096 * l" using mod_page_obtain [OF assms(1)] .
  obtain h where h: "hi = 4096 * h" using mod_page_obtain [OF assms(2)] .
  have "hi - lo = 4096 * (h - l)" by (simp add: l h right_diff_distrib)
  then have n: "(hi - lo) div 4096 = h - l" by simp
  have "a \<in> (\<lambda>k. lo + 4096 * int k) ` {..<nat (h - l)}" if a: "a \<in> page_range lo hi" for a
  proof -
    have am: "a mod 4096 = 0" "lo \<le> a" "a < hi" using a by (auto simp: page_range_def)
    obtain x where x: "a = 4096 * x" using mod_page_obtain [OF am(1)] .
    then have "l \<le> x" "x < h" using am(2,3) unfolding l h by linarith+
    then have "a = lo + 4096 * int (nat (x - l))" "nat (x - l) < nat (h - l)"
      unfolding x l by linarith+
    then show ?thesis by blast
  qed
  moreover have "lo + 4096 * int k \<in> page_range lo hi" if "k < nat (h - l)" for k
  proof -
    have "lo + 4096 * int k = 4096 * (l + int k)" unfolding l by (rule distrib_left [symmetric])
    moreover have "l + int k < h" using that by linarith
    moreover have "lo \<le> 4096 * (l + int k)" unfolding l by simp
    ultimately show ?thesis by (simp add: page_range_def h)
  qed
  ultimately show ?thesis unfolding n by auto
qed

lemma card_page_range:
  assumes "lo mod 4096 = 0" "hi mod 4096 = 0"
  shows "card (page_range lo hi) = nat ((hi - lo) div 4096)"
  unfolding page_range_image [OF assms] by (subst card_image) (auto simp: inj_on_def)

lemma page_range_snoc:
  assumes "lo mod 4096 = 0" "hi mod 4096 = 0" "lo \<le> hi"
  shows "page_range lo (hi + 4096) = insert hi (page_range lo hi)"
proof -
  obtain h where h: "hi = 4096 * h" using mod_page_obtain [OF assms(2)] .
  have eq: "a = hi" if a: "a mod 4096 = 0" "\<not> a < hi" "a < hi + 4096" for a
  proof -
    obtain x where x: "a = 4096 * x" using mod_page_obtain [OF a(1)] .
    have "h \<le> x" "x < h + 1" using a(2,3) unfolding x h by linarith+
    then show ?thesis by (simp add: x h)
  qed
  have "a \<in> page_range lo (hi + 4096) \<longleftrightarrow> a = hi \<or> a \<in> page_range lo hi" for a
    using eq [of a] assms by (cases "a < hi") (auto simp: page_range_def)
  then show ?thesis by blast
qed

subsection \<open>Invariant and abstraction\<close>

definition pa_pages :: "page_allocator \<Rightarrow> int set" where
  "pa_pages p = page_range (rend (phys_bookkeeping p)) (rend (phys_region p))"

definition free_stack :: "page_allocator \<Rightarrow> int list" where
  "free_stack p = take (fs_head p) (fs p)"

definition pa_used :: "page_allocator \<Rightarrow> int set" where
  "pa_used p = page_range (rend (phys_bookkeeping p)) (pa_watermark p) - set (free_stack p)"

definition pa_inv :: "page_allocator \<Rightarrow> bool" where
  "pa_inv p \<longleftrightarrow>
     0 \<le> rend (phys_bookkeeping p) \<and> rend (phys_bookkeeping p) mod 4096 = 0 \<and>
     rend (phys_bookkeeping p) \<le> pa_watermark p \<and> pa_watermark p mod 4096 = 0 \<and>
     pa_watermark p \<le> rend (phys_region p) \<and> rend (phys_region p) mod 4096 = 0 \<and>
     rend (phys_region p) < 4294967296 \<and>
     fs_head p \<le> length (fs p) \<and> distinct (free_stack p) \<and>
     set (free_stack p) \<subseteq> page_range (rend (phys_bookkeeping p)) (pa_watermark p) \<and>
     card (pa_pages p) < length (fs p)"

lemma page_range_mono: "hi \<le> hi' \<Longrightarrow> page_range lo hi \<subseteq> page_range lo hi'"
  by (auto simp: page_range_def)

lemma free_stack_pages: "pa_inv p \<Longrightarrow> set (free_stack p) \<subseteq> pa_pages p"
  unfolding pa_inv_def pa_pages_def using page_range_mono by blast

lemma free_stack_room:
  assumes "pa_inv p"
  shows "fs_head p < length (fs p)"
proof -
  have "fs_head p = card (set (free_stack p))"
    using assms by (simp add: pa_inv_def free_stack_def distinct_card)
  also have "\<dots> \<le> card (pa_pages p)"
    using free_stack_pages [OF assms] by (intro card_mono) (auto simp: pa_pages_def)
  finally show ?thesis using assms by (simp add: pa_inv_def)
qed

lemma pa_used_pages: "pa_inv p \<Longrightarrow> pa_used p \<subseteq> pa_pages p"
  unfolding pa_inv_def pa_used_def pa_pages_def using page_range_mono by blast

lemma watermark_step:
  assumes "a mod 4096 = 0" "b mod 4096 = 0" "a < (b :: int)"
  shows "a + 4096 \<le> b"
proof -
  obtain x y where "a = 4096 * x" "b = 4096 * y" using mod_page_obtain assms(1,2) by metis
  then show ?thesis using assms(3) by simp
qed

lemma alloc_page_stack:
  assumes "pa_inv p" "fs_head p \<noteq> 0"
  shows "\<exists>p' a. alloc_page p = Inr (p', a) \<and> pa_inv p' \<and> pa_pages p' = pa_pages p \<and>
     a \<in> pa_pages p - pa_used p \<and> pa_used p' = insert a (pa_used p)"
proof -
  obtain n where n: "fs_head p = Suc n" using assms(2) by (cases "fs_head p") auto
  let ?a = "fs p ! n" and ?p = "p\<lparr>fs_head := n\<rparr>"
  have lt: "n < length (fs p)" using free_stack_room [OF assms(1)] n by simp
  have st: "free_stack p = free_stack ?p @ [?a]"
    using lt by (simp add: free_stack_def n take_Suc_conv_app_nth)
  have a: "alloc_page p = Inr (?p, ?a)"
    using free_stack_room [OF assms(1)] by (simp add: alloc_page_def n)
  have i: "pa_inv ?p" using assms(1) st by (auto simp: pa_inv_def pa_pages_def n)
  have "?a \<in> set (free_stack p)" "?a \<notin> set (free_stack ?p)"
    using st assms(1) by (auto simp: pa_inv_def)
  moreover have "?a \<in> page_range (rend (phys_bookkeeping p)) (pa_watermark p)"
    using assms(1) st by (auto simp: pa_inv_def)
  ultimately have "pa_used ?p = insert ?a (pa_used p)" "?a \<in> pa_pages p - pa_used p"
    using st free_stack_pages [OF assms(1)] by (auto simp: pa_used_def)
  then show ?thesis using a i by (auto simp: pa_pages_def)
qed

lemma alloc_page_watermark:
  assumes "pa_inv p" "fs_head p = 0" "pa_watermark p < rend (phys_region p)"
  shows "\<exists>p' a. alloc_page p = Inr (p', a) \<and> pa_inv p' \<and> pa_pages p' = pa_pages p \<and>
     a \<in> pa_pages p - pa_used p \<and> pa_used p' = insert a (pa_used p)"
proof -
  let ?w = "pa_watermark p" and ?lo = "rend (phys_bookkeeping p)"
  have b: "?lo mod 4096 = 0" "?w mod 4096 = 0" "?lo \<le> ?w" "0 \<le> ?lo" "rend (phys_region p) < 4294967296"
    using assms(1) by (auto simp: pa_inv_def)
  have le: "?w + 4096 \<le> rend (phys_region p)"
    using assms(1,3) by (intro watermark_step) (auto simp: pa_inv_def)
  let ?p = "p\<lparr>pa_watermark := ?w + 4096\<rparr>"
  have a: "alloc_page p = Inr (?p, ?w)"
    using assms(2,3) b le by (simp add: alloc_page_def u32_id)
  have r: "page_range ?lo (?w + 4096) = insert ?w (page_range ?lo ?w)"
    by (rule page_range_snoc) (use b in auto)
  have st: "free_stack p = []" "free_stack ?p = []" using assms(2) by (auto simp: free_stack_def)
  have "(?w + 4096) mod 4096 = 0" using b(2) by simp
  then have i: "pa_inv ?p" using assms(1) le st by (auto simp: pa_inv_def pa_pages_def)
  have "?w \<in> pa_pages p" "?w \<notin> pa_used p" using b assms(3) by (auto simp: pa_pages_def pa_used_def page_range_def)
  then show ?thesis using a i r st by (auto simp: pa_used_def pa_pages_def)
qed

lemma alloc_page_total:
  assumes "pa_inv p" "pa_used p \<noteq> pa_pages p"
  shows "\<exists>p' a. alloc_page p = Inr (p', a) \<and> pa_inv p' \<and> pa_pages p' = pa_pages p \<and>
     a \<in> pa_pages p - pa_used p \<and> pa_used p' = insert a (pa_used p)"
proof (cases "fs_head p = 0")
  case True
  then have "pa_watermark p \<noteq> rend (phys_region p)"
    using assms(2) by (auto simp: pa_used_def pa_pages_def free_stack_def)
  then have "pa_watermark p < rend (phys_region p)" using assms(1) by (simp add: pa_inv_def)
  then show ?thesis by (rule alloc_page_watermark [OF assms(1) True])
qed (rule alloc_page_stack [OF assms(1)])

lemma alloc_page_exhausted:
  assumes "pa_inv p" "pa_used p = pa_pages p"
  shows "alloc_page p = Inl Panic"
proof (cases "fs_head p = 0")
  case True
  have "\<not> pa_watermark p < rend (phys_region p)"
    using alloc_page_watermark [OF assms(1) True] assms(2) by auto
  then show ?thesis using True by (simp add: alloc_page_def)
qed (use alloc_page_stack [OF assms(1)] assms(2) in auto)

lemma free_page_used:
  assumes "pa_inv p" "a \<in> pa_used p"
  shows "\<exists>p'. free_page a p = Inr p' \<and> pa_inv p' \<and> pa_pages p' = pa_pages p \<and> pa_used p' = pa_used p - {a}"
proof (cases "a = pa_watermark p - 4096")
  case True
  let ?w = "pa_watermark p" and ?lo = "rend (phys_bookkeeping p)"
  let ?p = "p\<lparr>pa_watermark := ?w - 4096\<rparr>"
  have b: "?lo mod 4096 = 0" "?lo \<le> a" "0 \<le> ?lo" "a mod 4096 = 0" "?w \<le> rend (phys_region p)"
    "rend (phys_region p) < 4294967296" "a \<notin> set (free_stack p)"
    using assms by (auto simp: pa_inv_def pa_used_def page_range_def)
  have u: "u32 (?w - 4096) = a" using True b by (simp add: u32_id)
  have f: "free_page a p = Inr ?p"
    using True b u by (simp add: free_page_def page_aligned_mod)
  have r: "page_range ?lo ?w = insert a (page_range ?lo a)"
    using page_range_snoc [OF b(1,4,2)] True by simp
  have st: "free_stack ?p = free_stack p" by (simp add: free_stack_def)
  have "set (free_stack p) \<subseteq> page_range ?lo a"
    using assms(1) b(7) r by (auto simp: pa_inv_def)
  then have i: "pa_inv ?p" using assms(1) b True st by (auto simp: pa_inv_def pa_pages_def)
  have "a \<notin> page_range ?lo a" by (simp add: page_range_def)
  then have "pa_used ?p = pa_used p - {a}" using r st True b(7) by (auto simp: pa_used_def)
  then show ?thesis using f i by (auto simp: pa_pages_def)
next
  case False
  let ?lo = "rend (phys_bookkeeping p)"
  let ?p = "p\<lparr>fs := (fs p)[fs_head p := a], fs_head := fs_head p + 1\<rparr>"
  have b: "a \<in> page_range ?lo (pa_watermark p)" "a \<notin> set (free_stack p)" "a mod 4096 = 0"
    using assms(2) by (auto simp: pa_used_def page_range_def)
  have room: "fs_head p < length (fs p)" by (rule free_stack_room [OF assms(1)])
  have w: "u32 (pa_watermark p - 4096) \<noteq> a"
  proof -
    have "?lo < pa_watermark p" "pa_watermark p < 4294967296" "0 \<le> ?lo" "?lo mod 4096 = 0" "pa_watermark p mod 4096 = 0"
      using b(1) assms(1) by (auto simp: page_range_def pa_inv_def)
    then have "0 \<le> pa_watermark p - 4096" "pa_watermark p - 4096 < 4294967296"
      using watermark_step [of ?lo "pa_watermark p"] by auto
    then show ?thesis using False by (simp add: u32_id)
  qed
  have f: "free_page a p = Inr ?p" using w b(3) room by (auto simp: free_page_def page_aligned_mod)
  have st: "free_stack ?p = free_stack p @ [a]"
    using room by (simp add: free_stack_def take_Suc_conv_app_nth)
  have i: "pa_inv ?p" using assms(1) b st room by (auto simp: pa_inv_def pa_pages_def)
  then show ?thesis using f st by (auto simp: pa_pages_def pa_used_def)
qed

lemma pa_finite: "finite (pa_pages p)"
  by (simp add: pa_pages_def)

interpretation pg: page_source pa_inv pa_pages pa_used alloc_page free_page
  by unfold_locales
    (rule pa_finite pa_used_pages alloc_page_exhausted alloc_page_total free_page_used; assumption?)+

subsection \<open>Construction and the free count\<close>

lemma bookkeeping_pages:
  fixes n :: int
  assumes "1 \<le> n"
  shows "(4 * n + 4095) div 4096 \<le> n" "1 \<le> (4 * n + 4095) div 4096" "n \<le> (4 * n + 4095) div 4096 * 1024"
    "(4 * n + 4095) div 4096 < n \<longleftrightarrow> 2 \<le> n"
proof -
  let ?k = "(4 * n + 4095) div 4096"
  have "4 * n + 4095 = 4096 * ?k + (4 * n + 4095) mod 4096" by simp
  moreover have "0 \<le> (4 * n + 4095) mod 4096" "(4 * n + 4095) mod 4096 < 4096" by simp_all
  ultimately have k: "4096 * ?k \<le> 4 * n + 4095" "4 * n \<le> 4096 * ?k" by linarith+
  show "1 \<le> ?k" "?k \<le> n" "n \<le> ?k * 1024" "?k < n \<longleftrightarrow> 2 \<le> n" using k assms by linarith+
qed

lemma page_allocator_init_cases:
  assumes "page_aligned (rstart r)" "page_aligned (rend r)" "0 \<le> rstart r" "rstart r \<le> rend r"
    "rend r < 4294967296"
  shows "if region_size r < 0x2000 then page_allocator_init r = Inl Panic
     else \<exists>p. page_allocator_init r = Inr p \<and> pa_inv p \<and> pa_used p = {} \<and>
       phys_region p = r \<and> rstart (phys_bookkeeping p) = rstart r \<and> rstart r < rend (phys_bookkeeping p) \<and>
       rend (phys_bookkeeping p) < rend r"
proof -
  obtain x where x: "rstart r = 4096 * x" using mod_page_obtain [OF assms(1) [unfolded page_aligned_mod]] .
  obtain y where y: "rend r = 4096 * y" using mod_page_obtain [OF assms(2) [unfolded page_aligned_mod]] .
  define n where "n = y - x"
  have n: "0 \<le> n" "n < 1048576" "0 \<le> x" using assms(3-5) x y by (auto simp: n_def)
  have e: "u32 (rend r - rstart r) = 4096 * n" using n x y by (subst u32_id) (auto simp: n_def)
  define k where "k = (4 * n + 4095) div 4096"
  define bk where "bk = \<lparr>rstart = rstart r, rend = 4096 * (x + k)\<rparr>"
  have sz: "region_size r < 0x2000 \<longleftrightarrow> n < 2" using e by (simp add: region_size_def)
  have kb: "0 \<le> k" "k \<le> n" "n \<le> k * 1024" "k < n \<longleftrightarrow> 2 \<le> n"
    using bookkeeping_pages [of n] n(1) unfolding k_def by (cases "n = 0"; auto)+
  have "4096 * (x + k) < 4294967296" using kb(2) assms(5) y by (simp add: n_def)
  then have "u32 (rstart r + u32 (k * 0x1000)) = 4096 * (x + k)"
    using n kb by (simp add: x u32_id algebra_simps)
  moreover have "u32 (u32 (rend r - rstart r) div 0x1000 * 4) = 4 * n" "u32 (4 * n + 0x0FFF) div 0x1000 = k"
    unfolding e k_def using n by (simp_all add: u32_id)
  ultimately have u: "u32 (u32 (rend r - rstart r) div 0x1000 * 4) = 4 * n" "u32 (4 * n + 0x0FFF) div 0x1000 = k"
    "u32 (rstart r + u32 (k * 0x1000)) = 4096 * (x + k)" by blast+
  have al: "page_aligned (4096 * (x + k))" by (simp add: page_aligned_mod)
  have lt: "4096 * (x + k) < rend r \<longleftrightarrow> k < n" by (auto simp: y n_def)
  have f: "page_allocator_init r = assertR (k < n)
      (Inr \<lparr>phys_region = r, phys_bookkeeping = bk, pa_watermark = rend bk,
            fs = replicate (nat (region_size bk div 4)) 0, fs_head = 0\<rparr>)"
    using assms(1,2) al lt unfolding page_allocator_init_def u Let_def
    by (simp add: bk_def)
  let ?p = "\<lparr>phys_region = r, phys_bookkeeping = bk, pa_watermark = rend bk,
            fs = replicate (nat (region_size bk div 4)) 0, fs_head = 0\<rparr>"
  have "pa_inv ?p \<and> pa_used ?p = {}" if "k < n"
  proof -
    have "region_size bk div 4 = k * 1024"
      using kb n that by (simp add: region_size_def bk_def x u32_id)
    moreover have "card (page_range (rend bk) (rend r)) = nat (n - k)"
      using that by (subst card_page_range) (simp_all add: bk_def y n_def flip: right_diff_distrib)
    moreover have "n - k < k * 1024" "0 < k" using kb that n(1) by linarith+
    ultimately have c: "card (pa_pages ?p) < length (fs ?p)" by (simp add: pa_pages_def)
    then have "pa_inv ?p" unfolding pa_inv_def
      using n kb that assms(5) by (simp add: free_stack_def bk_def y n_def pa_pages_def)
    then show ?thesis by (simp add: pa_used_def page_range_def free_stack_def)
  qed
  then show ?thesis using kb f sz by (auto simp: bk_def x y n_def)
qed

lemma free_pages_count:
  assumes "pa_inv p"
  shows "free_pages p = int (card (pa_pages p - pa_used p))"
proof -
  let ?w = "pa_watermark p" and ?lo = "rend (phys_bookkeeping p)" and ?hi = "rend (phys_region p)"
  have b: "?lo mod 4096 = 0" "?w mod 4096 = 0" "?hi mod 4096 = 0" "0 \<le> ?lo" "?lo \<le> ?w" "?w \<le> ?hi" "?hi < 4294967296"
    "set (free_stack p) \<subseteq> page_range ?lo ?w" "card (set (free_stack p)) = fs_head p"
    using assms by (auto simp: pa_inv_def distinct_card free_stack_def)
  have "pa_pages p - pa_used p = page_range ?w ?hi \<union> set (free_stack p)"
    using b by (auto simp: pa_pages_def pa_used_def page_range_def)
  moreover have "page_range ?w ?hi \<inter> set (free_stack p) = {}" using b(8) by (auto simp: page_range_def)
  ultimately have c: "int (card (pa_pages p - pa_used p)) = (?hi - ?w) div 4096 + int (fs_head p)"
    using b by (simp add: card_Un_disjoint card_page_range)
  have "card (pa_pages p - pa_used p) \<le> card (pa_pages p)" by (intro card_mono) (auto simp: pa_pages_def)
  also have "\<dots> = nat ((?hi - ?lo) div 4096)" using b by (simp add: pa_pages_def card_page_range)
  finally have "int (card (pa_pages p - pa_used p)) \<le> (?hi - ?lo) div 4096" using b by simp
  also have "\<dots> < 4294967296" using b by linarith
  finally show ?thesis using c b by (simp add: free_pages_def u32_id)
qed

subsection \<open>Properties\<close>

text \<open>
  \<^bold>\<open>C23.\<close> The page allocator hands out each page at most once: \<open>alloc_page\<close> panics exactly
  when every page is in use and otherwise returns a page-aligned address inside the region that
  is not in use and marks it used; \<open>free_page\<close> of a used page succeeds and makes exactly that page
  available again. The free stack never overflows.
\<close>

theorem page_allocator_correct:
  assumes "pa_inv p"
  shows "(if pa_used p = pa_pages p then alloc_page p = Inl Panic
      else \<exists>p' a. alloc_page p = Inr (p', a) \<and> pa_inv p' \<and> pa_pages p' = pa_pages p \<and> page_aligned a \<and>
        a \<in> pa_pages p - pa_used p \<and> pa_used p' = insert a (pa_used p)) \<and>
     (\<forall>a \<in> pa_used p. \<exists>p'. free_page a p = Inr p' \<and> pa_inv p' \<and> pa_pages p' = pa_pages p \<and>
        pa_used p' = pa_used p - {a})"
proof -
  have "page_aligned a" if "a \<in> pa_pages p - pa_used p" for a
    using that by (auto simp: pa_pages_def page_range_def page_aligned_mod)
  then show ?thesis
    using pg.take_empty [OF assms] pg.take_some [OF assms] pg.give_used [OF assms] by metis
qed

theorem page_allocator_correct_witness:
  "\<exists>p. page_allocator_init \<lparr>rstart = 0x100000, rend = 0x104000\<rparr> = Inr p \<and> pa_inv p \<and> pa_used p \<noteq> pa_pages p \<and>
     (\<exists>p' a. alloc_page p = Inr (p', a) \<and> pa_inv p' \<and> pa_used p' = {a})"
proof -
  obtain p where p: "page_allocator_init \<lparr>rstart = 0x100000, rend = 0x104000\<rparr> = Inr p" "pa_inv p" "pa_used p = {}"
      "phys_region p = \<lparr>rstart = 0x100000, rend = 0x104000\<rparr>" "rend (phys_bookkeeping p) < 0x104000"
    using page_allocator_init_cases [of "\<lparr>rstart = 0x100000, rend = 0x104000\<rparr>"]
    by (auto simp: page_aligned_mod region_size_def u32_def)
  have "0x103000 \<in> pa_pages p"
    using p(2,4,5) watermark_step [of "rend (phys_bookkeeping p)" "0x104000"]
    by (auto simp: pa_pages_def page_range_def pa_inv_def)
  then have "pa_used p \<noteq> pa_pages p" using p(3) by auto
  then show ?thesis using p(1-3) page_allocator_correct [of p] by auto
qed



end
