(* ===== verification/Frag_Buffer.thy ===== *)
theory Frag_Buffer
  imports Pool
begin

text \<open>
  The reassembly buffer of \<open>libraries/support/frag_buffer.h\<close>: a byte array together with a
  pool of holes, the intervals no fragment has filled yet. Inserting a fragment cuts it out
  of every hole it overlaps. The development shows that the holes are exactly the positions
  not covered, and that a message comes out whole from consistent fragments in any order.

  Positions are C++ \<open>int\<close>s. The sums the code forms stay within \<open>int\<close> for the callers'
  16-bit offsets and lengths.
\<close>

record hole =
  hstart :: int
  hend :: int

record frag_buffer =
  fdata :: "byte list"
  holes :: "hole pool"

definition overlaps :: "hole \<Rightarrow> hole \<Rightarrow> bool" where
  "overlaps h other \<longleftrightarrow> hstart other < hend h \<and> hstart h < hend other"

definition frag_reset :: "frag_buffer \<Rightarrow> frag_buffer res" where
  "frag_reset fb =
     bindR (emplace_anywhere \<lparr>hstart = 0, hend = INT_MAX\<rparr> (clear (holes fb))) (\<lambda>(hs, _).
     Inr (fb\<lparr>holes := hs\<rparr>))"

definition frag_buffer_init :: "nat \<Rightarrow> frag_buffer res" where
  "frag_buffer_init max_length =
     frag_reset \<lparr>fdata = replicate max_length 0, holes = fixed_pool (max_length div 40)\<rparr>"

text \<open>The body of the loop of \<open>insert\<close> for an overlapping hole: erase it, keep the leftovers.\<close>

definition cut_hole :: "hole \<Rightarrow> nat \<Rightarrow> hole \<Rightarrow> hole pool \<Rightarrow> hole pool res" where
  "cut_hole addition i existing p =
     (let leftover_left = max (hstart addition - hstart existing) 0;
          leftover_right = max (hend existing - hend addition) 0
      in bindR (erase i p) (\<lambda>p1.
         bindR (if 0 < leftover_left
                then bindR (emplace_anywhere \<lparr>hstart = hstart existing,
                       hend = hstart existing + leftover_left\<rparr> p1) (\<lambda>(p2, _). Inr p2)
                else Inr p1) (\<lambda>p2.
         if 0 < leftover_right
         then bindR (emplace_anywhere \<lparr>hstart = hend existing - leftover_right,
                hend = hend existing\<rparr> p2) (\<lambda>(p3, _). Inr p3)
         else Inr p2)))"

lemma length_write_node: "write_node i f p = Inr p' \<Longrightarrow> length (pdata p') = length (pdata p)"
  by (auto simp: write_node_def split: if_splits)

lemma length_prepend: "prepend_to_free_list i p = Inr p' \<Longrightarrow> length (pdata p') = length (pdata p)"
  by (auto simp: prepend_to_free_list_def Let_def dest!: length_write_node split: if_splits)

lemma length_erase: "erase i p = Inr p' \<Longrightarrow> length (pdata p') = length (pdata p)"
  by (auto simp: erase_def dest!: length_prepend split: if_splits)

lemma length_increase_loop: "increase_loop n p = Inr p' \<Longrightarrow> length (pdata p') = length (pdata p)"
  by (induction n p arbitrary: p' rule: increase_loop.induct)
    (auto dest!: length_write_node length_prepend)

lemma length_unlink: "unlink i p = Inr p' \<Longrightarrow> length (pdata p') = length (pdata p)"
  by (auto simp: unlink_def Let_def dest!: length_write_node split: if_splits)

lemma length_emplace: "emplace i x p = Inr p' \<Longrightarrow> length (pdata p') = length (pdata p)"
  by (auto simp: emplace_def increase_size_def
      dest!: length_write_node length_unlink length_increase_loop split: if_splits)

lemma length_emplace_anywhere: "emplace_anywhere x p = Inr (p', i) \<Longrightarrow> length (pdata p') = length (pdata p)"
  by (auto simp: emplace_anywhere_def Let_def dest!: length_emplace split: if_splits)

lemma length_cut_hole: "cut_hole a i h p = Inr p' \<Longrightarrow> length (pdata p') = length (pdata p)"
  by (auto simp: cut_hole_def Let_def dest!: length_erase length_emplace_anywhere split: if_splits)

text \<open>
  The loop of \<open>insert\<close>. The watermark can rise while it runs; \<open>valid\<close> reads the node at
  the index, so an index outside the array is a fault, and the loop ends.
\<close>

function insert_loop :: "hole \<Rightarrow> nat \<Rightarrow> bool \<Rightarrow> hole pool \<Rightarrow> (hole pool \<times> bool) res" where
  "insert_loop addition i removed p =
     (if watermark p \<le> i then Inr (p, removed)
      else if length (pdata p) \<le> i then Inl OutOfBounds
      else if \<not> valid i p then insert_loop addition (Suc i) removed p
      else (case get p i of
              Inl e \<Rightarrow> Inl e
            | Inr existing \<Rightarrow>
                if overlaps addition existing
                then (case cut_hole addition i existing p of
                        Inl e \<Rightarrow> Inl e
                      | Inr p' \<Rightarrow> insert_loop addition (Suc i) True p')
                else insert_loop addition (Suc i) removed p))"
  by pat_completeness auto
termination
  by (relation "measure (\<lambda>(a, i, r, p). length (pdata p) - i)") (auto dest: length_cut_hole)

declare insert_loop.simps [simp del]

definition memcpy_at :: "int \<Rightarrow> byte list \<Rightarrow> byte list \<Rightarrow> byte list res" where
  "memcpy_at pos src dst =
     (if 0 \<le> pos \<and> pos + int (length src) \<le> int (length dst)
      then Inr (take (nat pos) dst @ src @ drop (nat pos + length src) dst)
      else Inl OutOfBounds)"

definition frag_insert :: "int \<Rightarrow> byte list \<Rightarrow> frag_buffer \<Rightarrow> frag_buffer res" where
  "frag_insert start_pos src fb =
     (let end_pos = min (start_pos + int (length src)) (int (length (fdata fb)));
          addition = \<lparr>hstart = start_pos, hend = end_pos\<rparr>
      in bindR (insert_loop addition 0 False (holes fb)) (\<lambda>(hs, removed_holes).
         if removed_holes
         then bindR (memcpy_at start_pos src (fdata fb)) (\<lambda>d. Inr (fb\<lparr>fdata := d, holes := hs\<rparr>))
         else Inr (fb\<lparr>holes := hs\<rparr>)))"

definition continuous_size :: "frag_buffer \<Rightarrow> int res" where
  "continuous_size fb =
     (if pcount (holes fb) \<noteq> 1 then Inr 0
      else if pool_begin (holes fb) = watermark (holes fb) then Inl Panic
      else bindR (get (holes fb) (pool_begin (holes fb))) (\<lambda>h. Inr (hstart h)))"

subsection \<open>Holes as sets of positions\<close>

definition hole_set :: "hole \<Rightarrow> int set" where
  "hole_set h = {hstart h..<hend h}"

definition missing :: "hole pool \<Rightarrow> int set" where
  "missing p = (\<Union>h \<in> ran (at p). hole_set h)"

definition apart :: "hole \<Rightarrow> hole \<Rightarrow> bool" where
  "apart h k \<longleftrightarrow> hend h < hstart k \<or> hend k < hstart h"

definition holes_ok :: "hole pool \<Rightarrow> bool" where
  "holes_ok p \<longleftrightarrow> pool_inv p \<and> (\<forall>h \<in> ran (at p). hstart h < hend h) \<and>
     (\<forall>i j h k. at p i = Some h \<longrightarrow> at p j = Some k \<longrightarrow> i \<noteq> j \<longrightarrow> apart h k)"

text \<open>One more hole is needed when a hole sticks out on both sides of the addition.\<close>

definition straddles :: "hole \<Rightarrow> hole \<Rightarrow> bool" where
  "straddles a h \<longleftrightarrow> hstart h < hstart a \<and> hend a < hend h"

definition hole_budget :: "hole \<Rightarrow> hole pool \<Rightarrow> nat" where
  "hole_budget a p = pcount p + (if \<exists>h \<in> ran (at p). straddles a h then 1 else 0)"

lemma missing_alt: "missing p = {x. \<exists>i h. at p i = Some h \<and> x \<in> hole_set h}"
  by (auto simp: missing_def ran_def)

lemma add_hole:
  assumes "holes_ok p" "pcount p < capacity p" "hstart x < hend x" "\<And>h. h \<in> ran (at p) \<Longrightarrow> apart h x"
  shows "\<exists>p' j. emplace_anywhere x p = Inr (p', j) \<and> holes_ok p' \<and> capacity p' = capacity p \<and>
     pcount p' = Suc (pcount p) \<and> missing p' = missing p \<union> hole_set x \<and> ran (at p') = insert x (ran (at p)) \<and>
     (\<forall>i k. at p' i = Some k \<longrightarrow> k = x \<or> at p i = Some k)"
proof -
  have p: "pool_inv p" using assms(1) by (simp add: holes_ok_def)
  have "card (dom (at p)) < capacity p" using assms(2) p by (simp add: pcount_at)
  then obtain p' j where e: "emplace_anywhere x p = Inr (p', j)"
    using pl.alloc_total [OF p] by fastforce
  note s = pl.alloc_step [OF p e]
  then have j: "at p j = None" by simp
  have r: "ran (at p') = insert x (ran (at p))" using s j by (simp add: ran_map_upd)
  have "pcount p' = Suc (pcount p)" using pl.alloc_card [OF p e] s p by (simp add: pcount_at)
  moreover have "apart h k" if "at p' a = Some h" "at p' b = Some k" "a \<noteq> b" for a b h k
    using that s assms(1,4) by (auto simp: holes_ok_def apart_def ran_def split: if_splits)
  ultimately show ?thesis using e s r assms(1,3) by (auto simp: holes_ok_def missing_def)
qed

lemma drop_hole:
  assumes "holes_ok p" "at p i = Some h"
  shows "\<exists>p'. erase i p = Inr p' \<and> holes_ok p' \<and> capacity p' = capacity p \<and> Suc (pcount p') = pcount p \<and>
     missing p' = missing p - hole_set h \<and> ran (at p') = ran (at p) - {h} \<and> at p' = (at p)(i := None)"
proof -
  have p: "pool_inv p" using assms(1) by (simp add: holes_ok_def)
  obtain p' where e: "erase i p = Inr p'" using pl.release_total [OF p, of i] assms(2) by auto
  note s = pl.release_step [OF p e]
  have c: "Suc (pcount p') = pcount p" using pl.release_card [OF p e] s p by (simp add: pcount_at)
  have ap: "apart h k \<and> h \<noteq> k \<and> hole_set h \<inter> hole_set k = {}" if "at p j = Some k" "j \<noteq> i" for j k
  proof -
    have "hstart h < hend h" "hstart k < hend k" "apart h k"
      using assms that by (auto simp: holes_ok_def ran_def)
    then show ?thesis by (auto simp: apart_def hole_set_def)
  qed
  have "a \<noteq> i" if "at p a = Some k" "k \<noteq> h" for a k using that assms(2) by auto
  then have r: "ran (at p') = ran (at p) - {h}"
    using s ap unfolding ran_def by (auto split: if_splits)
  have "hole_set h \<inter> hole_set k = {}" if "k \<in> ran (at p)" "k \<noteq> h" for k
    using that ap assms(2) unfolding ran_def by force
  then have "missing p' = missing p - hole_set h" unfolding missing_def r by blast
  then show ?thesis using e c r s assms(1) by (auto simp: holes_ok_def split: if_splits)
qed

text \<open>The same, when the hole is wanted only under a condition.\<close>

definition keep_leftover :: "bool \<Rightarrow> hole \<Rightarrow> hole pool \<Rightarrow> hole pool res" where
  "keep_leftover c x p = (if c then bindR (emplace_anywhere x p) (\<lambda>(p', _). Inr p') else Inr p)"

definition leftover_kept :: "bool \<Rightarrow> hole \<Rightarrow> hole pool \<Rightarrow> hole pool \<Rightarrow> bool" where
  "leftover_kept c x p p' \<longleftrightarrow> holes_ok p' \<and> capacity p' = capacity p \<and> pcount p' = pcount p + of_bool c \<and>
     missing p' = missing p \<union> (if c then hole_set x else {}) \<and>
     ran (at p') = ran (at p) \<union> (if c then {x} else {}) \<and>
     (\<forall>i k. at p' i = Some k \<longrightarrow> (c \<and> k = x) \<or> at p i = Some k)"

lemma keep_leftover_ok:
  assumes "holes_ok p" "c \<Longrightarrow> pcount p < capacity p" "c \<Longrightarrow> hstart x < hend x"
    "\<And>h. c \<Longrightarrow> h \<in> ran (at p) \<Longrightarrow> apart h x"
  shows "\<exists>p'. keep_leftover c x p = Inr p' \<and> leftover_kept c x p p'"
proof (cases c)
  case True
  from add_hole [OF assms(1) assms(2,3) [OF True]] assms(4) [OF True]
  obtain p' j where "emplace_anywhere x p = Inr (p', j)" "holes_ok p'" "capacity p' = capacity p"
    "pcount p' = Suc (pcount p)" "missing p' = missing p \<union> hole_set x" "ran (at p') = insert x (ran (at p))"
    "\<forall>i k. at p' i = Some k \<longrightarrow> k = x \<or> at p i = Some k" by blast
  then show ?thesis using True by (auto simp: keep_leftover_def leftover_kept_def)
qed (use assms(1) in \<open>auto simp: keep_leftover_def leftover_kept_def\<close>)

lemma holes_ok_apart: "holes_ok p \<Longrightarrow> at p i = Some h \<Longrightarrow> k \<in> ran (at p) - {h} \<Longrightarrow> apart k h \<and> hstart k < hend k"
  unfolding holes_ok_def ran_def by fastforce

definition left_of :: "hole \<Rightarrow> hole \<Rightarrow> hole" where
  "left_of a h = \<lparr>hstart = hstart h, hend = hstart a\<rparr>"

definition right_of :: "hole \<Rightarrow> hole \<Rightarrow> hole" where
  "right_of a h = \<lparr>hstart = hend a, hend = hend h\<rparr>"

lemma cut_hole_alt:
  "cut_hole a i h p =
     bindR (erase i p) (\<lambda>p1.
     bindR (keep_leftover (hstart h < hstart a) (left_of a h) p1) (\<lambda>p2.
     keep_leftover (hend a < hend h) (right_of a h) p2))"
  by (auto simp: cut_hole_def keep_leftover_def left_of_def right_of_def Let_def max_def)

text \<open>What cutting one hole does, as three facts about the pools in between.\<close>

lemma cut_hole_chain:
  assumes p: "holes_ok p" and h: "at p i = Some h" and ov: "overlaps a h" and ne: "hstart a < hend a"
    and b: "hole_budget a p \<le> capacity p"
  shows "\<exists>p1 p2 p3. cut_hole a i h p = Inr p3 \<and> capacity p1 = capacity p \<and> Suc (pcount p1) = pcount p \<and>
     missing p1 = missing p - hole_set h \<and> ran (at p1) = ran (at p) - {h} \<and> at p1 = (at p)(i := None) \<and>
     leftover_kept (hstart h < hstart a) (left_of a h) p1 p2 \<and>
     leftover_kept (hend a < hend h) (right_of a h) p2 p3"
proof -
  have hr: "h \<in> ran (at p)" using h by (auto simp: ran_def)
  then have pc: "pcount p + of_bool (hstart h < hstart a \<and> hend a < hend h) \<le> capacity p"
    using b by (auto simp: hole_budget_def straddles_def split: if_splits)
  note other = holes_ok_apart [OF p h]
  from drop_hole [OF p h] obtain p1 where p1: "erase i p = Inr p1" "holes_ok p1" "capacity p1 = capacity p"
    "Suc (pcount p1) = pcount p" "missing p1 = missing p - hole_set h" "ran (at p1) = ran (at p) - {h}"
    "at p1 = (at p)(i := None)" by blast
  have "\<exists>p2. keep_leftover (hstart h < hstart a) (left_of a h) p1 = Inr p2 \<and>
      leftover_kept (hstart h < hstart a) (left_of a h) p1 p2"
    by (rule keep_leftover_ok)
      (use p1 pc other ov in \<open>force simp: left_of_def overlaps_def apart_def\<close>)+
  then obtain p2 where p2: "keep_leftover (hstart h < hstart a) (left_of a h) p1 = Inr p2"
    "leftover_kept (hstart h < hstart a) (left_of a h) p1 p2" by blast
  have "\<exists>p3. keep_leftover (hend a < hend h) (right_of a h) p2 = Inr p3 \<and>
      leftover_kept (hend a < hend h) (right_of a h) p2 p3"
    by (rule keep_leftover_ok)
      (use p1 p2 pc other ov ne in
        \<open>force simp: left_of_def right_of_def leftover_kept_def overlaps_def apart_def split: if_splits\<close>)+
  then obtain p3 where p3: "keep_leftover (hend a < hend h) (right_of a h) p2 = Inr p3"
    "leftover_kept (hend a < hend h) (right_of a h) p2 p3" by blast
  then have "cut_hole a i h p = Inr p3" using p1(1) p2(1) by (simp add: cut_hole_alt)
  then show ?thesis using p1(3-7) p2(2) p3(2) by blast
qed

lemma cut_hole_step:
  assumes p: "holes_ok p" and h: "at p i = Some h" and ov: "overlaps a h" and ne: "hstart a < hend a"
    and b: "hole_budget a p \<le> capacity p"
  shows "\<exists>p'. cut_hole a i h p = Inr p' \<and> holes_ok p' \<and> capacity p' = capacity p \<and>
     hole_budget a p' \<le> hole_budget a p \<and> missing p' = missing p - (hole_set a \<inter> hole_set h) \<and>
     (\<forall>j k. at p' j = Some k \<longrightarrow> overlaps a k \<longrightarrow> j \<noteq> i \<and> at p j = Some k)"
proof -
  let ?l = "hstart h < hstart a" and ?r = "hend a < hend h"
  obtain p1 p2 p3 where c: "cut_hole a i h p = Inr p3" "capacity p1 = capacity p" "Suc (pcount p1) = pcount p"
    "missing p1 = missing p - hole_set h" "ran (at p1) = ran (at p) - {h}" "at p1 = (at p)(i := None)"
    "leftover_kept ?l (left_of a h) p1 p2" "leftover_kept ?r (right_of a h) p2 p3"
    using cut_hole_chain [OF assms] by blast
  note k2 = c(7) [unfolded leftover_kept_def] and k3 = c(8) [unfolded leftover_kept_def]
  have hr: "h \<in> ran (at p)" using h by (auto simp: ran_def)
  then have sub: "hole_set h \<subseteq> missing p" by (auto simp: missing_def)
  have "missing p3 = missing p - (hole_set a \<inter> hole_set h)"
    using k2 k3 c(4) sub ov by (auto simp: hole_set_def left_of_def right_of_def overlaps_def split: if_splits)
  moreover have "j \<noteq> i \<and> at p j = Some k" if "at p3 j = Some k" "overlaps a k" for j k
  proof -
    have "\<not> overlaps a (left_of a h)" "\<not> overlaps a (right_of a h)"
      by (auto simp: overlaps_def left_of_def right_of_def)
    then have "at p1 j = Some k" using k2 k3 that by metis
    then show ?thesis using c(6) by (auto split: if_splits)
  qed
  moreover have "hole_budget a p3 \<le> hole_budget a p"
  proof (cases "?l \<and> ?r")
    case True
    then have "straddles a h" by (simp add: straddles_def)
    moreover have "\<not> straddles a k" if "k \<in> ran (at p) - {h}" for k
      using holes_ok_apart [OF p h that] True ne by (auto simp: straddles_def apart_def)
    ultimately have "hole_budget a p = pcount p + 1" "\<not> (\<exists>k \<in> ran (at p3). straddles a k)"
      using b hr k2 k3 c(5) ne by (auto simp: hole_budget_def straddles_def left_of_def right_of_def split: if_splits)
    then show ?thesis using True k2 k3 c(3) by (simp add: hole_budget_def)
  next
    case False
    then have "(\<exists>k \<in> ran (at p3). straddles a k) \<Longrightarrow> \<exists>k \<in> ran (at p). straddles a k"
      using k2 k3 c(5) ne by (auto simp: straddles_def left_of_def right_of_def split: if_splits)
    moreover have "pcount p3 \<le> pcount p" using False k2 k3 c(3) by auto
    ultimately show ?thesis by (auto simp: hole_budget_def split: if_splits)
  qed
  ultimately show ?thesis using c(1,2) k2 k3 by auto
qed

lemma overlaps_set: "hstart a < hend a \<Longrightarrow> hstart h < hend h \<Longrightarrow> overlaps a h \<longleftrightarrow> hole_set a \<inter> hole_set h \<noteq> {}"
  by (auto simp: overlaps_def hole_set_def disjoint_iff)

definition loop_cuts :: "hole \<Rightarrow> bool \<Rightarrow> hole pool \<Rightarrow> (hole pool \<times> bool) res \<Rightarrow> bool" where
  "loop_cuts a removed p m \<longleftrightarrow>
     (\<exists>p'. m = Inr (p', removed \<or> missing p \<inter> hole_set a \<noteq> {}) \<and> holes_ok p' \<and>
        capacity p' = capacity p \<and> pcount p' \<le> hole_budget a p \<and> missing p' = missing p - hole_set a)"

lemma loop_cuts_done:
  assumes "holes_ok p" "hstart a < hend a" "\<And>j k. at p j = Some k \<Longrightarrow> \<not> overlaps a k"
  shows "loop_cuts a removed p (Inr (p, removed))"
proof -
  have "hole_set a \<inter> hole_set k = {}" if "k \<in> ran (at p)" for k
    using that assms(3) overlaps_set [OF assms(2), of k] assms(1) by (auto simp: holes_ok_def ran_def)
  then have "missing p \<inter> hole_set a = {}" by (auto simp: missing_def)
  then show ?thesis using assms(1) by (auto simp: loop_cuts_def hole_budget_def)
qed

lemma loop_cuts_step:
  assumes "hole_budget a p' \<le> hole_budget a p" "capacity p' = capacity p"
    "missing p' = missing p - (hole_set a \<inter> hole_set h)" "hole_set a \<inter> hole_set h \<noteq> {}" "hole_set h \<subseteq> missing p"
    "loop_cuts a True p' m"
  shows "loop_cuts a removed p m"
  using assms unfolding loop_cuts_def by fastforce

lemma insert_loop_cuts:
  assumes "holes_ok p" "hstart a < hend a" "hole_budget a p \<le> capacity p"
    "\<And>j k. at p j = Some k \<Longrightarrow> overlaps a k \<Longrightarrow> i \<le> j"
  shows "loop_cuts a removed p (insert_loop a i removed p)"
  using assms
proof (induction a i removed p rule: insert_loop.induct)
  case (1 a i removed p)
  note prems = "1.prems"
  have pi: "pool_inv p" using prems(1) by (simp add: holes_ok_def)
  then have wl: "watermark p \<le> length (pdata p)" by (auto simp: pool_inv_def pool_rep_def)
  have wm: "j < watermark p" if "at p j = Some k" for j k
    using that by (auto simp: at_def valid_def split: if_splits)
  have later: "Suc i \<le> j" if "at p j = Some k" "overlaps a k" "\<And>k. at p i = Some k \<Longrightarrow> \<not> overlaps a k" for j k
    using prems(4) [OF that(1,2)] that by (cases "j = i") auto
  consider (stop) "watermark p \<le> i" | (gap) "i < watermark p" "at p i = None"
    | (hit) h where "i < watermark p" "at p i = Some h" "overlaps a h"
    | (miss) h where "i < watermark p" "at p i = Some h" "\<not> overlaps a h"
    by (metis not_le option.exhaust)
  then show ?case
  proof cases
    case stop
    then have "\<not> overlaps a k" if "at p j = Some k" for j k using prems(4) [OF that] wm [OF that] by auto
    then show ?thesis
      using stop loop_cuts_done [OF prems(1,2)] by (subst insert_loop.simps) simp
  next
    case gap
    then have "\<not> valid i p" using valid_at [OF pi] by simp
    then have "loop_cuts a removed p (insert_loop a (Suc i) removed p)"
      using gap wl later by (intro "1.IH"(1) prems) auto
    then show ?thesis using gap wl \<open>\<not> valid i p\<close> by (subst insert_loop.simps) simp
  next
    case hit
    have v: "valid i p" "get p i = Inr h" using hit valid_at [OF pi, of i] get_at [OF pi, of i] by auto
    from cut_hole_step [OF prems(1) hit(2,3) prems(2,3)] obtain p' where
      p': "cut_hole a i h p = Inr p'" "holes_ok p'" "capacity p' = capacity p"
        "hole_budget a p' \<le> hole_budget a p" "missing p' = missing p - (hole_set a \<inter> hole_set h)"
        "\<And>j k. at p' j = Some k \<Longrightarrow> overlaps a k \<Longrightarrow> j \<noteq> i \<and> at p j = Some k" by blast
    have "loop_cuts a True p' (insert_loop a (Suc i) True p')"
      using hit wl v p' prems(2,3,4) by (intro "1.IH"(2)) (auto simp: Suc_le_eq order_less_le)
    moreover have "hole_set a \<inter> hole_set h \<noteq> {}" "hole_set h \<subseteq> missing p"
      using hit prems(1,2) overlaps_set [of a h] by (auto simp: holes_ok_def missing_def ran_def)
    ultimately show ?thesis
      using hit wl v p'(1) loop_cuts_step [OF p'(4,3,5)] by (subst insert_loop.simps) simp
  next
    case miss
    have v: "valid i p" "get p i = Inr h" using miss valid_at [OF pi, of i] get_at [OF pi, of i] by auto
    have "loop_cuts a removed p (insert_loop a (Suc i) removed p)"
      using miss wl v later by (intro "1.IH"(3) prems) auto
    then show ?thesis using miss wl v by (subst insert_loop.simps) simp
  qed
qed

subsection \<open>The buffer\<close>

definition frag_ok :: "frag_buffer \<Rightarrow> bool" where
  "frag_ok fb \<longleftrightarrow> holes_ok (holes fb) \<and> int (length (fdata fb)) < INT_MAX \<and>
     missing (holes fb) \<subseteq> {0..<INT_MAX} \<and> {int (length (fdata fb))..<INT_MAX} \<subseteq> missing (holes fb)"

lemma at_clear [simp]: "at (clear p) = Map.empty"
  by (auto simp: at_def valid_def clear_def)

lemma pcount_clear [simp]: "pcount (clear p) = 0"
  by (simp add: clear_def)

lemma capacity_clear [simp]: "capacity (clear p) = capacity p"
  by (simp add: clear_def capacity_def)

lemma frag_reset_ok:
  assumes "pool_inv (holes fb)" "0 < capacity (holes fb)" "int (length (fdata fb)) < INT_MAX"
  shows "\<exists>fb'. frag_reset fb = Inr fb' \<and> frag_ok fb' \<and> fdata fb' = fdata fb \<and> pcount (holes fb') = 1 \<and>
     capacity (holes fb') = capacity (holes fb) \<and> missing (holes fb') = {0..<INT_MAX}"
proof -
  have "holes_ok (clear (holes fb))" using assms(1) by (simp add: holes_ok_def pool_inv_clear)
  from add_hole [OF this, of "\<lparr>hstart = 0, hend = INT_MAX\<rparr>"] assms(2,3) obtain p j where
    p: "emplace_anywhere \<lparr>hstart = 0, hend = INT_MAX\<rparr> (clear (holes fb)) = Inr (p, j)" "holes_ok p"
      "capacity p = capacity (holes fb)" "pcount p = 1" "missing p = {0..<INT_MAX}"
    by (auto simp: missing_def hole_set_def)
  then show ?thesis using assms(3) by (auto simp: frag_reset_def frag_ok_def)
qed

lemma frag_buffer_init_ok:
  assumes "40 \<le> n" "n \<le> 2621400"
  shows "\<exists>fb. frag_buffer_init n = Inr fb \<and> frag_ok fb \<and> length (fdata fb) = n \<and> pcount (holes fb) = 1 \<and>
     capacity (holes fb) = n div 40 \<and> missing (holes fb) = {0..<INT_MAX}"
proof -
  have "n div 40 \<le> 65535" "0 < n div 40" using assms by (auto simp: div_le_mono [of n 2621400 40, simplified])
  then show ?thesis
    using frag_reset_ok [of "\<lparr>fdata = replicate n 0, holes = fixed_pool (n div 40)\<rparr>"] assms
    by (auto simp: frag_buffer_init_def INT_MAX_def)
qed

lemma frag_insert_ok:
  assumes "frag_ok fb" "0 \<le> start" "src \<noteq> []" "start + int (length src) \<le> int (length (fdata fb))"
    "pcount (holes fb) < capacity (holes fb)"
  defines "r \<equiv> {start..<start + int (length src)}"
  shows "\<exists>fb'. frag_insert start src fb = Inr fb' \<and> frag_ok fb' \<and>
     capacity (holes fb') = capacity (holes fb) \<and> pcount (holes fb') \<le> Suc (pcount (holes fb)) \<and>
     missing (holes fb') = missing (holes fb) - r \<and>
     fdata fb' = (if missing (holes fb) \<inter> r = {} then fdata fb
       else take (nat start) (fdata fb) @ src @ drop (nat start + length src) (fdata fb))"
proof -
  let ?a = "\<lparr>hstart = start, hend = start + int (length src)\<rparr>"
  have m: "min (start + int (length src)) (int (length (fdata fb))) = start + int (length src)" using assms(4) by simp
  have hs: "hole_set ?a = r" by (simp add: hole_set_def r_def)
  have "hole_budget ?a (holes fb) \<le> Suc (pcount (holes fb))" by (simp add: hole_budget_def)
  with insert_loop_cuts [of "holes fb" ?a 0 False] assms(1,3,5) obtain p where
    p: "insert_loop ?a 0 False (holes fb) = Inr (p, missing (holes fb) \<inter> r \<noteq> {})" "holes_ok p"
      "capacity p = capacity (holes fb)" "pcount p \<le> Suc (pcount (holes fb))" "missing p = missing (holes fb) - r"
    unfolding loop_cuts_def hs by (fastforce simp: frag_ok_def)
  have "{int (length (fdata fb))..<INT_MAX} \<inter> r = {}" using assms(4) by (auto simp: r_def)
  then have ok: "{int (length (fdata fb))..<INT_MAX} \<subseteq> missing p" using assms(1) p(5) unfolding frag_ok_def by blast
  have cp: "memcpy_at start src (fdata fb) =
      Inr (take (nat start) (fdata fb) @ src @ drop (nat start + length src) (fdata fb))"
    using assms(2,4) by (simp add: memcpy_at_def)
  have len: "length (take (nat start) (fdata fb) @ src @ drop (nat start + length src) (fdata fb)) = length (fdata fb)"
    using assms(2,4) by auto
  show ?thesis
    using p ok cp len assms(1) unfolding frag_insert_def m
    by (cases "missing (holes fb) \<inter> r = {}") (auto simp: frag_ok_def)
qed

lemma filter_eq_upt: "i < n \<Longrightarrow> filter (\<lambda>j. j = i) [0..<n] = [i]"
  by (induction n) (auto simp: less_Suc_eq filter_empty_conv)

lemma begin_valid:
  assumes "pool_inv p" "dom (at p) = {i}"
  shows "pool_begin p = i" "i < watermark p"
proof -
  have v: "valid j p \<longleftrightarrow> j = i" for j using assms valid_at [OF assms(1), of j] by (auto simp: dom_def set_eq_iff)
  have "valid i p" using v by simp
  then show iw: "i < watermark p" by (simp add: valid_def)
  have "iter_from p (pool_begin p) = filter (\<lambda>j. valid j p) [0..<watermark p]" by (rule iter_indices [OF assms(1)])
  also have "\<dots> = [i]" unfolding v by (rule filter_eq_upt [OF iw])
  finally show "pool_begin p = i" by (subst (asm) iter_from.simps) (auto split: if_splits)
qed

lemma single_hole:
  assumes "frag_ok fb" "pcount (holes fb) = 1"
  shows "\<exists>n. missing (holes fb) = {n..<INT_MAX} \<and> n < INT_MAX \<and> continuous_size fb = Inr n"
proof -
  let ?p = "holes fb"
  have pi: "pool_inv ?p" using assms(1) by (simp add: frag_ok_def holes_ok_def)
  then have "card (dom (at ?p)) = 1" using assms(2) by (simp add: pcount_at)
  then obtain i where i: "dom (at ?p) = {i}" by (auto simp: card_1_singleton_iff)
  then obtain h where h: "at ?p i = Some h" by (auto simp: dom_def set_eq_iff)
  have "ran (at ?p) = {h}" using i h by (auto simp: ran_def dom_def set_eq_iff) (metis option.sel)
  then have m: "missing ?p = {hstart h..<hend h}" "hstart h < hend h"
    using assms(1) by (auto simp: missing_def hole_set_def frag_ok_def holes_ok_def)
  have "INT_MAX - 1 \<in> missing ?p" "INT_MAX \<notin> missing ?p" "hend h - 1 \<in> missing ?p"
    using assms(1) m by (auto simp: frag_ok_def)
  then have "hend h = INT_MAX" using m assms(1) unfolding frag_ok_def by auto
  moreover have "continuous_size fb = Inr (hstart h)"
    using begin_valid [OF pi i] get_at [OF pi, of i] h assms(2) by (simp add: continuous_size_def)
  ultimately show ?thesis using m by auto
qed

lemma several_holes:
  assumes "frag_ok fb" "pcount (holes fb) \<noteq> 1"
  shows "missing (holes fb) \<noteq> {n..<INT_MAX}"
proof
  let ?p = "holes fb"
  assume eq: "missing ?p = {n..<INT_MAX}"
  have ok: "holes_ok ?p" and pi: "pool_inv ?p" using assms(1) by (auto simp: frag_ok_def holes_ok_def)
  have "INT_MAX - 1 \<in> missing ?p" using assms(1) by (auto simp: frag_ok_def)
  then obtain i h where i: "at ?p i = Some h" unfolding missing_alt by blast
  have "dom (at ?p) \<noteq> {i}" using assms(2) pi by (auto simp: pcount_at)
  then obtain j k where j: "at ?p j = Some k" "j \<noteq> i" using i by auto
  have gap: False if "at ?p a = Some x" "at ?p b = Some y" "hend x < hstart y" for a b x y
  proof -
    have xy: "hstart x < hend x" "hstart y < hend y" using that ok by (auto simp: holes_ok_def ran_def)
    then have "hstart x \<in> missing ?p" "hstart y \<in> missing ?p" using that by (auto simp: missing_alt hole_set_def)
    then have "hend x \<in> missing ?p" using eq that(3) xy by auto
    then obtain c z where z: "at ?p c = Some z" "hend x \<in> hole_set z" unfolding missing_alt by blast
    then have "c = a \<or> apart z x" using ok that(1) unfolding holes_ok_def by blast
    then show False using z that(1) xy by (auto simp: hole_set_def apart_def)
  qed
  have "apart h k" using ok i j unfolding holes_ok_def by blast
  then show False using gap [OF i j(1)] gap [OF j(1) i] by (auto simp: apart_def)
qed

lemma continuous_size_missing:
  assumes "frag_ok fb" "missing (holes fb) = {n..<INT_MAX}" "n < INT_MAX"
  shows "continuous_size fb = Inr n"
proof -
  have "pcount (holes fb) = 1" using several_holes [OF assms(1)] assms(2) by blast
  from single_hole [OF assms(1) this] obtain k where k: "missing (holes fb) = {k..<INT_MAX}" "k < INT_MAX"
    "continuous_size fb = Inr k" by blast
  then have "k = n" using assms(2,3) by (metis atLeastLessThan_inj(1))
  then show ?thesis using k by simp
qed

lemma continuous_size_gaps:
  assumes "frag_ok fb" "\<nexists>n. missing (holes fb) = {n..<INT_MAX}"
  shows "continuous_size fb = Inr 0"
  using single_hole [OF assms(1)] assms(2) by (auto simp: continuous_size_def)

subsection \<open>Reassembly\<close>

fun insert_all :: "(int \<times> byte list) list \<Rightarrow> frag_buffer \<Rightarrow> frag_buffer res" where
  "insert_all [] fb = Inr fb"
| "insert_all ((start, src) # frags) fb = bindR (frag_insert start src fb) (insert_all frags)"

definition covered :: "(int \<times> byte list) list \<Rightarrow> int set" where
  "covered frags = (\<Union>(start, src) \<in> set frags. {start..<start + int (length src)})"

text \<open>A fragment of the message \<open>m\<close>: non-empty, and the bytes of \<open>m\<close> at its position.\<close>

definition fragment_of :: "byte list \<Rightarrow> int \<times> byte list \<Rightarrow> bool" where
  "fragment_of m f \<longleftrightarrow> (case f of (start, src) \<Rightarrow> 0 \<le> start \<and> src \<noteq> [] \<and>
     start + int (length src) \<le> int (length m) \<and> src = take (length src) (drop (nat start) m))"

text \<open>Every position that is not missing holds the byte of the message.\<close>

definition agrees :: "byte list \<Rightarrow> frag_buffer \<Rightarrow> bool" where
  "agrees m fb \<longleftrightarrow> (\<forall>x < length m. int x \<notin> missing (holes fb) \<longrightarrow> fdata fb ! x = m ! x)"

lemma fragment_nth:
  assumes "fragment_of m (start, src)" "nat start \<le> x" "x < nat start + length src"
  shows "src ! (x - nat start) = m ! x"
proof -
  have "src ! (x - nat start) = take (length src) (drop (nat start) m) ! (x - nat start)"
    using assms(1) by (simp add: fragment_of_def)
  then show ?thesis using assms by (auto simp: fragment_of_def)
qed

lemma fragment_overwrite_nth:
  assumes "fragment_of m (start, src)" "length m \<le> length d" "x < length m"
  shows "(take (nat start) d @ src @ drop (nat start + length src) d) ! x =
     (if start \<le> int x \<and> int x < start + int (length src) then m ! x else d ! x)"
proof -
  have b: "nat start + length src \<le> length m" "0 \<le> start" using assms(1) by (auto simp: fragment_of_def)
  consider "x < nat start" | "nat start \<le> x" "x < nat start + length src" | "nat start + length src \<le> x" by linarith
  then show ?thesis
  proof cases
    case 2
    then show ?thesis using fragment_nth [OF assms(1) 2] assms(2,3) b by (auto simp: nth_append)
  qed (use assms(2,3) b in \<open>auto simp: nth_append\<close>)
qed

lemma insert_fragment:
  assumes "frag_ok fb" "agrees m fb" "fragment_of m (start, src)" "length m \<le> length (fdata fb)"
    "pcount (holes fb) < capacity (holes fb)"
  shows "\<exists>fb'. frag_insert start src fb = Inr fb' \<and> frag_ok fb' \<and> agrees m fb' \<and> length (fdata fb') = length (fdata fb) \<and>
     capacity (holes fb') = capacity (holes fb) \<and> pcount (holes fb') \<le> Suc (pcount (holes fb)) \<and>
     missing (holes fb') = missing (holes fb) - {start..<start + int (length src)}"
proof -
  have f: "0 \<le> start" "src \<noteq> []" "start + int (length src) \<le> int (length (fdata fb))"
    using assms(3,4) by (auto simp: fragment_of_def)
  from frag_insert_ok [OF assms(1) f assms(5)] obtain fb' where
    fb': "frag_insert start src fb = Inr fb'" "frag_ok fb'" "capacity (holes fb') = capacity (holes fb)"
      "pcount (holes fb') \<le> Suc (pcount (holes fb))"
      "missing (holes fb') = missing (holes fb) - {start..<start + int (length src)}"
      "fdata fb' = (if missing (holes fb) \<inter> {start..<start + int (length src)} = {} then fdata fb
         else take (nat start) (fdata fb) @ src @ drop (nat start + length src) (fdata fb))" by blast
  have "length (fdata fb') = length (fdata fb)" using fb'(6) f by auto
  moreover have "agrees m fb'" unfolding agrees_def
  proof (intro allI impI)
    fix x assume x: "x < length m" "int x \<notin> missing (holes fb')"
    then show "fdata fb' ! x = m ! x"
      using fb'(5,6) fragment_overwrite_nth [OF assms(3,4) x(1)] assms(2) by (auto simp: agrees_def)
  qed
  ultimately show ?thesis using fb' by blast
qed

lemma insert_all_fragments:
  assumes "frag_ok fb" "agrees m fb" "\<forall>f \<in> set frags. fragment_of m f" "length m \<le> length (fdata fb)"
    "pcount (holes fb) + length frags \<le> capacity (holes fb)"
  shows "\<exists>fb'. insert_all frags fb = Inr fb' \<and> frag_ok fb' \<and> agrees m fb' \<and>
     length (fdata fb') = length (fdata fb) \<and> missing (holes fb') = missing (holes fb) - covered frags"
  using assms
proof (induction frags arbitrary: fb)
  case (Cons f frags)
  obtain start src where f: "f = (start, src)" by fastforce
  from Cons.prems insert_fragment [of fb m start src] obtain fb1 where
    fb1: "frag_insert start src fb = Inr fb1" "frag_ok fb1" "agrees m fb1" "length (fdata fb1) = length (fdata fb)"
      "capacity (holes fb1) = capacity (holes fb)" "pcount (holes fb1) \<le> Suc (pcount (holes fb))"
      "missing (holes fb1) = missing (holes fb) - {start..<start + int (length src)}" by (auto simp: f)
  from Cons.IH [of fb1] Cons.prems(3-5) fb1 obtain fb2 where
    "insert_all frags fb1 = Inr fb2" "frag_ok fb2" "agrees m fb2" "length (fdata fb2) = length (fdata fb)"
    "missing (holes fb2) = missing (holes fb1) - covered frags" by auto
  then show ?case using fb1 by (auto simp: f covered_def)
qed (simp add: covered_def)

subsection \<open>Properties\<close>

text \<open>
  \<^bold>\<open>C6.\<close> Reassembly: inserting fewer than \<open>MaxLen / 40\<close> non-empty fragments of a
  message into a fresh buffer, in any order and with any overlaps, succeeds; the buffer
  reports the size of the message as continuous exactly when the fragments cover the whole
  of it, and then its data starts with the message.
\<close>

theorem reassembly_correct:
  assumes "m \<noteq> []" "length m \<le> max_length" "40 \<le> max_length" "max_length \<le> 2621400"
    "\<forall>f \<in> set frags. fragment_of m f" "length frags < max_length div 40"
  shows "\<exists>fb. bindR (frag_buffer_init max_length) (insert_all frags) = Inr fb \<and>
     (continuous_size fb = Inr (int (length m)) \<longleftrightarrow> covered frags = {0..<int (length m)}) \<and>
     (continuous_size fb = Inr (int (length m)) \<longrightarrow> take (length m) (fdata fb) = m)"
proof -
  from frag_buffer_init_ok [OF assms(3,4)] obtain fb0 where
    fb0: "frag_buffer_init max_length = Inr fb0" "frag_ok fb0" "length (fdata fb0) = max_length"
      "pcount (holes fb0) = 1" "capacity (holes fb0) = max_length div 40" "missing (holes fb0) = {0..<INT_MAX}" by blast
  have lim: "int (length m) < INT_MAX" using assms(2,4) by (simp add: INT_MAX_def)
  then have "agrees m fb0" using fb0(6) by (auto simp: agrees_def)
  from insert_all_fragments [OF fb0(2) this assms(5)] fb0(3-5) assms(2,6) obtain fb where
    fb: "insert_all frags fb0 = Inr fb" "frag_ok fb" "agrees m fb" "length (fdata fb) = max_length"
      "missing (holes fb) = {0..<INT_MAX} - covered frags" using fb0(6) by auto
  have cov: "covered frags \<subseteq> {0..<int (length m)}"
    using assms(5) by (fastforce simp: covered_def fragment_of_def)
  have all: "missing (holes fb) = {int (length m)..<INT_MAX} \<longleftrightarrow> covered frags = {0..<int (length m)}"
  proof
    assume e: "missing (holes fb) = {int (length m)..<INT_MAX}"
    have "x \<in> covered frags" if "x \<in> {0..<int (length m)}" for x
    proof (rule ccontr)
      assume "x \<notin> covered frags"
      then have "x \<in> {int (length m)..<INT_MAX}" using that lim fb(5) unfolding e by simp
      then show False using that by simp
    qed
    then show "covered frags = {0..<int (length m)}" using cov by blast
  next
    assume "covered frags = {0..<int (length m)}"
    then show "missing (holes fb) = {int (length m)..<INT_MAX}" using fb(5) by auto
  qed
  have "continuous_size fb = Inr (int (length m)) \<longleftrightarrow> missing (holes fb) = {int (length m)..<INT_MAX}"
    using continuous_size_missing [OF fb(2)] continuous_size_gaps [OF fb(2)] single_hole [OF fb(2)]
      several_holes [OF fb(2)] assms(1) lim
    by (cases "pcount (holes fb) = 1") (auto simp: continuous_size_def)
  moreover have "take (length m) (fdata fb) = m" if "missing (holes fb) = {int (length m)..<INT_MAX}"
    using that fb(3,4) assms(2) by (intro nth_equalityI) (auto simp: agrees_def)
  ultimately show ?thesis using fb0(1) fb(1) all by auto
qed

theorem reassembly_correct_witness:
  "fragment_of [5, 6, 7, 8] (2, [7, 8]) \<and> fragment_of [5, 6, 7, 8] (0, [5, 6]) \<and>
   covered [(2, [7, 8]), (0, [5, 6])] = {0..<4} \<and>
   (\<exists>fb. bindR (frag_buffer_init 120) (insert_all [(2, [7, 8]), (0, [5, 6])]) = Inr fb \<and>
      continuous_size fb = Inr 4 \<and> take 4 (fdata fb) = [5, 6, 7, 8])"
proof -
  have f: "\<forall>f \<in> set [(2, [7, 8]), (0, [5, 6])]. fragment_of [5, 6, 7, 8] f"
    by (simp add: fragment_of_def)
  moreover have c: "covered [(2, [7, 8]), (0, [5, 6])] = {0..<4}" by (auto simp: covered_def)
  moreover have n: "length [5, 6, 7, 8 :: byte] = 4" by simp
  ultimately show ?thesis
    using reassembly_correct [of "[5, 6, 7, 8]" 120 "[(2, [7, 8]), (0, [5, 6])]"] unfolding n by auto
qed

text \<open>
  \<^bold>\<open>C32.\<close> Inserting a fragment that lies inside the buffer, when the pool has room for one
  more hole: the positions still missing are the old ones without the fragment's, the
  bytes are stored if any of them was missing and left alone otherwise, and the well-formedness of
  the holes is kept.
\<close>

theorem frag_insert_correct:
  assumes "frag_ok fb" "0 \<le> start" "src \<noteq> []" "start + int (length src) \<le> int (length (fdata fb))"
    "pcount (holes fb) < capacity (holes fb)"
  shows "\<exists>fb'. frag_insert start src fb = Inr fb' \<and> frag_ok fb' \<and>
     capacity (holes fb') = capacity (holes fb) \<and> pcount (holes fb') \<le> Suc (pcount (holes fb)) \<and>
     missing (holes fb') = missing (holes fb) - {start..<start + int (length src)} \<and>
     fdata fb' = (if missing (holes fb) \<inter> {start..<start + int (length src)} = {} then fdata fb
       else take (nat start) (fdata fb) @ src @ drop (nat start + length src) (fdata fb))"
  by (rule frag_insert_ok [OF assms])

theorem frag_insert_correct_witness:
  "\<exists>fb fb'. frag_buffer_init 120 = Inr fb \<and> frag_ok fb \<and> pcount (holes fb) < capacity (holes fb) \<and>
     frag_insert 3 [9] fb = Inr fb' \<and> missing (holes fb') = {0..<INT_MAX} - {3..<4}"
proof -
  obtain fb where fb: "frag_buffer_init 120 = Inr fb" "frag_ok fb" "length (fdata fb) = 120"
    "pcount (holes fb) = 1" "capacity (holes fb) = 3" "missing (holes fb) = {0..<INT_MAX}"
    using frag_buffer_init_ok [of 120] by auto
  then show ?thesis using frag_insert_correct [of fb 3 "[9]"] by auto
qed

text \<open>
  \<^bold>\<open>C33.\<close> The end of the addition is clamped to the buffer but the copy is not: a fragment
  that starts inside the buffer, reaches beyond its end and fills any missing position
  writes outside the array.
\<close>

theorem frag_insert_overruns:
  assumes "frag_ok fb" "0 \<le> start" "start < int (length (fdata fb))" "int (length (fdata fb)) < start + int (length src)"
    "pcount (holes fb) < capacity (holes fb)" "missing (holes fb) \<inter> {start..<int (length (fdata fb))} \<noteq> {}"
  shows "frag_insert start src fb = Inl OutOfBounds"
proof -
  let ?a = "\<lparr>hstart = start, hend = int (length (fdata fb))\<rparr>"
  have "hole_budget ?a (holes fb) \<le> Suc (pcount (holes fb))" by (simp add: hole_budget_def)
  with insert_loop_cuts [of "holes fb" ?a 0 False] assms obtain p where
    "insert_loop ?a 0 False (holes fb) = Inr (p, True)"
    unfolding loop_cuts_def by (fastforce simp: frag_ok_def hole_set_def)
  then show ?thesis using assms(2,4) by (simp add: frag_insert_def min_def memcpy_at_def)
qed

theorem frag_insert_overruns_witness:
  "\<exists>fb. frag_buffer_init 120 = Inr fb \<and> frag_ok fb \<and> frag_insert 119 [1, 2] fb = Inl OutOfBounds"
proof -
  obtain fb where fb: "frag_buffer_init 120 = Inr fb" "frag_ok fb" "length (fdata fb) = 120"
    "pcount (holes fb) = 1" "capacity (holes fb) = 3" "missing (holes fb) = {0..<INT_MAX}"
    using frag_buffer_init_ok [of 120] by auto
  then show ?thesis using frag_insert_overruns [of fb 119 "[1, 2]"] by (auto simp: INT_MAX_def)
qed

end
