(* ===== verification/Unordered_Map.thy ===== *)
theory Unordered_Map
  imports Pool
begin

text \<open>
  The key-value table of \<open>libraries/support/unordered_map.h\<close>: entries in a pool, found by
  walking the pool with its iterator. Its contract, the locale \<open>keyed_store\<close>, is what the
  ARP and IPv4 layers rely on; the pool's own contract carries the proofs.
\<close>

subsection \<open>The interface of a keyed store\<close>

locale keyed_store =
  fixes inv :: "'m \<Rightarrow> bool"
    and cap :: "'m \<Rightarrow> nat"
    and mp :: "'m \<Rightarrow> 'k \<Rightarrow> 'v option"
    and pos :: "'m \<Rightarrow> nat \<Rightarrow> ('k \<times> 'v) option"
    and fnd :: "'k \<Rightarrow> 'm \<Rightarrow> nat res"
    and ins :: "'k \<Rightarrow> 'v \<Rightarrow> 'm \<Rightarrow> ('m \<times> bool) res"
    and del :: "nat \<Rightarrow> 'm \<Rightarrow> 'm res"
  assumes fnd_pos: "inv m \<Longrightarrow> \<exists>i. fnd k m = Inr i \<and> pos m i = map_option (Pair k) (mp m k)"
    and ins_old: "inv m \<Longrightarrow> mp m k = Some w \<Longrightarrow> ins k v m = Inr (m, False)"
    and ins_full: "inv m \<Longrightarrow> mp m k = None \<Longrightarrow> card (dom (mp m)) = cap m \<Longrightarrow> ins k v m = Inl Panic"
    and ins_new: "inv m \<Longrightarrow> mp m k = None \<Longrightarrow> card (dom (mp m)) < cap m \<Longrightarrow>
        \<exists>m'. ins k v m = Inr (m', True) \<and> inv m' \<and> cap m' = cap m \<and> mp m' = (mp m)(k \<mapsto> v)"
    and del_pos: "inv m \<Longrightarrow> pos m i = Some (k, v) \<Longrightarrow>
        \<exists>m'. del i m = Inr m' \<and> inv m' \<and> cap m' = cap m \<and> mp m' = (mp m)(k := None)"
begin

lemma ins_then_find:
  "inv m \<Longrightarrow> mp m k = None \<Longrightarrow> card (dom (mp m)) < cap m \<Longrightarrow>
   \<exists>m' i. ins k v m = Inr (m', True) \<and> fnd k m' = Inr i \<and> pos m' i = Some (k, v)"
  using ins_new [of m k v] fnd_pos [of _ k] by fastforce

lemma find_then_del:
  "inv m \<Longrightarrow> mp m k = Some v \<Longrightarrow>
   \<exists>i m'. fnd k m = Inr i \<and> del i m = Inr m' \<and> inv m' \<and> mp m' = (mp m)(k := None)"
  using fnd_pos [of m k] del_pos [of m _ k v] by fastforce

lemma ins_keeps:
  "inv m \<Longrightarrow> ins k v m = Inr (m', b) \<Longrightarrow> card (dom (mp m)) \<le> cap m \<Longrightarrow>
   inv m' \<and> cap m' = cap m \<and> b = (mp m k = None) \<and> mp m' = (if b then (mp m)(k \<mapsto> v) else mp m)"
  using ins_old [of m k _ v] ins_new [of m k v] ins_full [of m k v]
  by (cases "mp m k"; cases "card (dom (mp m)) = cap m") auto

end

subsection \<open>The class\<close>

record ('k, 'v) entry =
  ekey :: 'k
  evalue :: 'v

text \<open>\<open>find\<close> returns the iterator's index; \<open>end()\<close> is the watermark.\<close>

fun find_among :: "'k \<Rightarrow> ('k, 'v) entry pool \<Rightarrow> nat list \<Rightarrow> nat res" where
  "find_among k p [] = Inr (watermark p)"
| "find_among k p (i # is) =
     bindR (get p i) (\<lambda>e. if ekey e = k then Inr i else find_among k p is)"

definition um_find :: "'k \<Rightarrow> ('k, 'v) entry pool \<Rightarrow> nat res" where
  "um_find k p = find_among k p (iter_from p (pool_begin p))"

definition um_insert :: "'k \<Rightarrow> 'v \<Rightarrow> ('k, 'v) entry pool \<Rightarrow> (('k, 'v) entry pool \<times> bool) res" where
  "um_insert k v p =
     bindR (um_find k p) (\<lambda>it.
     if it \<noteq> watermark p then Inr (p, False)
     else bindR (emplace_anywhere \<lparr>ekey = k, evalue = v\<rparr> p) (\<lambda>(p', _). Inr (p', True)))"

definition um_erase :: "nat \<Rightarrow> ('k, 'v) entry pool \<Rightarrow> ('k, 'v) entry pool res" where
  "um_erase it p = erase it p"

text \<open>\<open>operator []\<close> returns a reference to the value: the index of the entry it lies in.\<close>

definition um_index :: "'v \<Rightarrow> 'k \<Rightarrow> ('k, 'v) entry pool \<Rightarrow> (('k, 'v) entry pool \<times> nat) res" where
  "um_index d k p =
     bindR (um_find k p) (\<lambda>it.
     if it \<noteq> watermark p then Inr (p, it)
     else bindR (um_insert k d p) (\<lambda>(p', _).
          bindR (um_find k p') (\<lambda>it'. assertR (it' \<noteq> watermark p') (Inr (p', it')))))"

subsection \<open>Invariant and abstraction\<close>

definition um_inv :: "('k, 'v) entry pool \<Rightarrow> bool" where
  "um_inv p \<longleftrightarrow> pool_inv p \<and>
     (\<forall>i j e f. at p i = Some e \<longrightarrow> at p j = Some f \<longrightarrow> ekey e = ekey f \<longrightarrow> i = j)"

definition um_pos :: "('k, 'v) entry pool \<Rightarrow> nat \<Rightarrow> ('k \<times> 'v) option" where
  "um_pos p i = map_option (\<lambda>e. (ekey e, evalue e)) (at p i)"

definition um_map :: "('k, 'v) entry pool \<Rightarrow> 'k \<Rightarrow> 'v option" where
  "um_map p = map_of (List.map_filter (um_pos p) [0..<watermark p])"

lemma um_pos_None: "um_pos p i = None \<longleftrightarrow> at p i = None"
  by (simp add: um_pos_def)

lemma um_pos_Some: "um_pos p i = Some (k, v) \<longleftrightarrow> at p i = Some \<lparr>ekey = k, evalue = v\<rparr>"
  by (auto simp: um_pos_def intro: entry.equality)

lemma at_watermark: "at p i = Some x \<Longrightarrow> i < watermark p"
  by (auto simp: at_def valid_def split: if_splits)

lemma um_pos_inj: "um_inv p \<Longrightarrow> um_pos p i = Some (k, v) \<Longrightarrow> um_pos p j = Some (k, w) \<Longrightarrow> i = j"
  unfolding um_inv_def um_pos_Some by fastforce

lemma set_map_filter_Some: "set (List.map_filter f xs) = {y. \<exists>x \<in> set xs. f x = Some y}"
  by (induction xs) (auto simp: List.map_filter_simps split: option.splits)

lemma set_entries: "set (List.map_filter (um_pos p) [0..<watermark p]) = ran (um_pos p)"
proof -
  have "i < watermark p" if "um_pos p i = Some x" for i x
    using that at_watermark [of p i] by (auto simp: um_pos_def)
  then show ?thesis by (auto simp: set_map_filter_Some ran_def)
qed

lemma map_filter_snoc:
  "List.map_filter f (xs @ [x]) = List.map_filter f xs @ (case f x of None \<Rightarrow> [] | Some y \<Rightarrow> [y])"
  by (simp add: List.map_filter_def split: option.split)

lemma distinct_keys:
  assumes "um_inv p"
  shows "distinct (map fst (List.map_filter (um_pos p) [0..<n]))"
proof (induction n)
  case (Suc n)
  have "k \<notin> fst ` set (List.map_filter (um_pos p) [0..<n])" if "um_pos p n = Some (k, v)" for k v
  proof
    assume "k \<in> fst ` set (List.map_filter (um_pos p) [0..<n])"
    then obtain i w where "i < n" "um_pos p i = Some (k, w)" by (auto simp: set_map_filter_Some)
    then show False using um_pos_inj [OF assms that] by auto
  qed
  then show ?case using Suc by (cases "um_pos p n") (force simp: map_filter_snoc)+
qed (simp add: List.map_filter_def)

lemma um_map_Some: "um_inv p \<Longrightarrow> um_map p k = Some v \<longleftrightarrow> (\<exists>i. um_pos p i = Some (k, v))"
  using distinct_keys [of p "watermark p"]
  by (auto simp: um_map_def map_of_eq_Some_iff set_entries ran_def)

lemma um_map_None: "um_inv p \<Longrightarrow> um_map p k = None \<longleftrightarrow> (\<forall>i v. um_pos p i \<noteq> Some (k, v))"
  using um_map_Some [of p k] by (metis not_None_eq)

lemma um_map_eqI:
  assumes "um_inv p" "\<And>k v. f k = Some v \<longleftrightarrow> (\<exists>i. um_pos p i = Some (k, v))"
  shows "um_map p = f"
proof
  show "um_map p k = f k" for k
    using um_map_Some [OF assms(1), of k] assms(2) [of k] by (metis not_None_eq)
qed

lemma um_card:
  assumes "um_inv p"
  shows "card (dom (um_map p)) = pcount p"
proof -
  let ?f = "\<lambda>i. ekey (the (at p i))"
  have "dom (um_map p) = ?f ` dom (at p)"
    using um_map_Some [OF assms] by (force simp: dom_def image_def um_pos_Some um_pos_def)
  moreover have "inj_on ?f (dom (at p))"
    using assms by (auto simp: inj_on_def um_inv_def)
  ultimately show ?thesis using assms by (simp add: card_image um_inv_def pcount_at)
qed

lemma find_among_spec:
  assumes "um_inv p" "set is \<subseteq> dom (at p)"
  shows "find_among k p is =
     Inr (case find (\<lambda>i. \<exists>v. um_pos p i = Some (k, v)) is of None \<Rightarrow> watermark p | Some i \<Rightarrow> i)"
  using assms(2)
proof (induction "is")
  case (Cons i "is")
  then obtain e where e: "at p i = Some e" by auto
  have "get p i = Inr e" using assms(1) e by (simp add: get_at um_inv_def)
  then show ?case using Cons e by (auto simp: um_pos_def)
qed simp

lemma um_find_pos:
  assumes "um_inv p"
  shows "\<exists>i. um_find k p = Inr i \<and> um_pos p i = map_option (Pair k) (um_map p k) \<and>
     (i = watermark p \<longleftrightarrow> um_map p k = None)"
proof -
  have pi: "pool_inv p" using assms by (simp add: um_inv_def)
  have s: "set (iter_from p (pool_begin p)) = dom (at p)"
    using valid_at [OF pi] by (auto simp: iter_indices [OF pi] valid_def)
  have w: "at p (watermark p) = None" by (auto simp: at_def valid_def)
  note f = find_among_spec [OF assms equalityD1 [OF s], of k, folded um_find_def]
  show ?thesis
  proof (cases "find (\<lambda>i. \<exists>v. um_pos p i = Some (k, v)) (iter_from p (pool_begin p))")
    case None
    then have "um_pos p i \<noteq> Some (k, v)" for i v
      using s unfolding find_None_iff by (metis domIff um_pos_None option.distinct(1))
    then have "um_map p k = None" by (simp add: um_map_None [OF assms])
    then show ?thesis using f None w by (simp add: um_pos_None)
  next
    case (Some i)
    then obtain v where v: "um_pos p i = Some (k, v)" by (auto simp: find_Some_iff)
    then have "um_map p k = Some v" using um_map_Some [OF assms] by blast
    then show ?thesis using f Some v w by (auto simp: um_pos_def)
  qed
qed

lemma um_insert_old: "um_inv p \<Longrightarrow> um_map p k = Some w \<Longrightarrow> um_insert k v p = Inr (p, False)"
  using um_find_pos [of p k] by (auto simp: um_insert_def)

lemma um_insert_full:
  assumes "um_inv p" "um_map p k = None" "card (dom (um_map p)) = capacity p"
  shows "um_insert k v p = Inl Panic"
proof -
  have "pool_inv p" "\<not> pcount p < capacity p" using assms um_card [OF assms(1)] by (auto simp: um_inv_def)
  then obtain fl where "pool_rep p fl" "full p" by (auto simp: pool_inv_def full_def capacity_def)
  then have "emplace_anywhere \<lparr>ekey = k, evalue = v\<rparr> p = Inl Panic"
    using pool_rep_emplace_anywhere by fastforce
  then show ?thesis using um_find_pos [OF assms(1), of k] assms(2) by (auto simp: um_insert_def)
qed

lemma um_insert_new:
  assumes "um_inv p" "um_map p k = None" "card (dom (um_map p)) < capacity p"
  shows "\<exists>p'. um_insert k v p = Inr (p', True) \<and> um_inv p' \<and> capacity p' = capacity p \<and> um_map p' = (um_map p)(k \<mapsto> v)"
proof -
  have pi: "pool_inv p" using assms(1) by (simp add: um_inv_def)
  have "card (dom (at p)) < capacity p" using assms(3) um_card [OF assms(1)] pi by (simp add: pcount_at)
  then obtain p' j where e: "emplace_anywhere \<lparr>ekey = k, evalue = v\<rparr> p = Inr (p', j)"
    using pl.alloc_total [OF pi] by fastforce
  note st = pl.alloc_step [OF pi e]
  have pos: "um_pos p' i = (if i = j then Some (k, v) else um_pos p i)" for i
    using st by (auto simp: um_pos_def)
  have fresh: "um_pos p i \<noteq> Some (k, w)" for i w using assms(2) um_map_None [OF assms(1)] by blast
  have jn: "um_pos p j = None" using st by (simp add: um_pos_None)
  have i: "um_inv p'"
    using st assms(1) fresh unfolding um_inv_def um_pos_def by (auto split: if_splits)
  have "((um_map p)(k \<mapsto> v)) a = Some b \<longleftrightarrow> (\<exists>i. um_pos p' i = Some (a, b))" for a b
  proof (cases "a = k")
    case True
    then show ?thesis using fresh by (auto simp: pos split: if_splits)
  next
    case False
    have "i \<noteq> j" if "um_pos p i = Some (a, b)" for i using that jn by auto
    then show ?thesis using False um_map_Some [OF assms(1), of a b] by (auto simp: pos split: if_splits)
  qed
  then have "um_map p' = (um_map p)(k \<mapsto> v)" by (intro um_map_eqI [OF i])
  then show ?thesis using e i st um_find_pos [OF assms(1), of k] assms(2) by (auto simp: um_insert_def)
qed

lemma um_erase_pos:
  assumes "um_inv p" "um_pos p i = Some (k, v)"
  shows "\<exists>p'. um_erase i p = Inr p' \<and> um_inv p' \<and> capacity p' = capacity p \<and> um_map p' = (um_map p)(k := None)"
proof -
  have pi: "pool_inv p" using assms(1) by (simp add: um_inv_def)
  have "at p i \<noteq> None" using assms(2) by (auto simp: um_pos_def)
  then obtain p' where e: "erase i p = Inr p'" using pl.release_total [OF pi] by blast
  note st = pl.release_step [OF pi e]
  have pos: "um_pos p' j = (if j = i then None else um_pos p j)" for j
    using st by (auto simp: um_pos_def)
  have inv: "um_inv p'" using st assms(1) unfolding um_inv_def by (auto split: if_splits)
  have "((um_map p)(k := None)) a = Some b \<longleftrightarrow> (\<exists>j. um_pos p' j = Some (a, b))" for a b
  proof (cases "a = k")
    case True
    then show ?thesis using um_pos_inj [OF assms] by (auto simp: pos split: if_splits)
  next
    case False
    then have "j \<noteq> i" if "um_pos p j = Some (a, b)" for j using that assms(2) by auto
    then show ?thesis using False um_map_Some [OF assms(1), of a b] by (auto simp: pos split: if_splits)
  qed
  then have "um_map p' = (um_map p)(k := None)" by (intro um_map_eqI [OF inv])
  then show ?thesis using e inv st by (auto simp: um_erase_def)
qed

text \<open>A write through the value an iterator points at.\<close>

lemma um_modify:
  assumes "um_inv p" "um_pos p i = Some (k, v)"
  shows "\<exists>p'. modify i (\<lambda>e. e\<lparr>evalue := w\<rparr>) p = Inr p' \<and> um_inv p' \<and> capacity p' = capacity p \<and>
     watermark p' = watermark p \<and> um_map p' = (um_map p)(k \<mapsto> w) \<and> um_pos p' i = Some (k, w)"
proof -
  have pi: "pool_inv p" using assms(1) by (simp add: um_inv_def)
  have a: "at p i = Some \<lparr>ekey = k, evalue = v\<rparr>" using assms(2) by (simp add: um_pos_Some)
  obtain p' where m: "modify i (\<lambda>e. e\<lparr>evalue := w\<rparr>) p = Inr p'" "pool_inv p'" "capacity p' = capacity p"
    "at p' = (at p)(i := Some \<lparr>ekey = k, evalue = w\<rparr>)"
    using modify_step [OF pi a, of "\<lambda>e. e\<lparr>evalue := w\<rparr>"] by auto
  have wm: "watermark p' = watermark p"
    using m(1) by (auto simp: modify_def assertR_def write_node_def split: if_splits)
  have pos: "um_pos p' j = (if j = i then Some (k, w) else um_pos p j)" for j
    using m(4) by (auto simp: um_pos_def)
  have inv: "um_inv p'" using m(2,4) assms(1) a unfolding um_inv_def by (fastforce split: if_splits)
  have "((um_map p)(k \<mapsto> w)) x = Some y \<longleftrightarrow> (\<exists>j. um_pos p' j = Some (x, y))" for x y
  proof (cases "x = k")
    case True
    then show ?thesis using um_pos_inj [OF assms] by (auto simp: pos split: if_splits)
  next
    case False
    then have "j \<noteq> i" if "um_pos p j = Some (x, y)" for j using that assms(2) by auto
    then show ?thesis using False um_map_Some [OF assms(1), of x y] by (auto simp: pos split: if_splits)
  qed
  then have "um_map p' = (um_map p)(k \<mapsto> w)" by (intro um_map_eqI [OF inv])
  then show ?thesis using m inv wm pos by auto
qed

lemma um_find_total: "um_inv p \<Longrightarrow> \<exists>i. um_find k p = Inr i \<and> um_pos p i = map_option (Pair k) (um_map p k)"
  using um_find_pos [of p k] by blast

interpretation um: keyed_store um_inv capacity um_map um_pos um_find um_insert um_erase
  by unfold_locales
    (rule um_find_total um_insert_old um_insert_full um_insert_new um_erase_pos; assumption)+

lemma full_card: "um_inv p \<Longrightarrow> if full p then card (dom (um_map p)) = capacity p else card (dom (um_map p)) < capacity p"
proof -
  assume a: "um_inv p"
  then have "card (dom (at p)) \<le> capacity p"
    using at_bound [of p] card_mono [of "{..<capacity p}" "dom (at p)"] by (auto simp: um_inv_def)
  then have "pcount p \<le> capacity p" using a by (simp add: pcount_at um_inv_def)
  then show ?thesis using um_card [OF a] by (auto simp: full_def capacity_def)
qed

lemma um_index_old:
  assumes "um_inv p" "um_map p k = Some v"
  shows "\<exists>i. um_index d k p = Inr (p, i) \<and> um_pos p i = Some (k, v)"
  using um_find_pos [OF assms(1), of k] assms(2) by (auto simp: um_index_def)

lemma um_index_new:
  assumes "um_inv p" "um_map p k = None" "\<not> full p"
  shows "\<exists>p' i. um_index d k p = Inr (p', i) \<and> um_inv p' \<and> um_map p' = (um_map p)(k \<mapsto> d) \<and> um_pos p' i = Some (k, d)"
proof -
  obtain p' where p': "um_insert k d p = Inr (p', True)" "um_inv p'" "um_map p' = (um_map p)(k \<mapsto> d)"
    using um.ins_new [OF assms(1,2)] full_card [OF assms(1)] assms(3) by auto
  from um_find_pos [OF p'(2), of k] p'(3) obtain i where
    "um_find k p' = Inr i" "um_pos p' i = Some (k, d)" "i \<noteq> watermark p'" by auto
  moreover have "um_find k p = Inr (watermark p)" using um_find_pos [OF assms(1), of k] assms(2) by auto
  ultimately show ?thesis using p' by (auto simp: um_index_def)
qed

lemma um_inv_fixed_pool [simp]: "n \<le> 65535 \<Longrightarrow> um_inv (fixed_pool n)"
  by (simp add: um_inv_def)

lemma um_map_fixed_pool [simp]: "um_map (fixed_pool n) = Map.empty"
  by (auto simp: um_map_def um_pos_def fixed_pool_def clear_def List.map_filter_def)

subsection \<open>Properties\<close>

text \<open>
  \<^bold>\<open>C22.\<close> A table with distinct keys behaves as a finite map: \<open>find\<close> returns the entry with
  the key or \<open>end()\<close>; \<open>insert\<close> refuses a present key, panics when full, and otherwise adds
  the entry; \<open>operator []\<close> finds the entry or inserts a default one; erasing what \<open>find\<close>
  returned removes exactly that key.
\<close>

theorem unordered_map_correct:
  assumes "um_inv p"
  shows "(\<exists>i. um_find k p = Inr i \<and> um_pos p i = map_option (Pair k) (um_map p k) \<and>
        (i = watermark p \<longleftrightarrow> um_map p k = None)) \<and>
     (if um_map p k \<noteq> None then um_insert k v p = Inr (p, False)
      else if full p then um_insert k v p = Inl Panic
      else \<exists>p'. um_insert k v p = Inr (p', True) \<and> um_inv p' \<and> um_map p' = (um_map p)(k \<mapsto> v)) \<and>
     (case um_map p k of
        Some w \<Rightarrow> \<exists>i p'. um_index d k p = Inr (p, i) \<and> um_pos p i = Some (k, w) \<and>
          um_erase i p = Inr p' \<and> um_inv p' \<and> um_map p' = (um_map p)(k := None)
      | None \<Rightarrow> \<not> full p \<longrightarrow> (\<exists>p' i. um_index d k p = Inr (p', i) \<and> um_inv p' \<and>
          um_map p' = (um_map p)(k \<mapsto> d) \<and> um_pos p' i = Some (k, d)))"
proof (intro conjI)
  show "\<exists>i. um_find k p = Inr i \<and> um_pos p i = map_option (Pair k) (um_map p k) \<and>
        (i = watermark p \<longleftrightarrow> um_map p k = None)" by (rule um_find_pos [OF assms])
  show "if um_map p k \<noteq> None then um_insert k v p = Inr (p, False)
      else if full p then um_insert k v p = Inl Panic
      else \<exists>p'. um_insert k v p = Inr (p', True) \<and> um_inv p' \<and> um_map p' = (um_map p)(k \<mapsto> v)"
    using um.ins_old [OF assms, of k _ v] um.ins_new [OF assms, of k v] um.ins_full [OF assms, of k v] full_card [OF assms]
    by (auto split: if_splits)
  show "case um_map p k of
        Some w \<Rightarrow> \<exists>i p'. um_index d k p = Inr (p, i) \<and> um_pos p i = Some (k, w) \<and>
          um_erase i p = Inr p' \<and> um_inv p' \<and> um_map p' = (um_map p)(k := None)
      | None \<Rightarrow> \<not> full p \<longrightarrow> (\<exists>p' i. um_index d k p = Inr (p', i) \<and> um_inv p' \<and>
          um_map p' = (um_map p)(k \<mapsto> d) \<and> um_pos p' i = Some (k, d))"
    using um_index_old [OF assms, of k _ d] um_index_new [OF assms, of k d] um.del_pos [OF assms]
    by (auto split: option.split) blast
qed

theorem unordered_map_correct_witness:
  "um_inv (fixed_pool 4 :: (nat, nat) entry pool) \<and>
   (\<exists>p'. um_insert 3 8 (fixed_pool 4 :: (nat, nat) entry pool) = Inr (p', True) \<and> um_map p' = [3 \<mapsto> 8])"
  using unordered_map_correct [of "fixed_pool 4 :: (nat, nat) entry pool" 3 8 0] by auto

end
