(* ===== verification/P2_String.thy ===== *)
theory P2_String
  imports Prelude
begin

text \<open>
  The fixed-capacity string of \<open>libraries/support/string.h\<close> and \<open>string.cc\<close>, and
  \<open>dirname\<close> of \<open>libraries/support/filesystem.h\<close>. A string is its character array and the
  position of its end; \<open>append\<close> asserts that the character and the terminating NUL fit.

  A \<open>const char *\<close> argument is the list of its characters; a NUL inside ends it. The
  constructors that do not initialise the array take its previous contents as an argument.
\<close>

definition NUL :: char where
  "NUL = CHR 0x00"

record p2_string =
  storage :: "char list"
  sposition :: nat

definition string_init :: "char list \<Rightarrow> p2_string res" where
  "string_init mem = assertR (0 < length mem) (Inr \<lparr>storage = mem[0 := NUL], sposition = 0\<rparr>)"

definition append_char :: "char \<Rightarrow> p2_string \<Rightarrow> p2_string res" where
  "append_char c s =
     assertR (sposition s + 1 < length (storage s))
      (Inr \<lparr>storage = (storage s)[sposition s := c, sposition s + 1 := NUL], sposition = sposition s + 1\<rparr>)"

fun append_str :: "char list \<Rightarrow> p2_string \<Rightarrow> p2_string res" where
  "append_str [] s = Inr s"
| "append_str (c # cs) s = (if c = NUL then Inr s else bindR (append_char c s) (append_str cs))"

text \<open>The constructor from a C string; \<open>count\<close> is compared before it is incremented.\<close>

fun from_loop :: "nat \<Rightarrow> nat \<Rightarrow> char list \<Rightarrow> p2_string \<Rightarrow> p2_string res" where
  "from_loop max_length count [] s = Inr s"
| "from_loop max_length count (c # cs) s =
     (if c = NUL then Inr s
      else if max_length \<le> count then Inr s
      else bindR (append_char c s) (from_loop max_length (Suc count) cs))"

definition string_from :: "char list \<Rightarrow> char list \<Rightarrow> int \<Rightarrow> p2_string res" where
  "string_from mem other max_length =
     from_loop (nat (min max_length (int (length mem) - 1))) 0 other \<lparr>storage = mem, sposition = 0\<rparr>"

text \<open>The copying loop of the copy constructor and of \<open>operator =\<close>.\<close>

fun copy_loop :: "char list \<Rightarrow> p2_string \<Rightarrow> p2_string res" where
  "copy_loop [] s = Inr s"
| "copy_loop (c # cs) s = bindR (append_char c s) (copy_loop cs)"

definition string_copy :: "char list \<Rightarrow> p2_string \<Rightarrow> p2_string res" where
  "string_copy mem other =
     copy_loop (take (sposition other) (storage other)) \<lparr>storage = mem, sposition = 0\<rparr>"

definition string_assign :: "p2_string \<Rightarrow> p2_string \<Rightarrow> p2_string res" where
  "string_assign other s = copy_loop (take (sposition other) (storage other)) (s\<lparr>sposition := 0\<rparr>)"

definition string_clear :: "p2_string \<Rightarrow> p2_string" where
  "string_clear s = s\<lparr>sposition := 0, storage := (storage s)[0 := NUL]\<rparr>"

definition backspace :: "p2_string \<Rightarrow> p2_string" where
  "backspace s =
     (if 0 < sposition s
      then s\<lparr>sposition := sposition s - 1, storage := (storage s)[sposition s - 1 := NUL]\<rparr> else s)"

definition c_str :: "p2_string \<Rightarrow> char list" where
  "c_str s = takeWhile (\<lambda>c. c \<noteq> NUL) (storage s)"

fun equal_loop :: "nat \<Rightarrow> char list \<Rightarrow> char list \<Rightarrow> bool" where
  "equal_loop 0 xs ys = True"
| "equal_loop (Suc n) xs ys = (if hd xs \<noteq> hd ys then False else equal_loop n (tl xs) (tl ys))"

definition string_equal :: "p2_string \<Rightarrow> p2_string \<Rightarrow> bool" where
  "string_equal s rhs =
     (if sposition rhs \<noteq> sposition s then False
      else equal_loop (sposition s) (storage s) (storage rhs))"

text \<open>
  \<open>find_last_of\<close>: the loop starts at the terminating NUL and steps down while the
  character differs; the post-decrement leaves \<open>-1\<close> when nothing matches.
\<close>

fun find_last_loop :: "char \<Rightarrow> char list \<Rightarrow> nat \<Rightarrow> int" where
  "find_last_loop c xs 0 = (if xs ! 0 \<noteq> c then -1 else 0)"
| "find_last_loop c xs (Suc n) = (if xs ! Suc n \<noteq> c then find_last_loop c xs n else int (Suc n))"

definition find_last_of :: "char \<Rightarrow> p2_string \<Rightarrow> int" where
  "find_last_of c s = find_last_loop c (storage s) (sposition s)"

subsection \<open>Numbers\<close>

definition digit_as_char :: "nat \<Rightarrow> nat \<Rightarrow> char" where
  "digit_as_char digit radix =
     (if radix = 10 then char_of (48 + digit)
      else if radix = 16 then (if digit < 10 then char_of (48 + digit) else char_of (65 + digit - 10))
      else CHR ''?'')"

definition isdigit :: "char \<Rightarrow> bool" where
  "isdigit c \<longleftrightarrow> 48 \<le> (of_char c :: nat) \<and> (of_char c :: nat) \<le> 57"

text \<open>The radix is 10 or 16 in every call; the loops end for any radix above one.\<close>

function count_loop :: "nat \<Rightarrow> nat \<Rightarrow> nat" where
  "count_loop radix value_left =
     (if value_left = 0 \<or> radix \<le> 1 then 0 else Suc (count_loop radix (value_left div radix)))"
  by pat_completeness auto
termination
  by (relation "measure snd") auto

declare count_loop.simps [simp del]

definition num_width :: "nat \<Rightarrow> nat \<Rightarrow> nat" where
  "num_width radix v = 1 + count_loop radix (v div radix)"

fun pad_loop :: "nat \<Rightarrow> char \<Rightarrow> p2_string \<Rightarrow> p2_string res" where
  "pad_loop 0 padding s = Inr s"
| "pad_loop (Suc n) padding s = bindR (append_char padding s) (pad_loop n padding)"

text \<open>The loop that writes digits from the right; \<open>k\<close> cells are left before \<open>start_pos\<close>.\<close>

fun write_digits :: "nat \<Rightarrow> nat \<Rightarrow> nat \<Rightarrow> nat \<Rightarrow> char list \<Rightarrow> char list" where
  "write_digits radix start 0 v st = st"
| "write_digits radix start (Suc k) v st =
     (let st' = st[start + k := digit_as_char (v mod radix) radix]; v' = v div radix
      in if v' = 0 then st' else write_digits radix start k v' st')"

definition append_num :: "nat \<Rightarrow> int \<Rightarrow> nat \<Rightarrow> char \<Rightarrow> p2_string \<Rightarrow> p2_string res" where
  "append_num v width radix padding s =
     (let start = sposition s; w = (if width = -1 then num_width radix v else nat width)
      in bindR (pad_loop w padding s) (\<lambda>s1.
         Inr (s1\<lparr>storage := write_digits radix start (sposition s1 - start) v (storage s1)\<rparr>)))"

subsection \<open>\<open>dirname\<close>\<close>

text \<open>
  The directory and the base are assigned from temporaries built by the constructor; \<open>mem\<close>
  is the memory those temporaries occupy.
\<close>

definition dirname :: "char list \<Rightarrow> p2_string \<Rightarrow> p2_string \<Rightarrow> p2_string \<Rightarrow> (p2_string \<times> p2_string) res" where
  "dirname mem path dir base =
     (let last_slash = find_last_of (CHR ''/'') path
      in bindR (string_from mem (c_str path) last_slash) (\<lambda>tmp.
         bindR (string_assign tmp dir) (\<lambda>dir'.
         bindR (string_from mem (drop (nat (last_slash + 1)) (c_str path)) (int (length mem) - 1)) (\<lambda>tmp'.
         bindR (string_assign tmp' base) (\<lambda>base'. Inr (dir', base'))))))"

subsection \<open>Text\<close>

definition s_text :: "p2_string \<Rightarrow> char list" where
  "s_text s = take (sposition s) (storage s)"

definition s_wf :: "p2_string \<Rightarrow> bool" where
  "s_wf s \<longleftrightarrow> sposition s < length (storage s) \<and> storage s ! sposition s = NUL"

lemma length_s_text: "s_wf s \<Longrightarrow> length (s_text s) = sposition s"
  by (simp add: s_wf_def s_text_def)

lemma append_char_ok:
  assumes "sposition s + 1 < length (storage s)"
  shows "\<exists>s'. append_char c s = Inr s' \<and> s_wf s' \<and> s_text s' = s_text s @ [c] \<and>
     length (storage s') = length (storage s) \<and> sposition s' = Suc (sposition s)"
  using assms by (auto simp: append_char_def s_wf_def s_text_def take_Suc_conv_app_nth)

lemma append_char_full: "length (storage s) \<le> sposition s + 1 \<Longrightarrow> append_char c s = Inl Panic"
  by (simp add: append_char_def)

text \<open>Appending a list of characters one by one, as all the loops do.\<close>

lemma copy_loop_ok:
  "cs \<noteq> [] \<or> s_wf s \<Longrightarrow> sposition s + length cs < length (storage s) \<Longrightarrow>
   \<exists>s'. copy_loop cs s = Inr s' \<and> s_wf s' \<and> s_text s' = s_text s @ cs \<and>
     length (storage s') = length (storage s) \<and> sposition s' = sposition s + length cs"
proof (induction cs arbitrary: s)
  case (Cons c cs)
  then obtain s1 where s1: "append_char c s = Inr s1" "s_wf s1" "s_text s1 = s_text s @ [c]"
    "length (storage s1) = length (storage s)" "sposition s1 = Suc (sposition s)"
    using append_char_ok [of s c] by auto
  with Cons.IH [of s1] Cons.prems show ?case by auto
qed auto

lemma copy_loop_full:
  "length (storage s) \<le> sposition s + length cs \<Longrightarrow> cs \<noteq> [] \<Longrightarrow> copy_loop cs s = Inl Panic"
proof (induction cs arbitrary: s)
  case (Cons c cs)
  show ?case
  proof (cases "sposition s + 1 < length (storage s)")
    case True
    then obtain s1 where s1: "append_char c s = Inr s1"
      "length (storage s1) = length (storage s)" "sposition s1 = Suc (sposition s)"
      using append_char_ok [of s c] by auto
    with Cons True show ?thesis by (cases cs) auto
  qed (simp add: append_char_full)
qed simp

lemma append_str_copy: "append_str cs s = copy_loop (takeWhile (\<lambda>c. c \<noteq> NUL) cs) s"
  by (induction cs s rule: append_str.induct) (auto simp: bindR_def split: sum.split)

lemma pad_loop_copy: "pad_loop n c s = copy_loop (replicate n c) s"
  by (induction n arbitrary: s) (auto simp: bindR_def split: sum.split)

lemma from_loop_copy:
  "from_loop m k cs s = copy_loop (take (m - k) (takeWhile (\<lambda>c. c \<noteq> NUL) cs)) s"
proof (induction m k cs s rule: from_loop.induct)
  case (2 m k c cs s)
  have "m - Suc k = j" if "m - k = Suc j" for j using that by linarith
  with 2 show ?case by (cases "m - k") (auto simp: bindR_def split: sum.split)
qed simp

subsection \<open>Digits\<close>

text \<open>The digits of a number, most significant first.\<close>

function digits :: "nat \<Rightarrow> nat \<Rightarrow> nat list" where
  "digits r v = (if v < r \<or> r \<le> 1 then [v] else digits r (v div r) @ [v mod r])"
  by pat_completeness auto
termination
  by (relation "measure snd") auto

declare digits.simps [simp del]

definition digit_text :: "nat \<Rightarrow> nat \<Rightarrow> char list" where
  "digit_text r v = map (\<lambda>d. digit_as_char d r) (digits r v)"

lemma digits_small: "v < r \<Longrightarrow> digits r v = [v]"
  by (simp add: digits.simps)

lemma digits_big: "1 < r \<Longrightarrow> r \<le> v \<Longrightarrow> digits r v = digits r (v div r) @ [v mod r]"
  by (subst digits.simps) simp

lemma digits_less: "1 < r \<Longrightarrow> d \<in> set (digits r v) \<Longrightarrow> d < r"
proof (induction r v rule: digits.induct)
  case (1 r v)
  then show ?case by (cases "v < r") (auto simp: digits_small digits_big not_less)
qed

lemma digits_value: "1 < r \<Longrightarrow> foldl (\<lambda>n d. n * r + d) 0 (digits r v) = v"
proof (induction r v rule: digits.induct)
  case (1 r v)
  then show ?case by (cases "v < r") (auto simp: digits_small digits_big not_less)
qed

lemma length_digits: "1 < r \<Longrightarrow> length (digits r v) = num_width r v"
proof (induction r v rule: digits.induct)
  case (1 r v)
  show ?case
  proof (cases "v < r")
    case True
    then show ?thesis using count_loop.simps [of r 0] by (simp add: digits_small num_width_def)
  next
    case False
    then have "v div r \<noteq> 0" using 1(2) by (simp add: div_eq_0_iff)
    then show ?thesis
      using 1 False count_loop.simps [of r "v div r"] by (simp add: digits_big num_width_def)
  qed
qed

text \<open>What the digit loop leaves in a run of cells: the low digits, right-aligned.\<close>

definition right_align :: "char list \<Rightarrow> char list \<Rightarrow> char list" where
  "right_align cells ds = take (length cells - length ds) cells @ drop (length ds - length cells) ds"

lemma length_right_align [simp]: "length (right_align cells ds) = length cells"
  by (simp add: right_align_def)

lemma write_digits_cells:
  "1 < r \<Longrightarrow> write_digits r (length a) (length cells) v (a @ cells @ b) = a @ right_align cells (digit_text r v) @ b"
proof (induction "length cells" arbitrary: cells v b)
  case (Suc k)
  then obtain cs c where cells: "cells = cs @ [c]" "length cs = k" by (metis length_Suc_conv_rev)
  let ?d = "digit_as_char (v mod r) r"
  have st: "(a @ cells @ b)[length a + k := ?d] = a @ cs @ (?d # b)"
    by (simp add: cells list_update_append)
  show ?case
  proof (cases "v < r")
    case True
    then show ?thesis using st Suc(2,3) cells
      by (simp add: digit_text_def digits_small right_align_def flip: Suc(2))
  next
    case False
    then have v: "v div r \<noteq> 0" using Suc(3) by (simp add: div_eq_0_iff)
    have "write_digits r (length a) (length cells) v (a @ cells @ b) =
        write_digits r (length a) k (v div r) (a @ cs @ (?d # b))"
      using v st by (simp add: cells)
    also have "\<dots> = a @ right_align cs (digit_text r (v div r)) @ (?d # b)"
      using Suc(1) [of cs "v div r" "?d # b"] cells Suc(3) by simp
    also have "digit_text r v = digit_text r (v div r) @ [?d]"
      using False Suc(3) by (simp add: digit_text_def digits_big)
    then have "right_align cs (digit_text r (v div r)) @ (?d # b) = right_align cells (digit_text r v) @ b"
      by (simp add: right_align_def cells)
    finally show ?thesis .
  qed
qed (simp add: right_align_def)

text \<open>The text a number is printed as in a field of a given width.\<close>

definition num_text :: "nat \<Rightarrow> int \<Rightarrow> nat \<Rightarrow> char \<Rightarrow> char list" where
  "num_text v width radix padding =
     (let ds = digit_text radix v; w = (if width = -1 then length ds else nat width)
      in replicate (w - length ds) padding @ drop (length ds - w) ds)"

lemma length_num_text: "1 < r \<Longrightarrow> length (num_text v width r c) = (if width = -1 then num_width r v else nat width)"
  by (auto simp: num_text_def Let_def digit_text_def length_digits)

lemma append_num_ok:
  assumes "s_wf s" "1 < r" "sposition s + length (num_text v width r c) < length (storage s)"
  shows "\<exists>s'. append_num v width r c s = Inr s' \<and> s_wf s' \<and> s_text s' = s_text s @ num_text v width r c \<and>
     length (storage s') = length (storage s) \<and> sposition s' = sposition s + length (num_text v width r c)"
proof -
  let ?w = "if width = -1 then num_width r v else nat width"
  have w: "length (num_text v width r c) = ?w" by (rule length_num_text [OF assms(2)])
  obtain s1 where s1: "pad_loop ?w c s = Inr s1" "s_wf s1" "s_text s1 = s_text s @ replicate ?w c"
    "length (storage s1) = length (storage s)" "sposition s1 = sposition s + ?w"
    using copy_loop_ok [of "replicate ?w c" s] assms(1,3) w by (auto simp: pad_loop_copy)
  let ?b = "drop (sposition s1) (storage s1)"
  have st: "storage s1 = s_text s @ replicate ?w c @ ?b"
    using s1(3) by (metis append_assoc append_take_drop_id s_text_def)
  have "write_digits r (sposition s) ?w v (storage s1) = s_text s @ num_text v width r c @ ?b"
    using write_digits_cells [OF assms(2), of "s_text s" "replicate ?w c" v ?b] st length_s_text [OF assms(1)]
    by (simp add: right_align_def num_text_def digit_text_def length_digits [OF assms(2)] Let_def)
  then have "append_num v width r c s = Inr (s1\<lparr>storage := s_text s @ num_text v width r c @ ?b\<rparr>)"
    using s1(1,5) by (simp add: append_num_def Let_def)
  moreover have "length (s_text s @ num_text v width r c) = sposition s1"
    using w s1(5) length_s_text [OF assms(1)] by simp
  moreover have "?b \<noteq> []" "?b ! 0 = NUL" using s1(2) by (auto simp: s_wf_def)
  ultimately show ?thesis using w s1(4,5) st
    by (auto simp: s_wf_def s_text_def nth_append)
qed

lemma append_num_full:
  assumes "s_wf s" "1 < r" "length (storage s) \<le> sposition s + length (num_text v width r c)"
  shows "append_num v width r c s = Inl Panic"
proof -
  let ?w = "if width = -1 then num_width r v else nat width"
  have "length (storage s) \<le> sposition s + ?w" using assms(2,3) by (simp add: length_num_text)
  moreover from this have "?w \<noteq> 0" using assms(1) by (auto simp: s_wf_def)
  ultimately have "pad_loop ?w c s = Inl Panic"
    using copy_loop_full [of s "replicate ?w c"] by (simp add: pad_loop_copy)
  then show ?thesis by (simp add: append_num_def)
qed

lemma append_str_ok:
  assumes "s_wf s" "sposition s + length (takeWhile (\<lambda>c. c \<noteq> NUL) cs) < length (storage s)"
  shows "\<exists>s'. append_str cs s = Inr s' \<and> s_wf s' \<and> s_text s' = s_text s @ takeWhile (\<lambda>c. c \<noteq> NUL) cs \<and>
     length (storage s') = length (storage s) \<and> sposition s' = sposition s + length (takeWhile (\<lambda>c. c \<noteq> NUL) cs)"
  unfolding append_str_copy using assms by (intro copy_loop_ok) auto

lemma append_str_full:
  assumes "s_wf s" "length (storage s) \<le> sposition s + length (takeWhile (\<lambda>c. c \<noteq> NUL) cs)"
  shows "append_str cs s = Inl Panic"
proof -
  have "takeWhile (\<lambda>c. c \<noteq> NUL) cs \<noteq> []" using assms by (auto simp: s_wf_def)
  then show ?thesis unfolding append_str_copy using assms(2) by (intro copy_loop_full)
qed

subsection \<open>Searching and splitting\<close>

lemma find_last_loop_None: "c \<notin> set (take (Suc n) xs) \<Longrightarrow> n < length xs \<Longrightarrow> find_last_loop c xs n = -1"
  by (induction n) (auto simp: take_Suc_conv_app_nth)

lemma find_last_loop_split:
  "xs = a @ c # b \<Longrightarrow> c \<notin> set (take (n - length a) b) \<Longrightarrow> length a \<le> n \<Longrightarrow> n < length xs \<Longrightarrow>
   find_last_loop c xs n = int (length a)"
proof (induction n)
  case (Suc n)
  show ?case
  proof (cases "length a = Suc n")
    case True
    then have "xs ! Suc n = c" using Suc.prems(1) by (metis nth_append_length)
    then show ?thesis using True by simp
  next
    case False
    then have n: "Suc n - length a = Suc (n - length a)" "length a \<le> n" using Suc.prems(3) by auto
    then have "n - length a < length b" using Suc.prems(1,4) by simp
    then have "take (Suc n - length a) b = take (n - length a) b @ [b ! (n - length a)]"
      unfolding n(1) by (rule take_Suc_conv_app_nth)
    moreover have "xs ! Suc n = b ! (n - length a)" using Suc.prems(1) n by (simp add: nth_append Suc_diff_le)
    ultimately show ?thesis using Suc n by auto
  qed
qed auto

lemma storage_split: "s_wf s \<Longrightarrow> storage s = s_text s @ NUL # drop (Suc (sposition s)) (storage s)"
  using id_take_nth_drop [of "sposition s" "storage s"] by (simp add: s_text_def s_wf_def)

lemma c_str_text:
  assumes "s_wf s" "NUL \<notin> set (s_text s)"
  shows "c_str s = s_text s"
proof -
  have "takeWhile (\<lambda>c. c \<noteq> NUL) (s_text s @ NUL # xs) = s_text s" for xs
    using assms(2) by (subst takeWhile_append2) auto
  then show ?thesis unfolding c_str_def using storage_split [OF assms(1)] by metis
qed

lemma find_last_of_None: "s_wf s \<Longrightarrow> c \<noteq> NUL \<Longrightarrow> c \<notin> set (s_text s) \<Longrightarrow> find_last_of c s = -1"
  unfolding find_last_of_def
  by (rule find_last_loop_None) (auto simp: s_wf_def s_text_def take_Suc_conv_app_nth)

lemma find_last_of_split:
  assumes "s_wf s" "s_text s = a @ c # b" "c \<notin> set b" "c \<noteq> NUL"
  shows "find_last_of c s = int (length a)"
proof -
  have st: "storage s = a @ c # (b @ NUL # drop (Suc (sposition s)) (storage s))"
    using storage_split [OF assms(1)] assms(2) by simp
  have "sposition s = Suc (length a + length b)" using length_s_text [OF assms(1)] assms(2) by simp
  then show ?thesis unfolding find_last_of_def
    using assms(1,3,4) by (intro find_last_loop_split [OF st]) (auto simp: s_wf_def)
qed

lemma string_from_text:
  assumes "NUL \<notin> set cs" "0 < length mem" "m < int (length mem)"
  shows "\<exists>s. string_from mem cs m = Inr s \<and> s_text s = take (nat m) cs \<and> length (storage s) = length mem"
proof -
  have c: "takeWhile (\<lambda>c. c \<noteq> NUL) cs = cs" using assms(1) by (auto simp: takeWhile_eq_all_conv)
  have m: "nat (min m (int (length mem) - 1)) = nat m" using assms(3) by linarith
  let ?s = "\<lparr>storage = mem, sposition = 0\<rparr>"
  have f: "string_from mem cs m = copy_loop (take (nat m) cs) ?s"
    unfolding string_from_def from_loop_copy m c by simp
  show ?thesis
  proof (cases "take (nat m) cs = []")
    case False
    moreover have "nat m < length mem" using assms(2,3) by linarith
    ultimately show ?thesis
      using copy_loop_ok [of "take (nat m) cs" ?s] by (auto simp: f s_text_def min_less_iff_disj)
  next
    case True
    then show ?thesis unfolding f True by (simp add: s_text_def)
  qed
qed

lemma string_assign_text:
  assumes "length (s_text t) < length (storage s)"
  shows "\<exists>s'. string_assign t s = Inr s' \<and> s_text s' = s_text t \<and> length (storage s') = length (storage s)"
proof (cases "s_text t = []")
  case False
  then show ?thesis
    using copy_loop_ok [of "s_text t" "s\<lparr>sposition := 0\<rparr>"] assms by (auto simp: string_assign_def s_text_def)
qed (auto simp: string_assign_def s_text_def)

lemma dirname_parts:
  assumes "NUL \<notin> set (c_str path)" "length (c_str path) < length mem" "find_last_of (CHR ''/'') path = k"
    "-1 \<le> k" "k < int (length mem)" "length mem = length (storage dir)" "length mem = length (storage base)"
  shows "\<exists>dir' base'. dirname mem path dir base = Inr (dir', base') \<and>
     s_text dir' = take (nat k) (c_str path) \<and> s_text base' = drop (nat (k + 1)) (c_str path)"
proof -
  have mem: "0 < length mem" using assms(2) by auto
  obtain t where t: "string_from mem (c_str path) k = Inr t" "s_text t = take (nat k) (c_str path)"
    using string_from_text [OF assms(1) mem assms(5)] by blast
  obtain d where d: "string_assign t dir = Inr d" "s_text d = take (nat k) (c_str path)"
    using string_assign_text [of t dir] t assms(2,6) by (auto simp: min_less_iff_disj)
  have "NUL \<notin> set (drop (nat (k + 1)) (c_str path))" using assms(1) by (meson in_set_dropD)
  from string_from_text [OF this mem, of "int (length mem) - 1"] obtain u where
    u: "string_from mem (drop (nat (k + 1)) (c_str path)) (int (length mem) - 1) = Inr u"
      "s_text u = drop (nat (k + 1)) (c_str path)" using assms(2) by auto
  obtain b where b: "string_assign u base = Inr b" "s_text b = drop (nat (k + 1)) (c_str path)"
    using string_assign_text [of u base] u assms(2,7) by (auto intro: less_imp_diff_less)
  show ?thesis using t d u b assms(3) by (simp add: dirname_def Let_def)
qed

lemma decimal_text:
  "list_all isdigit (num_text v (-1) 10 padding) \<and>
   foldl (\<lambda>n c. n * 10 + (of_char c - 48)) 0 (num_text v (-1) 10 padding) = v"
proof -
  have t: "num_text v (-1) 10 padding = map (\<lambda>d. char_of (48 + d)) (digits 10 v)"
    by (simp add: num_text_def digit_text_def digit_as_char_def Let_def)
  have d: "(48 + d) mod 256 = 48 + d" if "d \<in> set (digits 10 v)" for d
    using digits_less [OF _ that] by simp
  have "foldl (\<lambda>n c. n * 10 + (of_char c - 48)) 0 (map (\<lambda>d. char_of (48 + d)) (digits 10 v)) =
      foldl (\<lambda>n x. n * 10 + x) 0 (digits 10 v)"
    unfolding foldl_map by (rule foldl_cong) (auto simp: d)
  moreover have "list_all isdigit (map (\<lambda>d. char_of (48 + d)) (digits 10 v))"
    using digits_less [of 10 _ v] by (fastforce simp: list_all_iff isdigit_def of_char_of)
  ultimately show ?thesis using digits_value [of 10 v] by (simp add: t)
qed

subsection \<open>Properties\<close>

text \<open>
  \<^bold>\<open>C34.\<close> Appending to a well-formed string never writes outside its array: a C string or
  a formatted number is appended in full, with the terminating NUL, when it fits, and the
  operation panics when it does not. A number appears as its digits in the radix,
  right-aligned in its field.
\<close>

theorem string_append_correct:
  assumes "s_wf s" "radix = 10 \<or> radix = 16"
  shows "(let cs' = takeWhile (\<lambda>c. c \<noteq> NUL) cs
      in if length (s_text s) + length cs' < length (storage s)
         then \<exists>s'. append_str cs s = Inr s' \<and> s_wf s' \<and> s_text s' = s_text s @ cs'
         else append_str cs s = Inl Panic) \<and>
     (let ds = num_text v width radix padding
      in if length (s_text s) + length ds < length (storage s)
         then \<exists>s'. append_num v width radix padding s = Inr s' \<and> s_wf s' \<and> s_text s' = s_text s @ ds
         else append_num v width radix padding s = Inl Panic)"
proof -
  have r: "1 < radix" using assms(2) by auto
  show ?thesis
    using append_str_ok [OF assms(1), of cs] append_str_full [OF assms(1), of cs]
      append_num_ok [OF assms(1) r, of v width padding] append_num_full [OF assms(1) r, of v width padding]
    by (auto simp: Let_def length_s_text [OF assms(1)] not_less)
qed

theorem string_append_correct_witness:
  "s_wf \<lparr>storage = [NUL, NUL, NUL], sposition = 0\<rparr> \<and> ((10 :: nat) = 10 \<or> (10 :: nat) = 16) \<and>
   (\<exists>s'. append_num 42 (-1) 10 (CHR '' '') \<lparr>storage = [NUL, NUL, NUL], sposition = 0\<rparr> = Inr s' \<and> s_text s' = ''42'')"
proof -
  have "num_text 42 (-1) 10 (CHR '' '') = ''42''"
    by code_simp
  then show ?thesis
    using string_append_correct [of "\<lparr>storage = [NUL, NUL, NUL], sposition = 0\<rparr>" 10 "[]" 42 "-1" "CHR '' ''"]
    by (simp add: s_wf_def s_text_def) blast
qed


text \<open>
  \<^bold>\<open>C36.\<close> \<open>dirname\<close> splits a path at its last slash: the directory is what precedes it and
  the base, which has no slash, what follows; a path without a slash is all base.
\<close>

theorem dirname_correct:
  assumes "s_wf path" "NUL \<notin> set (s_text path)" "length mem = length (storage path)"
    "length (storage dir) = length mem" "length (storage base) = length mem"
  shows "\<exists>dir' base'. dirname mem path dir base = Inr (dir', base') \<and> CHR ''/'' \<notin> set (s_text base') \<and>
     (if CHR ''/'' \<in> set (s_text path) then s_text path = s_text dir' @ CHR ''/'' # s_text base'
      else s_text dir' = [] \<and> s_text base' = s_text path)"
proof -
  have c: "c_str path = s_text path" by (rule c_str_text [OF assms(1,2)])
  have l: "length (s_text path) < length mem" using assms(1,3) by (simp add: length_s_text s_wf_def)
  have n: "CHR ''/'' \<noteq> NUL" by (simp add: NUL_def)
  show ?thesis
  proof (cases "CHR ''/'' \<in> set (s_text path)")
    case True
    then obtain a b where ab: "s_text path = a @ CHR ''/'' # b" "CHR ''/'' \<notin> set b"
      using split_list_last by metis
    then show ?thesis
      using dirname_parts [of path mem "int (length a)" dir base] find_last_of_split [OF assms(1) ab n] assms c l True
      by (auto simp: nat_add_distrib)
  next
    case False
    then show ?thesis
      using dirname_parts [of path mem "-1" dir base] find_last_of_None [OF assms(1) n] assms c l by auto
  qed
qed

theorem dirname_correct_witness:
  "\<exists>dir' base'. dirname (replicate 8 NUL) \<lparr>storage = ''/a/b'' @ replicate 4 NUL, sposition = 4\<rparr>
       \<lparr>storage = replicate 8 NUL, sposition = 0\<rparr> \<lparr>storage = replicate 8 NUL, sposition = 0\<rparr> = Inr (dir', base') \<and>
     ''/a/b'' = s_text dir' @ CHR ''/'' # s_text base'"
  using dirname_correct [of "\<lparr>storage = ''/a/b'' @ replicate 4 NUL, sposition = 4\<rparr>" "replicate 8 NUL"
      "\<lparr>storage = replicate 8 NUL, sposition = 0\<rparr>" "\<lparr>storage = replicate 8 NUL, sposition = 0\<rparr>"]
  by (auto simp: s_wf_def s_text_def NUL_def nth_append)

end
