(* ===== verification/P2_Format.thy ===== *)
theory P2_Format
  imports P2_String
begin

text \<open>
  The formatter of \<open>libraries/support/format.h\<close>: a format string is scanned for \<open>%\<close> flags,
  each argument must match the next flag, and the text between flags is copied. The format
  string is the list of its characters without the terminating NUL; reading the terminator
  is reading the end of the list, and reading behind it is a fault.
\<close>

datatype fmt_arg = StrArg "char list" | NumArg nat

type_synonym fmt_state = "char list \<times> p2_string"

text \<open>Copies text up to the next flag; \<open>%%\<close> is a literal percent sign.\<close>

fun fmt_scan :: "char list \<Rightarrow> p2_string \<Rightarrow> fmt_state res" where
  "fmt_scan [] s = Inr ([], s)"
| "fmt_scan (c # cs) s =
     (if c = CHR ''%'' then
        (case cs of
           [] \<Rightarrow> Inr ([], s)
         | c' # cs' \<Rightarrow> if c' \<noteq> CHR ''%'' then Inr (c' # cs', s)
             else bindR (append_char c' s) (fmt_scan cs'))
      else bindR (append_char c s) (fmt_scan cs))"

definition fmt_expect :: "char list \<Rightarrow> char list \<Rightarrow> (char list \<times> char) res" where
  "fmt_expect values fmt =
     (case fmt of [] \<Rightarrow> Inl Panic | c # cs \<Rightarrow> if c \<in> set values then Inr (cs, c) else Inl Panic)"

definition fmt_peek_any :: "char list \<Rightarrow> char list \<Rightarrow> bool" where
  "fmt_peek_any values fmt = (case fmt of [] \<Rightarrow> False | c # _ \<Rightarrow> c \<in> set values)"

text \<open>Consuming the terminator moves behind the string, which the next read then leaves.\<close>

definition fmt_consume :: "char list \<Rightarrow> (char list \<times> char) res" where
  "fmt_consume fmt = (case fmt of [] \<Rightarrow> Inl OutOfBounds | c # cs \<Rightarrow> Inr (cs, c))"

fun number_loop :: "nat \<Rightarrow> char list \<Rightarrow> char list \<times> nat" where
  "number_loop n [] = ([], n)"
| "number_loop n (c # cs) = (if isdigit c then number_loop (n * 10 + (of_char c - 48)) cs else (c # cs, n))"

definition fmt_expect_positive_number :: "char list \<Rightarrow> (char list \<times> nat) res" where
  "fmt_expect_positive_number fmt =
     (case fmt of
        [] \<Rightarrow> Inl Panic
      | c # cs \<Rightarrow> if \<not> isdigit c then Inl Panic else Inr (number_loop (of_char c - 48) cs))"

definition expect_string :: "fmt_state \<Rightarrow> fmt_state res" where
  "expect_string st =
     bindR (fmt_scan (fst st) (snd st)) (\<lambda>(fmt, s).
     bindR (fmt_expect ''s'' fmt) (\<lambda>(fmt', _). Inr (fmt', s)))"

record number_traits =
  nt_width :: int
  nt_radix :: nat
  nt_fill :: char

definition expect_number :: "fmt_state \<Rightarrow> (fmt_state \<times> number_traits) res" where
  "expect_number st =
     bindR (fmt_scan (fst st) (snd st)) (\<lambda>(fmt, s).
     bindR (if \<not> fmt_peek_any ''lxdp'' fmt
            then bindR (fmt_consume fmt) (\<lambda>(fmt1, fill).
                 bindR (fmt_expect_positive_number fmt1) (\<lambda>(fmt2, width). Inr (fmt2, int width, fill)))
            else Inr (fmt, -1, CHR '' '')) (\<lambda>(fmt1, width, fill).
     bindR (fmt_expect ''lxdp'' fmt1) (\<lambda>(fmt2, c).
     if c = CHR ''p'' then Inr ((fmt2, s), \<lparr>nt_width = 8, nt_radix = 16, nt_fill = CHR ''0''\<rparr>)
     else if c = CHR ''l''
     then bindR (fmt_expect ''x'' fmt2) (\<lambda>(fmt3, _).
          Inr ((fmt3, s), \<lparr>nt_width = 16, nt_radix = 16, nt_fill = CHR ''0''\<rparr>))
     else if c = CHR ''x''
     then Inr ((fmt2, s), \<lparr>nt_width = (if width = -1 then 4 else width), nt_radix = 16, nt_fill = fill\<rparr>)
     else Inr ((fmt2, s), \<lparr>nt_width = width, nt_radix = 10, nt_fill = fill\<rparr>))))"

definition format_arg :: "fmt_arg \<Rightarrow> fmt_state \<Rightarrow> fmt_state res" where
  "format_arg a st =
     (case a of
        StrArg cs \<Rightarrow> bindR (expect_string st) (\<lambda>(fmt, s). bindR (append_str cs s) (\<lambda>s'. Inr (fmt, s')))
      | NumArg v \<Rightarrow> bindR (expect_number st) (\<lambda>((fmt, s), t).
          bindR (append_num v (nt_width t) (nt_radix t) (nt_fill t) s) (\<lambda>s'. Inr (fmt, s'))))"

text \<open>The variadic constructor: every argument in turn, then \<open>str()\<close> for the rest of the text.\<close>

fun format_args :: "fmt_arg list \<Rightarrow> fmt_state \<Rightarrow> fmt_state res" where
  "format_args [] st = fmt_scan (fst st) (snd st)"
| "format_args (a # as) st = bindR (format_arg a st) (format_args as)"

definition format :: "char list \<Rightarrow> char list \<Rightarrow> fmt_arg list \<Rightarrow> p2_string res" where
  "format mem fmt args =
     bindR (string_init mem) (\<lambda>s. bindR (format_args args (fmt, s)) (\<lambda>(_, s'). Inr s'))"

subsection \<open>Format strings as token lists\<close>

datatype conversion = ConvD | ConvX | ConvP | ConvLX

datatype token = Lit char | Percent | Str "char list" | Num "(char \<times> nat) option" conversion nat

fun conv_fmt :: "conversion \<Rightarrow> char list" where
  "conv_fmt ConvD = ''d''" | "conv_fmt ConvX = ''x''" | "conv_fmt ConvP = ''p''" | "conv_fmt ConvLX = ''lx''"

fun field_fmt :: "(char \<times> nat) option \<Rightarrow> char list" where
  "field_fmt None = []" | "field_fmt (Some (fill, width)) = fill # num_text width (-1) 10 fill"

fun token_fmt :: "token \<Rightarrow> char list" where
  "token_fmt (Lit c) = [c]"
| "token_fmt Percent = ''%%''"
| "token_fmt (Str cs) = ''%s''"
| "token_fmt (Num field conv v) = CHR ''%'' # field_fmt field @ conv_fmt conv"

fun token_args :: "token \<Rightarrow> fmt_arg list" where
  "token_args (Str cs) = [StrArg cs]" | "token_args (Num field conv v) = [NumArg v]" | "token_args _ = []"

fun num_out :: "(char \<times> nat) option \<Rightarrow> conversion \<Rightarrow> nat \<Rightarrow> char list" where
  "num_out field ConvP v = num_text v 8 16 (CHR ''0'')"
| "num_out field ConvLX v = num_text v 16 16 (CHR ''0'')"
| "num_out None ConvX v = num_text v 4 16 (CHR '' '')"
| "num_out (Some (fill, width)) ConvX v = num_text v (int width) 16 fill"
| "num_out None ConvD v = num_text v (-1) 10 (CHR '' '')"
| "num_out (Some (fill, width)) ConvD v = num_text v (int width) 10 fill"

fun token_out :: "token \<Rightarrow> char list" where
  "token_out (Lit c) = [c]"
| "token_out Percent = ''%''"
| "token_out (Str cs) = cs"
| "token_out (Num field conv v) = num_out field conv v"

text \<open>
  A literal is not a percent sign, a string argument has no NUL, and the fill character is
  neither a percent sign nor one of the conversion letters (the restriction the code states).
\<close>

fun token_ok :: "token \<Rightarrow> bool" where
  "token_ok (Lit c) \<longleftrightarrow> c \<noteq> CHR ''%''"
| "token_ok Percent \<longleftrightarrow> True"
| "token_ok (Str cs) \<longleftrightarrow> NUL \<notin> set cs"
| "token_ok (Num None conv v) \<longleftrightarrow> True"
| "token_ok (Num (Some (fill, width)) conv v) \<longleftrightarrow> fill \<notin> set ''lxdp%''"

lemma number_loop_digits:
  assumes "list_all isdigit ds" "cs = [] \<or> \<not> isdigit (hd cs)"
  shows "number_loop n (ds @ cs) = (cs, foldl (\<lambda>n c. n * 10 + (of_char c - 48)) n ds)"
  using assms(1)
proof (induction ds arbitrary: n)
  case Nil
  then show ?case using assms(2) by (cases cs) auto
qed simp

lemma width_number:
  assumes "cs = [] \<or> \<not> isdigit (hd cs)"
  shows "fmt_expect_positive_number (num_text w (-1) 10 c @ cs) = Inr (cs, w)"
proof -
  let ?t = "num_text w (-1) 10 c"
  have t: "list_all isdigit ?t" "foldl (\<lambda>n c. n * 10 + (of_char c - 48)) 0 ?t = w" using decimal_text [of w c] by auto
  have "length ?t = num_width 10 w" by (simp add: length_num_text)
  then obtain d ds where d: "?t = d # ds" by (cases ?t) (auto simp: num_width_def)
  have "number_loop (of_char d - 48) (ds @ cs) = (cs, w)"
    using number_loop_digits [of ds cs "of_char d - 48"] assms t by (simp add: d)
  then show ?thesis using t(1) by (simp add: d fmt_expect_positive_number_def)
qed

definition conv_traits :: "(char \<times> nat) option \<Rightarrow> conversion \<Rightarrow> number_traits" where
  "conv_traits field conv =
     (case conv of
        ConvP \<Rightarrow> \<lparr>nt_width = 8, nt_radix = 16, nt_fill = CHR ''0''\<rparr>
      | ConvLX \<Rightarrow> \<lparr>nt_width = 16, nt_radix = 16, nt_fill = CHR ''0''\<rparr>
      | ConvX \<Rightarrow> (case field of None \<Rightarrow> \<lparr>nt_width = 4, nt_radix = 16, nt_fill = CHR '' ''\<rparr>
          | Some (fill, width) \<Rightarrow> \<lparr>nt_width = int width, nt_radix = 16, nt_fill = fill\<rparr>)
      | ConvD \<Rightarrow> (case field of None \<Rightarrow> \<lparr>nt_width = -1, nt_radix = 10, nt_fill = CHR '' ''\<rparr>
          | Some (fill, width) \<Rightarrow> \<lparr>nt_width = int width, nt_radix = 10, nt_fill = fill\<rparr>))"

lemma num_out_traits:
  "num_out field conv v =
     num_text v (nt_width (conv_traits field conv)) (nt_radix (conv_traits field conv)) (nt_fill (conv_traits field conv))"
  by (cases conv; cases field) (auto simp: conv_traits_def)

lemma conv_not_digit: "\<not> isdigit (hd (conv_fmt conv @ rest))"
  by (cases conv) (simp_all add: isdigit_def of_char_Char)

lemma expect_number_token:
  assumes "token_ok (Num field conv v)"
  shows "expect_number (token_fmt (Num field conv v) @ rest, s) = Inr ((rest, s), conv_traits field conv)"
proof (cases field)
  case None
  then show ?thesis
    by (cases conv)
      (simp_all add: expect_number_def fmt_peek_any_def fmt_expect_def conv_traits_def)
next
  case (Some fw)
  obtain fill width where fw: "fw = (fill, width)" by fastforce
  have f: "fill \<noteq> CHR ''%''" "fill \<notin> set ''lxdp''" using assms Some fw by auto
  have n: "fmt_expect_positive_number (num_text width (-1) 10 fill @ conv_fmt conv @ rest) = Inr (conv_fmt conv @ rest, width)"
    by (rule width_number) (simp add: conv_not_digit)
  have "fmt_scan (token_fmt (Num field conv v) @ rest) s =
      Inr (fill # num_text width (-1) 10 fill @ conv_fmt conv @ rest, s)"
    using f by (simp add: Some fw)
  then show ?thesis using f n
    by (cases conv)
      (simp_all add: expect_number_def fmt_peek_any_def fmt_consume_def fmt_expect_def conv_traits_def Some fw)
qed

lemma expect_string_token: "expect_string (token_fmt (Str cs) @ rest, s) = Inr (rest, s)"
  by (simp add: expect_string_def fmt_expect_def)

lemma scan_literal:
  assumes "token_ok t" "t = Lit c \<or> (t = Percent \<and> c = CHR ''%'')"
  shows "fmt_scan (token_fmt t @ rest) s = bindR (append_char c s) (fmt_scan rest)"
  using assms by auto

lemma format_literal:
  assumes "token_ok t" "t = Lit c \<or> (t = Percent \<and> c = CHR ''%'')"
  shows "format_args as (token_fmt t @ rest, s) = bindR (append_char c s) (\<lambda>s'. format_args as (rest, s'))"
proof (cases as)
  case Nil
  then show ?thesis using scan_literal [OF assms] by simp
next
  case (Cons a as')
  then show ?thesis
    by (cases a; cases "append_char c s")
      (auto simp: format_arg_def expect_string_def expect_number_def scan_literal [OF assms] bindR_assoc)
qed

lemma format_tokens:
  assumes "\<forall>t \<in> set ts. token_ok t" "s_wf s"
    "sposition s + length (concat (map token_out ts)) < length (storage s)"
  shows "\<exists>s'. format_args (concat (map token_args ts)) (concat (map token_fmt ts), s) = Inr ([], s') \<and> s_wf s' \<and>
     s_text s' = s_text s @ concat (map token_out ts)"
  using assms
proof (induction ts arbitrary: s)
  case (Cons t ts)
  let ?as = "concat (map token_args ts)" and ?fs = "concat (map token_fmt ts)"
  have step: ?case if s1: "format_args (token_args t @ ?as) (token_fmt t @ ?fs, s) = format_args ?as (?fs, s1)"
    "s_wf s1" "s_text s1 = s_text s @ token_out t" "length (storage s1) = length (storage s)"
    "sposition s1 = sposition s + length (token_out t)" for s1
    using Cons.IH [of s1] Cons.prems s1 by auto
  have lit: ?case if c: "t = Lit c \<or> (t = Percent \<and> c = CHR ''%'')" for c
  proof -
    have "token_out t = [c]" "token_args t = []" using c by auto
    then show ?thesis
      using step append_char_ok [of s c] format_literal [OF _ c, of ?as ?fs s] Cons.prems by fastforce
  qed
  show ?case
  proof (cases t)
    case (Lit c)
    then show ?thesis using lit [of c] by blast
  next
    case Percent
    then show ?thesis using lit [of "CHR ''%''"] by blast
  next
    case (Str cs)
    have tw: "takeWhile (\<lambda>c. c \<noteq> NUL) cs = cs" using Cons.prems(1) Str by (auto simp: takeWhile_eq_all_conv)
    obtain s1 where "append_str cs s = Inr s1" "s_wf s1" "s_text s1 = s_text s @ cs"
      "length (storage s1) = length (storage s)" "sposition s1 = sposition s + length cs"
      using append_str_ok [OF Cons.prems(2), of cs, unfolded tw] Cons.prems(3) Str by auto
    then show ?thesis
      using expect_string_token [of cs ?fs s] by (intro step [of s1]) (auto simp: Str format_arg_def)
  next
    case (Num field conv v)
    let ?t = "conv_traits field conv"
    have r: "1 < nt_radix ?t" by (cases conv; cases field) (auto simp: conv_traits_def)
    obtain s1 where "append_num v (nt_width ?t) (nt_radix ?t) (nt_fill ?t) s = Inr s1" "s_wf s1"
      "s_text s1 = s_text s @ token_out t" "length (storage s1) = length (storage s)"
      "sposition s1 = sposition s + length (token_out t)"
      using append_num_ok [OF Cons.prems(2) r, of v "nt_width ?t" "nt_fill ?t"] Cons.prems(3) Num
      by (auto simp: num_out_traits)
    then show ?thesis
      using expect_number_token [of field conv v ?fs s] Cons.prems(1)
      by (intro step [of s1]) (auto simp: Num format_arg_def)
  qed
qed simp

subsection \<open>Properties\<close>

text \<open>
  \<^bold>\<open>C37.\<close> Formatting does what the format string says: for a format written from literal
  characters, \<open>%%\<close>, \<open>%s\<close> and number flags with an optional fill and width, and arguments
  matching it, the result is the concatenation of the literals and the rendered arguments, provided it
  fits.
\<close>

theorem format_correct:
  assumes "\<forall>t \<in> set ts. token_ok t" "length (concat (map token_out ts)) < length mem"
  shows "\<exists>s. format mem (concat (map token_fmt ts)) (concat (map token_args ts)) = Inr s \<and> s_wf s \<and>
     s_text s = concat (map token_out ts)"
proof -
  have m: "0 < length mem" using assms(2) by auto
  let ?s = "\<lparr>storage = mem[0 := NUL], sposition = 0\<rparr>"
  have "s_wf ?s" "s_text ?s = []" using m by (auto simp: s_wf_def s_text_def)
  then show ?thesis
    using format_tokens [OF assms(1), of ?s] assms(2) m by (auto simp: format_def string_init_def)
qed

theorem format_correct_witness:
  "\<exists>s. format (replicate 20 NUL) ''n=%02d%%'' [NumArg 7] = Inr s \<and> s_text s = ''n=07%''"
proof -
  let ?ts = "[Lit (CHR ''n''), Lit (CHR ''=''), Num (Some (CHR ''0'', 2)) ConvD 7, Percent]"
  have f: "concat (map token_fmt ?ts) = ''n=%02d%%''" by code_simp
  have o: "concat (map token_out ?ts) = ''n=07%''" by code_simp
  have "\<forall>t \<in> set ?ts. token_ok t" by simp
  then show ?thesis using format_correct [of ?ts "replicate 20 NUL"] unfolding f o by auto
qed

end
