(* ===== verification/TCP_Queues.thy ===== *)
theory TCP_Queues
  imports Ring_Buffer Pool "HOL-Library.Multiset"
begin

text \<open>
  The two queues of a TCP connection: \<open>tcp/receive_queue.cc\<close>, which puts arriving segments
  back into order, and \<open>tcp/send_queue.cc\<close>, which keeps sent segments until they are
  acknowledged. Sequence numbers are 32-bit words and compare as the code compares them,
  without regard to wrap-around; the properties say for which numbers that is enough.
\<close>

subsection \<open>The receive queue\<close>

record recv_segment =
  rs_flags :: "16 word"
  rs_seqnbr :: "32 word"
  rs_length :: nat

record receive_queue =
  rq_segments :: "recv_segment pool"
  rq_data :: ring_buffer
  rq_cursor :: "32 word"

definition receive_queue_init :: receive_queue where
  "receive_queue_init = \<lparr>rq_segments = fixed_pool 200, rq_data = mk_queue 0 65535, rq_cursor = 0\<rparr>"

definition rq_insert :: "recv_segment \<Rightarrow> byte list \<Rightarrow> receive_queue \<Rightarrow> (receive_queue \<times> bool) res" where
  "rq_insert segment payload q =
     (let window = of_int (rb_capacity (rq_data q)) :: 32 word
      in if full (rq_segments q) then Inr (q, False)
         else if (if 0xFFFFFFFF - rq_cursor q < window
                  then rs_seqnbr segment < rq_cursor q \<and> rq_cursor q + window \<le> rs_seqnbr segment
                  else rs_seqnbr segment < rq_cursor q)
         then Inr (q, False)
         else
           bindR (rb_write payload (sint (rs_seqnbr segment - rq_cursor q)) (rq_data q)) (\<lambda>(d, ok).
           let q1 = q\<lparr>rq_data := d\<rparr>
           in if \<not> ok then Inr (q1, False)
              else bindR (emplace_anywhere segment (rq_segments q1)) (\<lambda>(p, idx).
                   bindR (modify idx (\<lambda>s. s\<lparr>rs_length := length payload\<rparr>) p) (\<lambda>p'.
                   Inr (q1\<lparr>rq_segments := p'\<rparr>, True)))))"

fun front_loop :: "recv_segment pool \<Rightarrow> nat list \<Rightarrow> 32 word \<Rightarrow> nat \<Rightarrow> nat res" where
  "front_loop p [] lowest_seq lowest_it = Inr lowest_it"
| "front_loop p (it # its) lowest_seq lowest_it =
     bindR (get p it) (\<lambda>seg.
     if rs_seqnbr seg < lowest_seq then front_loop p its (rs_seqnbr seg) it
     else front_loop p its lowest_seq lowest_it)"

definition find_front_segment :: "receive_queue \<Rightarrow> nat res" where
  "find_front_segment q =
     (let p = rq_segments q
      in bindR (front_loop p (iter_from p (pool_begin p)) 0xFFFFFFFF (watermark p)) (\<lambda>it.
         assertR (it \<noteq> watermark p) (Inr it)))"

definition rq_read_one :: "nat \<Rightarrow> receive_queue \<Rightarrow> (receive_queue \<times> recv_segment \<times> byte list) res" where
  "rq_read_one len q =
     bindR (find_front_segment q) (\<lambda>front.
     bindR (get (rq_segments q) front) (\<lambda>seg.
     assertR (rs_seqnbr seg = rq_cursor q)
      (bindR (read_front (int (min len (rs_length seg))) (rq_data q)) (\<lambda>(d, bytes).
       assertR (length bytes = rs_length seg)
        (bindR (erase front (rq_segments q)) (\<lambda>p.
         Inr (q\<lparr>rq_segments := p, rq_data := d, rq_cursor := rq_cursor q + of_nat (rs_length seg)\<rparr>, seg, bytes)))))))"

definition rq_readable_until :: "receive_queue \<Rightarrow> 32 word res" where
  "rq_readable_until q =
     (if pcount (rq_segments q) = 0 then Inr (rq_cursor q)
      else bindR (find_front_segment q) (\<lambda>front.
           bindR (get (rq_segments q) front) (\<lambda>seg.
           Inr (if rs_seqnbr seg = rq_cursor q then rq_cursor q + of_nat (rs_length seg) else rq_cursor q))))"

definition rq_has_readable :: "receive_queue \<Rightarrow> bool res" where
  "rq_has_readable q =
     (if pcount (rq_segments q) = 0 then Inr False
      else bindR (find_front_segment q) (\<lambda>front.
           bindR (get (rq_segments q) front) (\<lambda>seg. Inr (rs_seqnbr seg = rq_cursor q))))"

definition rq_reset :: "32 word \<Rightarrow> receive_queue \<Rightarrow> receive_queue" where
  "rq_reset seqnbr q = q\<lparr>rq_cursor := seqnbr, rq_data := rb_clear (rq_data q), rq_segments := clear (rq_segments q)\<rparr>"

subsection \<open>The send queue\<close>

record send_segment =
  ss_flags :: "16 word"
  ss_seqnbr :: "32 word"
  ss_data_length :: nat
  ss_send_length :: nat

record send_queue =
  sq_ack_pos :: "32 word"
  sq_write_pos :: "32 word"
  sq_read_pos :: nat
  sq_wndsz :: "32 word"
  sq_data :: ring_buffer
  sq_segments :: "send_segment queue"

definition sq_reset :: "32 word \<Rightarrow> send_queue \<Rightarrow> send_queue" where
  "sq_reset seqnbr q = q\<lparr>sq_read_pos := 0, sq_ack_pos := seqnbr, sq_write_pos := seqnbr,
     sq_data := rb_clear (sq_data q), sq_segments := q_clear (sq_segments q), sq_wndsz := 0xFFFF\<rparr>"

definition send_queue_init :: send_queue where
  "send_queue_init = sq_reset 0 \<lparr>sq_ack_pos = 0, sq_write_pos = 0, sq_read_pos = 0, sq_wndsz = 0xFFFF,
     sq_data = mk_queue 0 65535,
     sq_segments = mk_queue \<lparr>ss_flags = 0, ss_seqnbr = 0, ss_data_length = 0, ss_send_length = 0\<rparr> 100\<rparr>"

text \<open>A null \<open>data\<close> pointer is \<open>None\<close>; otherwise the list has \<open>data_length\<close> bytes.\<close>

definition sq_write_back ::
  "send_segment \<Rightarrow> byte list option \<Rightarrow> nat \<Rightarrow> nat \<Rightarrow> send_queue \<Rightarrow> (send_queue \<times> bool) res" where
  "sq_write_back segment payload data_length send_length q =
     (if rb_remaining (sq_data q) < int data_length then Inr (q, False)
      else if ss_seqnbr segment \<noteq> sq_write_pos q then Inr (q, False)
      else
        bindR (case payload of
                 Some bs \<Rightarrow> bindR (rb_write bs (-1) (sq_data q)) (\<lambda>(d, _). Inr d)
               | None \<Rightarrow> Inr (sq_data q)) (\<lambda>d.
        bindR (push_back (segment\<lparr>ss_data_length := data_length, ss_send_length := send_length\<rparr>)
                (sq_segments q)) (\<lambda>(segs, ok).
        Inr (q\<lparr>sq_data := d, sq_write_pos := sq_write_pos q + of_nat data_length, sq_segments := segs\<rparr>, ok))))"

text \<open>The result is empty where the code returns 0 and leaves the caller's segment untouched.\<close>

definition sq_read_one :: "nat \<Rightarrow> send_queue \<Rightarrow> (send_queue \<times> (send_segment \<times> byte list) option) res" where
  "sq_read_one len q =
     (if q_size (sq_segments q) = 0 then Inr (q, None)
      else bindR (item_get (s32 (u32 (q_begin (sq_segments q) + int (sq_read_pos q)))) (sq_segments q)) (\<lambda>seg.
           if sq_ack_pos q + sq_wndsz q < ss_seqnbr seg + of_nat (ss_send_length seg) then Inr (q, None)
           else bindR (peek (sint (ss_seqnbr seg - sq_ack_pos q)) (int (min (ss_data_length seg) len)) (sq_data q)) (\<lambda>bytes.
                assertR (length bytes = ss_data_length seg)
                 (Inr (q\<lparr>sq_read_pos := Suc (sq_read_pos q)\<rparr>, Some (seg, bytes))))))"

definition sq_has_readable :: "send_queue \<Rightarrow> bool" where
  "sq_has_readable q \<longleftrightarrow> int (sq_read_pos q) < u32 (q_size (sq_segments q))"

definition sq_set_window :: "32 word \<Rightarrow> send_queue \<Rightarrow> send_queue" where
  "sq_set_window wndsz q = q\<lparr>sq_wndsz := wndsz\<rparr>"

text \<open>One turn of the loop of \<open>ack\<close>; empty when the loop is left.\<close>

definition ack_step :: "32 word \<Rightarrow> send_queue \<Rightarrow> send_queue option res" where
  "ack_step new_ack_pos q =
     (if sq_ack_pos q < new_ack_pos
      then assertR (0 < q_size (sq_segments q))
       (bindR (q_front (sq_segments q)) (\<lambda>seg.
        if new_ack_pos < ss_seqnbr seg + of_nat (ss_data_length seg) then Inr None
        else bindR (consume (int (ss_data_length seg)) (sq_data q)) (\<lambda>(d, _).
             bindR (pop_front (sq_segments q)) (\<lambda>(segs, _).
             Inr (Some (q\<lparr>sq_data := d, sq_segments := segs,
               sq_read_pos := (if 0 < sq_read_pos q then sq_read_pos q - 1 else sq_read_pos q),
               sq_ack_pos := ss_seqnbr seg + of_nat (ss_data_length seg)\<rparr>))))))
      else Inr None)"

lemma ack_step_size:
  "ack_step n q = Inr (Some q') \<Longrightarrow> 0 < q_size (sq_segments q) \<and> q_size (sq_segments q') = q_size (sq_segments q) - 1"
  by (auto simp: ack_step_def pop_front_def q_size_def split: if_splits)

function sq_ack :: "32 word \<Rightarrow> send_queue \<Rightarrow> send_queue res" where
  "sq_ack new_ack_pos q =
     (case ack_step new_ack_pos q of
        Inl e \<Rightarrow> Inl e
      | Inr None \<Rightarrow> Inr q
      | Inr (Some q') \<Rightarrow> sq_ack new_ack_pos q')"
  by pat_completeness auto

termination sq_ack
  by (relation "measure (\<lambda>(n, q). nat (q_size (sq_segments q)))") (auto dest: ack_step_size)

declare sq_ack.simps [simp del]

subsection \<open>The front segment\<close>

definition seq_at :: "recv_segment pool \<Rightarrow> nat \<Rightarrow> 32 word" where
  "seq_at p i = rs_seqnbr (the (at p i))"

lemma front_loop_spec:
  assumes "pool_inv p" "set its \<subseteq> dom (at p)"
  shows "\<exists>it. front_loop p its lo li = Inr it \<and>
    (it = li \<and> (\<forall>j \<in> set its. lo \<le> seq_at p j) \<or>
     it \<in> set its \<and> seq_at p it < lo \<and> (\<forall>j \<in> set its. seq_at p it \<le> seq_at p j))"
  using assms(2)
proof (induction its arbitrary: lo li)
  case (Cons i its)
  then obtain seg where seg: "at p i = Some seg" by auto
  have g: "get p i = Inr seg" "seq_at p i = rs_seqnbr seg" using seg get_at [OF assms(1), of i] by (auto simp: seq_at_def)
  show ?case
  proof (cases "rs_seqnbr seg < lo")
    case True
    obtain it where "front_loop p its (rs_seqnbr seg) i = Inr it"
      "it = i \<and> (\<forall>j \<in> set its. rs_seqnbr seg \<le> seq_at p j) \<or>
       it \<in> set its \<and> seq_at p it < rs_seqnbr seg \<and> (\<forall>j \<in> set its. seq_at p it \<le> seq_at p j)"
      using Cons.IH [of "rs_seqnbr seg" i] Cons.prems by auto
    then show ?thesis using True g by (intro exI [of _ it]) auto
  next
    case False
    obtain it where "front_loop p its lo li = Inr it"
      "it = li \<and> (\<forall>j \<in> set its. lo \<le> seq_at p j) \<or>
       it \<in> set its \<and> seq_at p it < lo \<and> (\<forall>j \<in> set its. seq_at p it \<le> seq_at p j)"
      using Cons.IH [of lo li] Cons.prems by auto
    then show ?thesis using False g by (intro exI [of _ it]) auto
  qed
qed simp

lemma iter_dom: "pool_inv p \<Longrightarrow> set (iter_from p (pool_begin p)) = dom (at p)"
  by (auto simp: iter_indices valid_at dom_def) (auto simp: at_def valid_def split: if_splits)

lemma find_front_least:
  assumes "pool_inv (rq_segments q)" "at (rq_segments q) i = Some seg" "rs_seqnbr seg < 0xFFFFFFFF"
  shows "\<exists>k seg'. find_front_segment q = Inr k \<and> at (rq_segments q) k = Some seg' \<and>
    (\<forall>j s. at (rq_segments q) j = Some s \<longrightarrow> rs_seqnbr seg' \<le> rs_seqnbr s)"
proof -
  let ?p = "rq_segments q"
  note d = iter_dom [OF assms(1)]
  obtain k where k: "front_loop ?p (iter_from ?p (pool_begin ?p)) 0xFFFFFFFF (watermark ?p) = Inr k"
    "k = watermark ?p \<and> (\<forall>j \<in> dom (at ?p). 0xFFFFFFFF \<le> seq_at ?p j) \<or>
     k \<in> dom (at ?p) \<and> seq_at ?p k < 0xFFFFFFFF \<and> (\<forall>j \<in> dom (at ?p). seq_at ?p k \<le> seq_at ?p j)"
    using front_loop_spec [OF assms(1) equalityD1 [OF d], of "0xFFFFFFFF" "watermark ?p"] d by auto
  have "seq_at ?p i < 0xFFFFFFFF" "i \<in> dom (at ?p)" using assms(2,3) by (auto simp: seq_at_def)
  then have "k \<in> dom (at ?p)" "\<forall>j \<in> dom (at ?p). seq_at ?p k \<le> seq_at ?p j" using k(2) by force+
  then obtain seg' where s: "at ?p k = Some seg'" "\<And>j s. at ?p j = Some s \<Longrightarrow> rs_seqnbr seg' \<le> rs_seqnbr s"
    by (fastforce simp: seq_at_def dom_def)
  moreover have "k \<noteq> watermark ?p" using s(1) by (auto simp: at_def valid_def split: if_splits)
  ultimately show ?thesis using k(1) by (auto simp: find_front_segment_def Let_def)
qed

subsection \<open>A queue that holds parts of a stream\<close>

text \<open>
  The remote's byte stream is a function from sequence numbers to bytes. The invariant
  says that every queued segment at or after the cursor has its bytes in the ring, at its
  distance from the cursor.
\<close>

definition stream :: "(nat \<Rightarrow> byte) \<Rightarrow> nat \<Rightarrow> nat \<Rightarrow> byte list" where
  "stream B k n = map B [k..<k + n]"

definition in_ring :: "(nat \<Rightarrow> byte) \<Rightarrow> nat \<Rightarrow> byte list \<Rightarrow> recv_segment \<Rightarrow> bool" where
  "in_ring B c bs seg \<longleftrightarrow> (c \<le> unat (rs_seqnbr seg) \<longrightarrow> 0 < rs_length seg \<longrightarrow>
     unat (rs_seqnbr seg) - c + rs_length seg \<le> length bs \<and>
     (\<forall>k < rs_length seg. bs ! (unat (rs_seqnbr seg) - c + k) = B (unat (rs_seqnbr seg) + k)))"

definition rq_wf :: "receive_queue \<Rightarrow> bool" where
  "rq_wf q \<longleftrightarrow> pool_inv (rq_segments q) \<and> capacity (rq_segments q) = 200 \<and>
     rb_inv (rq_data q) \<and> q_cap (rq_data q) = 65535"

definition rq_ok :: "(nat \<Rightarrow> byte) \<Rightarrow> receive_queue \<Rightarrow> bool" where
  "rq_ok B q \<longleftrightarrow> rq_wf q \<and>
     (\<forall>i seg. at (rq_segments q) i = Some seg \<longrightarrow> in_ring B (unat (rq_cursor q)) (q_list (rq_data q)) seg)"

lemma length_stream [simp]: "length (stream B k n) = n"
  by (simp add: stream_def)

lemma stream_nth [simp]: "i < n \<Longrightarrow> stream B k n ! i = B (k + i)"
  by (simp add: stream_def)

lemma stream_append: "stream B k (m + n) = stream B k m @ stream B (k + m) n"
  by (rule nth_equalityI) (auto simp: nth_append)

lemma nth_overlay:
  "bs \<noteq> [] \<Longrightarrow> k < max (n + length bs) (length xs) \<Longrightarrow>
   overlay n bs xs ! k = (if n \<le> k \<and> k < n + length bs then bs ! (k - n) else if k < length xs then xs ! k else 0)"
  by (auto simp: overlay_def nth_append pad_def min_def)

lemma in_ring_overlay:
  assumes "in_ring B c xs seg" "c \<le> n" "bs = stream B n (length bs)"
  shows "in_ring B c (overlay (n - c) bs xs) seg"
proof (cases "bs = []")
  case False
  have b: "bs ! j = B (n + j)" if "j < length bs" for j using that assms(3) by (metis stream_nth)
  show ?thesis unfolding in_ring_def
  proof (intro impI)
    let ?s = "unat (rs_seqnbr seg)" and ?l = "rs_length seg"
    assume c: "c \<le> ?s" "0 < ?l"
    then have r: "?s - c + ?l \<le> length xs" "\<And>k. k < ?l \<Longrightarrow> xs ! (?s - c + k) = B (?s + k)"
      using assms(1) by (auto simp: in_ring_def)
    have "overlay (n - c) bs xs ! (?s - c + k) = B (?s + k)" if k: "k < ?l" for k
    proof -
      define p where "p = ?s - c + k"
      have p: "p < length xs" "xs ! p = B (?s + k)" using r(1) r(2) [OF k] k by (auto simp: p_def)
      have "bs ! (p - (n - c)) = B (?s + k)" if "n - c \<le> p" "p < n - c + length bs"
      proof -
        have "n + (p - (n - c)) = ?s + k" using that c(1) assms(2) by (simp add: p_def)
        moreover have "p - (n - c) < length bs" using that by linarith
        ultimately show ?thesis using b [of "p - (n - c)"] by simp
      qed
      then show ?thesis using nth_overlay [OF False, of p "n - c" xs] p by (auto simp: p_def [symmetric])
    qed
    then show "?s - c + ?l \<le> length (overlay (n - c) bs xs) \<and>
        (\<forall>k < ?l. overlay (n - c) bs xs ! (?s - c + k) = B (?s + k))"
      using r(1) length_overlay [OF False, of "n - c" xs] by auto
  qed
qed (use assms(1) in simp)

lemma in_ring_new:
  assumes "c \<le> unat (rs_seqnbr seg)" "rs_length seg = length bs" "bs = stream B (unat (rs_seqnbr seg)) (length bs)"
  shows "in_ring B c (overlay (unat (rs_seqnbr seg) - c) bs xs) seg"
proof (cases "bs = []")
  case False
  have b: "bs ! j = B (unat (rs_seqnbr seg) + j)" if "j < length bs" for j using that assms(3) by (metis stream_nth)
  show ?thesis unfolding in_ring_def assms(2)
    using length_overlay [OF False, of "unat (rs_seqnbr seg) - c" xs] b
      nth_overlay [OF False, of _ "unat (rs_seqnbr seg) - c" xs] by auto
qed (use assms in \<open>simp add: in_ring_def\<close>)

lemma sint_small: "unat (w :: 32 word) < 2147483648 \<Longrightarrow> sint w = int (unat w)"
proof -
  assume a: "unat w < 2147483648"
  have "uint w < 2147483648" using a by (metis int_nat_eq of_nat_less_iff of_nat_numeral unsigned_greater_eq uint_nat)
  then have "signed_take_bit 31 (uint w) = uint w"
    by (intro signed_take_bit_int_eq_self) (auto intro: order_trans [OF _ unsigned_greater_eq])
  then show ?thesis by (simp add: sint_uint)
qed

lemma unat_diff: "(a :: 32 word) \<le> b \<Longrightarrow> unat (b - a) = unat b - unat a"
  by (rule unat_sub)

text \<open>The window does not reach the end of the sequence space.\<close>

definition far_from_wrap :: "receive_queue \<Rightarrow> bool" where
  "far_from_wrap q \<longleftrightarrow> unat (rq_cursor q) + 65535 < 4294967296"

lemma rq_insert_cases:
  assumes "rq_wf q" "far_from_wrap q"
    and "unat (rs_seqnbr seg) + length bs < unat (rq_cursor q) + 2147483648"
  shows "rq_insert seg bs q =
    (if full (rq_segments q) \<or> rs_seqnbr seg < rq_cursor q \<or>
        65535 < unat (rs_seqnbr seg) - unat (rq_cursor q) + length bs
     then Inr (q, False)
     else bindR (rb_write bs (int (unat (rs_seqnbr seg) - unat (rq_cursor q))) (rq_data q)) (\<lambda>(d, ok).
          bindR (emplace_anywhere seg (rq_segments q)) (\<lambda>(p, idx).
          bindR (modify idx (\<lambda>s. s\<lparr>rs_length := length bs\<rparr>) p) (\<lambda>p'.
          Inr (q\<lparr>rq_data := d, rq_segments := p'\<rparr>, True)))))"
proof -
  let ?s = "rs_seqnbr seg" and ?c = "rq_cursor q"
  have w: "rb_inv (rq_data q)" "q_cap (rq_data q) = 65535" using assms(1) by (auto simp: rq_wf_def)
  have cap: "rb_capacity (rq_data q) = 65535" using rb_inv_bounds(1) [OF w(1)] w(2) by simp
  have "unat (0xFFFFFFFF - ?c) = 4294967295 - unat ?c"
    by (subst unat_sub) (auto simp: word_le_nat_alt unsigned_less [of ?c, where 'a = nat, simplified] intro: less_Suc_eq_le [THEN iffD1])
  then have nw: "\<not> 0xFFFFFFFF - ?c < (65535 :: 32 word)"
    using assms(2) by (simp add: word_less_nat_alt far_from_wrap_def)
  show ?thesis
  proof (cases "?s < ?c")
    case False
    then have "unat (?s - ?c) = unat ?s - unat ?c" "unat ?c \<le> unat ?s" by (auto simp: unat_sub word_le_nat_alt not_less)
    moreover have "unat ?s - unat ?c < 2147483648" using assms(3) by linarith
    ultimately have off: "sint (?s - ?c) = int (unat ?s - unat ?c)" using sint_small [of "?s - ?c"] by simp
    show ?thesis
    proof (cases "65535 < unat ?s - unat ?c + length bs")
      case True
      have "rb_write bs (int (unat ?s - unat ?c)) (rq_data q) = Inr (rq_data q, False)"
        using True w assms(3) \<open>unat ?c \<le> unat ?s\<close> by (intro rb_write_full) auto
      then show ?thesis using True False nw unfolding rq_insert_def Let_def cap off by simp
    next
      case fits: False
      obtain d where "rb_write bs (int (unat ?s - unat ?c)) (rq_data q) = Inr (d, True)"
        using rb.wr_room [OF w(1), of "unat ?s - unat ?c" bs] fits w(2) by auto
      then show ?thesis using fits False nw unfolding rq_insert_def Let_def cap off by simp
    qed
  qed (use nw in \<open>simp add: rq_insert_def Let_def cap\<close>)
qed

lemma rq_insert_stream:
  assumes ok: "rq_ok B q" and far: "far_from_wrap q"
    and bs: "bs = stream B (unat (rs_seqnbr seg)) (length bs)"
    and range: "unat (rs_seqnbr seg) + length bs < unat (rq_cursor q) + 2147483648"
  shows "\<exists>q' b. rq_insert seg bs q = Inr (q', b) \<and> rq_ok B q' \<and> rq_cursor q' = rq_cursor q \<and>
    b = (\<not> full (rq_segments q) \<and> rq_cursor q \<le> rs_seqnbr seg \<and>
         unat (rs_seqnbr seg) - unat (rq_cursor q) + length bs \<le> 65535) \<and>
    (if b then \<exists>i. at (rq_segments q) i = None \<and>
        at (rq_segments q') = (at (rq_segments q))(i \<mapsto> seg\<lparr>rs_length := length bs\<rparr>) else q' = q)"
proof (cases "full (rq_segments q) \<or> rs_seqnbr seg < rq_cursor q \<or>
        65535 < unat (rs_seqnbr seg) - unat (rq_cursor q) + length bs")
  case True
  then show ?thesis using rq_insert_cases [OF _ far range] ok by (auto simp: rq_ok_def)
next
  case False
  let ?n = "unat (rs_seqnbr seg) - unat (rq_cursor q)"
  have w: "pool_inv (rq_segments q)" "capacity (rq_segments q) = 200" "rb_inv (rq_data q)" "q_cap (rq_data q) = 65535"
    using ok by (auto simp: rq_ok_def rq_wf_def)
  have c: "unat (rq_cursor q) \<le> unat (rs_seqnbr seg)" using False by (auto simp: not_less word_le_nat_alt)
  obtain d where d: "rb_write bs (int ?n) (rq_data q) = Inr (d, True)" "rb_inv d" "q_cap d = 65535"
    "q_list d = overlay ?n bs (q_list (rq_data q))"
    using rb.wr_room [OF w(3), of ?n bs] False w(4) by auto
  obtain p i where e: "emplace_anywhere seg (rq_segments q) = Inr (p, i)"
    using pl.alloc_total [OF w(1), of seg] full_iff [OF w(1)] False by fastforce
  note pe = pl.alloc_step [OF w(1) e]
  obtain p' where m: "modify i (\<lambda>s. s\<lparr>rs_length := length bs\<rparr>) p = Inr p'" "pool_inv p'" "capacity p' = 200"
    "at p' = (at (rq_segments q))(i \<mapsto> seg\<lparr>rs_length := length bs\<rparr>)"
    using modify_step [of p i seg "\<lambda>s. s\<lparr>rs_length := length bs\<rparr>"] pe w(2) by auto
  define q' where "q' = q\<lparr>rq_data := d, rq_segments := p'\<rparr>"
  have r: "rq_insert seg bs q = Inr (q', True)"
    using rq_insert_cases [OF _ far range] ok False d(1) e m(1) by (simp add: rq_ok_def q'_def)
  have "in_ring B (unat (rq_cursor q)) (q_list d) s" if "at p' j = Some s" for j s
  proof (cases "j = i")
    case True
    then have s: "s = seg\<lparr>rs_length := length bs\<rparr>" using that m(4) by simp
    show ?thesis unfolding d(4)
      using in_ring_new [of "unat (rq_cursor q)" s bs B "q_list (rq_data q)"] c bs by (simp add: s)
  next
    case other: False
    then have "in_ring B (unat (rq_cursor q)) (q_list (rq_data q)) s"
      using that m(4) ok by (auto simp: rq_ok_def)
    then show ?thesis unfolding d(4) by (rule in_ring_overlay [OF _ c bs])
  qed
  then have "rq_ok B q'" using m(2,3) d(2,3) by (auto simp: rq_ok_def rq_wf_def q'_def)
  then show ?thesis using r False pe m(4)
    by (intro exI [of _ q'] exI [of _ True]) (auto simp: q'_def not_less word_le_nat_alt)
qed

lemma rq_has_readable_at:
  assumes "pool_inv (rq_segments q)" "rq_has_readable q = Inr b"
  shows "b \<longleftrightarrow> (\<exists>i seg. find_front_segment q = Inr i \<and> at (rq_segments q) i = Some seg \<and>
     rs_seqnbr seg = rq_cursor q \<and> pcount (rq_segments q) \<noteq> 0)"
  using assms by (auto simp: rq_has_readable_def get_at split: if_splits option.splits)

lemma front_is_least:
  assumes "pool_inv (rq_segments q)" "find_front_segment q = Inr i" "at (rq_segments q) j = Some s"
  shows "\<exists>seg. at (rq_segments q) i = Some seg \<and> rs_seqnbr seg \<le> rs_seqnbr s"
proof (cases "\<exists>k seg. at (rq_segments q) k = Some seg \<and> rs_seqnbr seg < 0xFFFFFFFF")
  case True
  then show ?thesis using find_front_least [OF assms(1)] assms(2,3) by fastforce
next
  case False
  let ?p = "rq_segments q"
  have "0xFFFFFFFF \<le> seq_at ?p k" if "k \<in> dom (at ?p)" for k using that False by (fastforce simp: seq_at_def)
  then have "front_loop ?p (iter_from ?p (pool_begin ?p)) 0xFFFFFFFF (watermark ?p) = Inr (watermark ?p)"
    using front_loop_spec [OF assms(1) equalityD1 [OF iter_dom [OF assms(1)]], of "0xFFFFFFFF" "watermark ?p"]
      iter_dom [OF assms(1)] by (auto simp: not_less [symmetric])
  then show ?thesis using assms(2) by (simp add: find_front_segment_def Let_def)
qed

lemma rq_read_stream:
  assumes ok: "rq_ok B q" and far: "far_from_wrap q" and r: "rq_has_readable q = Inr True"
  shows "\<exists>i seg. at (rq_segments q) i = Some seg \<and> rs_seqnbr seg = rq_cursor q \<and>
    (if rs_length seg \<le> len
     then \<exists>q'. rq_read_one len q = Inr (q', seg, stream B (unat (rq_cursor q)) (rs_length seg)) \<and> rq_ok B q' \<and>
       unat (rq_cursor q') = unat (rq_cursor q) + rs_length seg \<and> at (rq_segments q') = (at (rq_segments q))(i := None)
     else rq_read_one len q = Inl Panic)"
proof -
  have w: "pool_inv (rq_segments q)" "capacity (rq_segments q) = 200" "rb_inv (rq_data q)" "q_cap (rq_data q) = 65535"
    using ok by (auto simp: rq_ok_def rq_wf_def)
  obtain i seg where i: "find_front_segment q = Inr i" "at (rq_segments q) i = Some seg" "rs_seqnbr seg = rq_cursor q"
    using rq_has_readable_at [OF w(1) r] by auto
  let ?c = "unat (rq_cursor q)" and ?l = "rs_length seg" and ?bs = "q_list (rq_data q)"
  have in_r: "in_ring B ?c ?bs seg" using ok i(2) by (auto simp: rq_ok_def)
  have l: "?l \<le> length ?bs" "take ?l ?bs = stream B ?c ?l"
    using in_r i(3) by (cases "?l = 0"; auto simp: in_ring_def simp del: length_q_list intro!: nth_equalityI)+
  have g: "get (rq_segments q) i = Inr seg" using i(2) w(1) by (simp add: get_at)
  obtain d where d: "read_front (int (min len ?l)) (rq_data q) = Inr (d, take (min len ?l) ?bs)" "rb_inv d"
    "q_cap d = 65535" "q_list d = drop (min len ?l) ?bs"
    using rb.rd_list [OF w(3), of "min len ?l"] w(4) by auto
  show ?thesis
  proof (cases "?l \<le> len")
    case False
    then have "rq_read_one len q = Inl Panic"
      using i g d(1) l(1) by (simp add: rq_read_one_def assertR_def min_def del: length_q_list)
    then show ?thesis using False i by auto
  next
    case True
    then have m: "min len ?l = ?l" by simp
    obtain p where e: "erase i (rq_segments q) = Inr p" using pl.release_total [OF w(1), of i] i(2) by auto
    note pe = pl.release_step [OF w(1) e]
    define q' where "q' = q\<lparr>rq_segments := p, rq_data := d, rq_cursor := rq_cursor q + of_nat ?l\<rparr>"
    have rd: "rq_read_one len q = Inr (q', seg, stream B ?c ?l)"
      using i g d(1) l e unfolding m by (simp add: rq_read_one_def assertR_def q'_def m del: length_q_list)
    have "?l \<le> 65535" using l(1) rb_inv_bounds(4) [OF w(3)] w(4) by linarith
    then have c': "unat (rq_cursor q') = ?c + ?l"
      using far by (simp add: q'_def far_from_wrap_def unat_word_ariths unat_of_nat)
    have "in_ring B (?c + ?l) (drop ?l ?bs) s" if s: "at p j = Some s" for j s
    proof -
      have a: "at (rq_segments q) j = Some s" using s pe by (auto split: if_splits)
      have "in_ring B ?c ?bs s" using a ok by (auto simp: rq_ok_def)
      moreover have "?bs ! (?l + (x - (?c + ?l) + k)) = ?bs ! (x - ?c + k)" if "?c + ?l \<le> x" for x k
        using that by simp
      ultimately show ?thesis using l(1) by (auto simp: in_ring_def simp del: length_q_list)
    qed
    then have "rq_ok B q'" using pe w(2) d(2,3,4) c' unfolding m by (auto simp: rq_ok_def rq_wf_def q'_def)
    then show ?thesis using True i rd c' pe by (auto simp: q'_def)
  qed
qed

subsection \<open>Segments in any order\<close>

text \<open>
  The loop of \<open>connection::step\<close> over the receive queue, collecting the payloads, and the
  arrival of a list of segments of the stream. The fuel bounds the number of segments read.
\<close>

fun rq_drain :: "nat \<Rightarrow> nat \<Rightarrow> receive_queue \<Rightarrow> (receive_queue \<times> byte list) res" where
  "rq_drain 0 len q = Inl Diverges"
| "rq_drain (Suc fuel) len q =
     bindR (rq_has_readable q) (\<lambda>more.
     if \<not> more then Inr (q, [])
     else bindR (rq_read_one len q) (\<lambda>(q1, _, bs).
          bindR (rq_drain fuel len q1) (\<lambda>(q2, bs'). Inr (q2, bs @ bs'))))"

fun arrive :: "(nat \<Rightarrow> byte) \<Rightarrow> recv_segment list \<Rightarrow> receive_queue \<Rightarrow> receive_queue res" where
  "arrive B [] q = Inr q"
| "arrive B (s # ss) q =
     bindR (rq_insert s (stream B (unat (rs_seqnbr s)) (rs_length s)) q) (\<lambda>(q', ok).
     assertR ok (arrive B ss q'))"

fun contiguous :: "nat \<Rightarrow> recv_segment list \<Rightarrow> bool" where
  "contiguous c [] = True"
| "contiguous c (s # ss) = (unat (rs_seqnbr s) = c \<and> 0 < rs_length s \<and> contiguous (c + rs_length s) ss)"

definition total_length :: "recv_segment list \<Rightarrow> nat" where
  "total_length ss = sum_list (map rs_length ss)"

lemma total_length_simps [simp]: "total_length [] = 0" "total_length (s # ss) = rs_length s + total_length ss"
  by (simp_all add: total_length_def)

lemma contiguous_bounds:
  "contiguous c ss \<Longrightarrow> s \<in> set ss \<Longrightarrow>
   c \<le> unat (rs_seqnbr s) \<and> unat (rs_seqnbr s) + rs_length s \<le> c + total_length ss \<and> 0 < rs_length s"
  by (induction c ss rule: contiguous.induct) fastforce+

lemma contiguous_distinct: "contiguous c ss \<Longrightarrow> distinct (map rs_seqnbr ss)"
proof (induction c ss rule: contiguous.induct)
  case (2 c s ss)
  have "rs_seqnbr t \<noteq> rs_seqnbr s" if "t \<in> set ss" for t
    using contiguous_bounds [of "c + rs_length s" ss t] 2(2) that by auto
  then have "rs_seqnbr s \<notin> rs_seqnbr ` set ss" by force
  then show ?case using 2 by auto
qed simp

definition holds :: "receive_queue \<Rightarrow> recv_segment set \<Rightarrow> bool" where
  "holds q S \<longleftrightarrow> ran (at (rq_segments q)) = S \<and> card (dom (at (rq_segments q))) = card S \<and>
     inj_on (at (rq_segments q)) (dom (at (rq_segments q)))"

lemma holds_finite: "rq_ok B q \<Longrightarrow> holds q S \<Longrightarrow> finite S"
  using pl.finite_dom_lookup [of "rq_segments q"] finite_ran [of "at (rq_segments q)"]
  by (auto simp: holds_def rq_ok_def rq_wf_def)

lemma holds_insert:
  assumes "holds q S" "finite S" "at (rq_segments q) i = None" "at (rq_segments q') = (at (rq_segments q))(i \<mapsto> s)" "s \<notin> S"
    and "finite (dom (at (rq_segments q)))"
  shows "holds q' (insert s S)"
proof -
  have "i \<notin> dom (at (rq_segments q))" using assms(3) by auto
  moreover have "at (rq_segments q) x \<noteq> Some s" for x using assms(1,5) by (auto simp: holds_def ran_def)
  moreover have "ran (at (rq_segments q')) = insert s S" using assms by (simp add: holds_def)
  ultimately show ?thesis using assms by (auto simp: holds_def inj_on_def)
qed

lemma ran_remove:
  assumes "inj_on m (dom m)" "m i = Some s"
  shows "ran (m(i := None)) = ran m - {s}"
proof -
  have u: "j = i" if "m j = Some s" for j using inj_onD [OF assms(1), of j i] that assms(2) by auto
  have "(\<exists>j. j \<noteq> i \<and> m j = Some x) \<longleftrightarrow> (\<exists>j. m j = Some x) \<and> x \<noteq> s" for x
    using u assms(2) by (metis option.inject)
  then show ?thesis by (auto simp: ran_def)
qed

lemma holds_remove:
  assumes "holds q S" "at (rq_segments q) i = Some s" "at (rq_segments q') = (at (rq_segments q))(i := None)"
  shows "holds q' (S - {s})"
proof -
  have m: "inj_on (at (rq_segments q)) (dom (at (rq_segments q)))" using assms(1) by (simp add: holds_def)
  have s: "s \<in> S" "i \<in> dom (at (rq_segments q))" using assms(1,2) by (auto simp: holds_def ran_def)
  then show ?thesis
    using assms(1,3) ran_remove [OF m assms(2)] m by (auto simp: holds_def inj_on_def card_Diff_singleton_if)
qed

lemma arrive_holds:
  "rq_ok B q \<Longrightarrow> far_from_wrap q \<Longrightarrow> holds q S \<Longrightarrow> distinct ss \<Longrightarrow> set ss \<inter> S = {} \<Longrightarrow>
   card S + length ss \<le> 200 \<Longrightarrow>
   (\<forall>s \<in> set ss. rq_cursor q \<le> rs_seqnbr s \<and> unat (rs_seqnbr s) + rs_length s \<le> unat (rq_cursor q) + 65535) \<Longrightarrow>
   \<exists>q'. arrive B ss q = Inr q' \<and> rq_ok B q' \<and> rq_cursor q' = rq_cursor q \<and> holds q' (S \<union> set ss)"
proof (induction ss arbitrary: q S)
  case (Cons s ss)
  let ?bs = "stream B (unat (rs_seqnbr s)) (rs_length s)"
  have w: "pool_inv (rq_segments q)" "capacity (rq_segments q) = 200" using Cons.prems(1) by (auto simp: rq_ok_def rq_wf_def)
  have r: "rq_cursor q \<le> rs_seqnbr s" "unat (rs_seqnbr s) + rs_length s \<le> unat (rq_cursor q) + 65535"
    using Cons.prems(7) by auto
  have nf: "\<not> full (rq_segments q)" using full_iff [OF w(1)] w(2) Cons.prems(3,6) by (simp add: holds_def)
  have r1: "?bs = stream B (unat (rs_seqnbr s)) (length ?bs)"
    "unat (rs_seqnbr s) + length ?bs < unat (rq_cursor q) + 2147483648" using r(2) by auto
  obtain q1 i where q1: "rq_insert s ?bs q = Inr (q1, True)" "rq_ok B q1" "rq_cursor q1 = rq_cursor q"
    "at (rq_segments q) i = None" "at (rq_segments q1) = (at (rq_segments q))(i \<mapsto> s)"
  proof -
    have b: "\<not> full (rq_segments q) \<and> rq_cursor q \<le> rs_seqnbr s \<and>
        unat (rs_seqnbr s) - unat (rq_cursor q) + length ?bs \<le> 65535"
      using nf r by (simp add: word_le_nat_alt)
    obtain q1 c where "rq_insert s ?bs q = Inr (q1, c)" "rq_ok B q1" "rq_cursor q1 = rq_cursor q" "c"
      "if c then \<exists>i. at (rq_segments q) i = None \<and>
         at (rq_segments q1) = (at (rq_segments q))(i \<mapsto> s\<lparr>rs_length := length ?bs\<rparr>) else q1 = q"
      using rq_insert_stream [OF Cons.prems(1,2) r1] b by blast
    then show ?thesis using that by auto
  qed
  have fin: "finite S" "finite (dom (at (rq_segments q)))"
    using holds_finite [OF Cons.prems(1,3)] pl.finite_dom_lookup [OF w(1)] by auto
  have h1: "holds q1 (insert s S)" using holds_insert [OF Cons.prems(3) fin(1) q1(4,5) _ fin(2)] Cons.prems(5) by auto
  have "\<exists>q'. arrive B ss q1 = Inr q' \<and> rq_ok B q' \<and> rq_cursor q' = rq_cursor q1 \<and> holds q' (insert s S \<union> set ss)"
    using Cons.prems q1 h1 fin(1) by (intro Cons.IH) (auto simp: far_from_wrap_def)
  then show ?case using q1 by auto
qed auto

lemma holds_readable:
  assumes "rq_ok B q" "holds q (set (s # ss))" "contiguous (unat (rq_cursor q)) (s # ss)" "rs_seqnbr s < 0xFFFFFFFF"
  shows "rq_has_readable q = Inr True \<and> find_front_segment q \<noteq> Inl Panic"
proof -
  let ?p = "rq_segments q"
  have w: "pool_inv ?p" using assms(1) by (auto simp: rq_ok_def rq_wf_def)
  obtain i where i: "at ?p i = Some s" using assms(2) by (auto simp: holds_def ran_def)
  obtain k t where k: "find_front_segment q = Inr k" "at ?p k = Some t" "rs_seqnbr t \<le> rs_seqnbr s"
    using find_front_least [OF w i assms(4)] i by blast
  have "t \<in> set (s # ss)" using assms(2) k(2) by (auto simp: holds_def ran_def)
  then have "unat (rq_cursor q) \<le> unat (rs_seqnbr t)" using contiguous_bounds [OF assms(3)] by blast
  moreover have "rs_seqnbr s = rq_cursor q" using assms(3) by (simp add: word_unat_eq_iff)
  ultimately have "rs_seqnbr t = rq_cursor q" using k(3) by (auto simp: word_le_nat_alt intro: order_antisym)
  moreover have "pcount ?p \<noteq> 0" using pcount_at [OF w] i pl.finite_dom_lookup [OF w] by auto
  ultimately show ?thesis using k w by (simp add: rq_has_readable_def get_at)
qed

lemma drain_contiguous:
  "rq_ok B q \<Longrightarrow> holds q (set ss) \<Longrightarrow> contiguous (unat (rq_cursor q)) ss \<Longrightarrow>
   unat (rq_cursor q) + total_length ss + 65535 < 4294967296 \<Longrightarrow> (\<forall>s \<in> set ss. rs_length s \<le> len) \<Longrightarrow> length ss < fuel \<Longrightarrow>
   \<exists>q'. rq_drain fuel len q = Inr (q', stream B (unat (rq_cursor q)) (total_length ss)) \<and> rq_ok B q' \<and>
     unat (rq_cursor q') = unat (rq_cursor q) + total_length ss \<and> at (rq_segments q') = Map.empty"
proof (induction ss arbitrary: q fuel)
  case Nil
  have w: "pool_inv (rq_segments q)" using Nil.prems(1) by (auto simp: rq_ok_def rq_wf_def)
  have "at (rq_segments q) j = None" for j
    using Nil.prems(2) by (cases "at (rq_segments q) j") (auto simp: holds_def ran_def)
  then have e: "at (rq_segments q) = Map.empty" by auto
  then have "rq_has_readable q = Inr False" using pcount_at [OF w] by (simp add: rq_has_readable_def)
  then show ?case using Nil.prems e by (cases fuel) (auto simp: stream_def)
next
  case (Cons s ss)
  let ?c = "unat (rq_cursor q)"
  have sc: "rs_seqnbr s = rq_cursor q" using Cons.prems(3) by (simp add: word_unat_eq_iff)
  have lt: "rs_seqnbr s < 0xFFFFFFFF" "far_from_wrap q"
    using Cons.prems(4) by (auto simp: sc word_less_nat_alt far_from_wrap_def)
  have hr: "rq_has_readable q = Inr True" using holds_readable [OF Cons.prems(1,2,3) lt(1)] by simp
  obtain i t where t: "at (rq_segments q) i = Some t" "rs_seqnbr t = rq_cursor q"
    "if rs_length t \<le> len
     then \<exists>q'. rq_read_one len q = Inr (q', t, stream B ?c (rs_length t)) \<and> rq_ok B q' \<and>
       unat (rq_cursor q') = ?c + rs_length t \<and> at (rq_segments q') = (at (rq_segments q))(i := None)
     else rq_read_one len q = Inl Panic"
    using rq_read_stream [OF Cons.prems(1) lt(2) hr, of len] by blast
  have tin: "t \<in> set (s # ss)" using Cons.prems(2) t(1) by (auto simp: holds_def ran_def)
  have di: "distinct (map rs_seqnbr (s # ss))" by (rule contiguous_distinct [OF Cons.prems(3)])
  have ts: "t = s"
  proof (rule ccontr)
    assume "t \<noteq> s"
    then have "rs_seqnbr t \<in> rs_seqnbr ` set ss" using tin by auto
    then show False using di sc t(2) by auto
  qed
  obtain q1 where q1: "rq_read_one len q = Inr (q1, s, stream B ?c (rs_length s))" "rq_ok B q1"
    "unat (rq_cursor q1) = ?c + rs_length s" "at (rq_segments q1) = (at (rq_segments q))(i := None)"
    using t(3) Cons.prems(5) ts by auto
  have "s \<notin> set ss" using di by auto
  then have h1: "holds q1 (set ss)" using holds_remove [OF Cons.prems(2) t(1) q1(4)] ts by simp
  obtain f where f: "fuel = Suc f" "length ss < f" using Cons.prems(6) by (cases fuel) auto
  obtain q2 where q2: "rq_drain f len q1 = Inr (q2, stream B (unat (rq_cursor q1)) (total_length ss))" "rq_ok B q2"
    "unat (rq_cursor q2) = unat (rq_cursor q1) + total_length ss" "at (rq_segments q2) = Map.empty"
    using Cons.IH [OF q1(2) h1] Cons.prems q1(3) f(2) by auto
  show ?case using hr q1 q2 f(1) by (auto simp: stream_append)
qed

text \<open>
  \<^bold>\<open>C7.\<close> The receive queue puts segments back into order: when the segments of a contiguous
  piece of the remote's stream, starting at the read cursor, arrive in any order (at most 200
  of them, together at most the ring's 65535 bytes, each fitting the reader's buffer, and the
  numbers not wrapping), every one of them is accepted, and reading until nothing is readable
  yields exactly that piece of the stream, leaves the queue empty and moves the cursor to its end.
\<close>

theorem receive_queue_reorders:
  assumes "rq_ok B q" "at (rq_segments q) = Map.empty" "contiguous (unat (rq_cursor q)) ss"
    and "mset order = mset ss" "length ss \<le> 200" "total_length ss \<le> 65535" "unat (rq_cursor q) + 131070 < 4294967296"
    and "\<forall>s \<in> set ss. rs_length s \<le> len" "length ss < fuel"
  shows "\<exists>q1 q2. arrive B order q = Inr q1 \<and>
     rq_drain fuel len q1 = Inr (q2, stream B (unat (rq_cursor q)) (total_length ss)) \<and> rq_ok B q2 \<and>
     unat (rq_cursor q2) = unat (rq_cursor q) + total_length ss \<and> at (rq_segments q2) = Map.empty"
proof -
  have so: "set order = set ss" "length order = length ss" using assms(4) mset_eq_setD mset_eq_length by blast+
  have "distinct ss" using contiguous_distinct [OF assms(3)] by (simp add: distinct_map)
  then have d: "distinct order" using assms(4) mset_eq_imp_distinct_iff by blast
  have far: "far_from_wrap q" using assms(7) by (simp add: far_from_wrap_def)
  have "holds q {}" using assms(2) by (simp add: holds_def)
  then obtain q1 where q1: "arrive B order q = Inr q1" "rq_ok B q1" "rq_cursor q1 = rq_cursor q" "holds q1 (set ss)"
    using arrive_holds [OF assms(1) far, of "{}" order] d so assms(5,6) contiguous_bounds [OF assms(3)]
    by (fastforce simp: word_le_nat_alt)
  show ?thesis
    using drain_contiguous [OF q1(2,4), of len fuel] q1 assms by auto
qed

lemma rq_ok_init: "rq_ok B receive_queue_init \<and> at (rq_segments receive_queue_init) = Map.empty"
  by (simp add: rq_ok_def rq_wf_def receive_queue_init_def)

theorem receive_queue_reorders_witness:
  "\<exists>q1 q2. arrive (\<lambda>i. of_nat i) [\<lparr>rs_flags = 0, rs_seqnbr = 3, rs_length = 2\<rparr>, \<lparr>rs_flags = 0, rs_seqnbr = 0, rs_length = 3\<rparr>]
       receive_queue_init = Inr q1 \<and>
     rq_drain 3 10 q1 = Inr (q2, [0, 1, 2, 3, 4])"
proof -
  let ?a = "\<lparr>rs_flags = 0, rs_seqnbr = 0, rs_length = 3\<rparr>" and ?b = "\<lparr>rs_flags = 0, rs_seqnbr = 3, rs_length = 2\<rparr>"
  have c: "rq_cursor receive_queue_init = 0" by (simp add: receive_queue_init_def)
  have s: "stream (\<lambda>i. of_nat i :: byte) 0 5 = [0, 1, 2, 3, 4]" by (simp add: stream_def upt_rec)
  show ?thesis
    using receive_queue_reorders [of "\<lambda>i. of_nat i" receive_queue_init "[?a, ?b]" "[?b, ?a]" 10 3]
      rq_ok_init [of "\<lambda>i. of_nat i"] by (auto simp: c s)
qed

subsection \<open>The send queue as a list of segments with their bytes\<close>

fun cut :: "send_segment list \<Rightarrow> byte list \<Rightarrow> (send_segment \<times> byte list) list" where
  "cut [] bs = []"
| "cut (s # ss) bs = (s, take (ss_data_length s) bs) # cut ss (drop (ss_data_length s) bs)"

definition sq_view :: "send_queue \<Rightarrow> (send_segment \<times> byte list) list" where
  "sq_view q = cut (q_list (sq_segments q)) (q_list (sq_data q))"

text \<open>Consecutive segments from one sequence number to another, none of them empty.\<close>

fun chained :: "nat \<Rightarrow> send_segment list \<Rightarrow> nat \<Rightarrow> bool" where
  "chained a [] w = (a = w)"
| "chained a (s # ss) w = (unat (ss_seqnbr s) = a \<and> 0 < ss_data_length s \<and> chained (a + ss_data_length s) ss w)"

definition sq_ok :: "send_queue \<Rightarrow> bool" where
  "sq_ok q \<longleftrightarrow> q_inv (sq_segments q) \<and> q_cap (sq_segments q) = 100 \<and>
     rb_inv (sq_data q) \<and> q_cap (sq_data q) = 65535 \<and>
     chained (unat (sq_ack_pos q)) (q_list (sq_segments q)) (unat (sq_write_pos q)) \<and>
     unat (sq_write_pos q) = unat (sq_ack_pos q) + length (q_list (sq_data q)) \<and>
     sq_read_pos q \<le> length (q_list (sq_segments q))"

lemma chained_sum: "chained a ss w \<Longrightarrow> w = a + sum_list (map ss_data_length ss)"
proof (induction ss arbitrary: a)
  case (Cons s ss)
  then have "chained (a + ss_data_length s) ss w" by simp
  from Cons.IH [OF this] show ?case by simp
qed simp

lemma chained_snoc:
  "chained a ss w \<Longrightarrow> unat (ss_seqnbr s) = w \<Longrightarrow> 0 < ss_data_length s \<Longrightarrow> chained a (ss @ [s]) (w + ss_data_length s)"
  by (induction ss arbitrary: a) auto

lemma cut_snoc:
  "sum_list (map ss_data_length ss) = length bs \<Longrightarrow> ss_data_length s = length cs \<Longrightarrow>
   cut (ss @ [s]) (bs @ cs) = cut ss bs @ [(s, cs)]"
  by (induction ss arbitrary: bs) auto

lemma length_cut [simp]: "length (cut ss bs) = length ss"
  by (induction ss arbitrary: bs) auto

lemma map_fst_cut: "map fst (cut ss bs) = ss"
  by (induction ss arbitrary: bs) auto

lemma cut_nth:
  "chained a ss w \<Longrightarrow> i < length ss \<Longrightarrow> a \<le> unat (ss_seqnbr (ss ! i)) \<and>
   unat (ss_seqnbr (ss ! i)) + ss_data_length (ss ! i) \<le> w \<and>
   cut ss bs ! i = (ss ! i, take (ss_data_length (ss ! i)) (drop (unat (ss_seqnbr (ss ! i)) - a) bs))"
proof (induction ss arbitrary: a i bs)
  case (Cons s ss)
  have sum: "w = a + sum_list (map ss_data_length (s # ss))" using chained_sum [OF Cons.prems(1)] .
  show ?case
  proof (cases i)
    case (Suc j)
    have "chained (a + ss_data_length s) ss w" "j < length ss" using Cons.prems Suc by auto
    note IH = Cons.IH [OF this, of "drop (ss_data_length s) bs"]
    then show ?thesis using Suc by (auto simp: add.commute)
  qed (use Cons.prems sum in auto)
qed simp

lemma sq_ok_facts:
  assumes "sq_ok q"
  shows "q_inv (sq_segments q)" "rb_inv (sq_data q)" "q_cap (sq_data q) = 65535" "q_cap (sq_segments q) = 100"
    "sum_list (map ss_data_length (q_list (sq_segments q))) = length (q_list (sq_data q))"
    "rb_remaining (sq_data q) = int (65535 - length (q_list (sq_data q)))"
proof -
  show i: "q_inv (sq_segments q)" "rb_inv (sq_data q)" "q_cap (sq_data q) = 65535" "q_cap (sq_segments q) = 100"
    using assms by (auto simp: sq_ok_def)
  show "sum_list (map ss_data_length (q_list (sq_segments q))) = length (q_list (sq_data q))"
  proof -
    have "chained (unat (sq_ack_pos q)) (q_list (sq_segments q)) (unat (sq_write_pos q))"
      "unat (sq_write_pos q) = unat (sq_ack_pos q) + length (q_list (sq_data q))"
      using assms by (auto simp: sq_ok_def)
    then show ?thesis using chained_sum by fastforce
  qed
  note b = rb_inv_bounds [OF i(2)]
  show "rb_remaining (sq_data q) = int (65535 - length (q_list (sq_data q)))"
    unfolding rb_remaining_def b(1,3) using b(4) i(3) by (subst u32_id) (auto simp del: length_q_list)
qed

lemma sq_write_back_step:
  assumes ok: "sq_ok q" and seg: "ss_seqnbr seg = sq_write_pos q" and bs: "bs \<noteq> []"
    "unat (sq_write_pos q) + length bs < 4294967296"
  shows "if 65535 < length (q_list (sq_data q)) + length bs then sq_write_back seg (Some bs) (length bs) n q = Inr (q, False)
    else \<exists>q'. sq_write_back seg (Some bs) (length bs) n q = Inr (q', length (q_list (sq_segments q)) < 100) \<and>
      (length (q_list (sq_segments q)) < 100 \<longrightarrow> sq_ok q' \<and> sq_ack_pos q' = sq_ack_pos q \<and>
         sq_read_pos q' = sq_read_pos q \<and> sq_wndsz q' = sq_wndsz q \<and>
         unat (sq_write_pos q') = unat (sq_write_pos q) + length bs \<and>
         sq_view q' = sq_view q @ [(seg\<lparr>ss_data_length := length bs, ss_send_length := n\<rparr>, bs)])"
proof (cases "65535 < length (q_list (sq_data q)) + length bs")
  case True
  moreover have "length (q_list (sq_data q)) \<le> 65535"
    using rb_inv_bounds(4) [OF sq_ok_facts(2) [OF ok]] sq_ok_facts(3) [OF ok] by simp
  ultimately have "rb_remaining (sq_data q) < int (length bs)" unfolding sq_ok_facts(6) [OF ok] by linarith
  then show ?thesis using True by (simp add: sq_write_back_def del: length_q_list)
next
  case False
  note f = sq_ok_facts [OF ok]
  let ?s = "seg\<lparr>ss_data_length := length bs, ss_send_length := n\<rparr>"
  obtain d where d: "rb_write bs (-1) (sq_data q) = Inr (d, True)" "rb_inv d" "q_cap d = 65535"
    "q_list d = q_list (sq_data q) @ bs"
    using rb.append_room [OF f(2), of bs] False f(3) by (auto simp del: length_q_list)
  obtain segs where p: "push_back ?s (sq_segments q) = Inr (segs, length (q_list (sq_segments q)) < 100)" "q_inv segs" "q_cap segs = 100"
    using qf.push_total [OF f(1), of ?s] f(4) by auto
  define q' where "q' = q\<lparr>sq_data := d, sq_write_pos := sq_write_pos q + of_nat (length bs), sq_segments := segs\<rparr>"
  have w: "sq_write_back seg (Some bs) (length bs) n q = Inr (q', length (q_list (sq_segments q)) < 100)"
    using False f(6) d(1) p(1) seg by (simp add: sq_write_back_def q'_def del: length_q_list)
  have wp: "unat (sq_write_pos q') = unat (sq_write_pos q) + length bs"
    using bs(2) by (simp add: q'_def unat_word_ariths unat_of_nat)
  have "sq_ok q' \<and> sq_view q' = sq_view q @ [(?s, bs)]" if room: "length (q_list (sq_segments q)) < 100"
  proof -
    have l: "q_list segs = q_list (sq_segments q) @ [?s]"
      using qf.push_True [OF f(1), of ?s segs] p(1) room by simp
    have "chained (unat (sq_ack_pos q)) (q_list segs) (unat (sq_write_pos q) + length bs)"
    proof -
      have "chained (unat (sq_ack_pos q)) (q_list (sq_segments q)) (unat (sq_write_pos q))"
        using ok unfolding sq_ok_def by blast
      from chained_snoc [OF this, of ?s] show ?thesis using seg bs(1) by (simp add: l)
    qed
    moreover have "length (q_list segs) = Suc (length (q_list (sq_segments q)))"
      "length (q_list d) = length (q_list (sq_data q)) + length bs" using l d(4) by (simp_all del: length_q_list)
    ultimately have "sq_ok q'" using ok p(2,3) d(2,3) wp by (simp add: sq_ok_def q'_def del: length_q_list)
    moreover have "sq_view q' = sq_view q @ [(?s, bs)]"
      using cut_snoc [OF f(5), of ?s bs] by (simp add: sq_view_def q'_def l d(4))
    ultimately show ?thesis ..
  qed
  then show ?thesis using w wp False by (auto simp: q'_def simp del: length_q_list)
qed

lemma sq_read_one_step:
  assumes ok: "sq_ok q" and r: "sq_read_pos q < length (q_list (sq_segments q))" and v: "sq_view q ! sq_read_pos q = (seg, bs)"
    and len: "ss_data_length seg \<le> len"
    and win: "unat (ss_seqnbr seg) + ss_send_length seg < 4294967296" "unat (sq_ack_pos q) + unat (sq_wndsz q) < 4294967296"
  shows "sq_has_readable q" "length bs = ss_data_length seg"
    "sq_read_one len q = (if unat (sq_ack_pos q) + unat (sq_wndsz q) < unat (ss_seqnbr seg) + ss_send_length seg then Inr (q, None)
       else Inr (q\<lparr>sq_read_pos := Suc (sq_read_pos q)\<rparr>, Some (seg, bs)))"
proof -
  note f = sq_ok_facts [OF ok]
  let ?r = "sq_read_pos q" and ?segs = "q_list (sq_segments q)" and ?d = "q_list (sq_data q)" and ?a = "unat (sq_ack_pos q)"
  have ch: "chained ?a ?segs (unat (sq_write_pos q))" "unat (sq_write_pos q) = ?a + length ?d" using ok by (auto simp: sq_ok_def)
  note c = cut_nth [OF ch(1) r, of ?d]
  have sg: "seg = ?segs ! ?r" "bs = take (ss_data_length seg) (drop (unat (ss_seqnbr seg) - ?a) ?d)"
    using c v by (auto simp: sq_view_def)
  have s100: "length ?segs \<le> 100" using q_list_bound [OF f(1)] f(4) by simp
  have i: "0 \<le> read_idx (sq_segments q)" "read_idx (sq_segments q) \<le> 200"
    using f(1,4) by (auto simp: q_inv_def max_len_def q_cap_def)
  have ix: "s32 (u32 (q_begin (sq_segments q) + int ?r)) = read_idx (sq_segments q) + int ?r"
    using i r s100 by (subst conv_id) (auto simp: q_begin_def simp del: length_q_list)
  have get: "item_get (read_idx (sq_segments q) + int ?r) (sq_segments q) = Inr seg"
    using item_get_slot [OF f(1), of ?r] q_list_nth [of ?r "sq_segments q"] r sg(1) by simp
  have qs: "q_size (sq_segments q) = int (length ?segs)" using q_inv_size [OF f(1)] by simp
  have d: "length ?d \<le> 65535" using rb_inv_bounds(4) [OF f(2)] f(3) by simp
  have o: "?a \<le> unat (ss_seqnbr seg)" "unat (ss_seqnbr seg) - ?a + ss_data_length seg \<le> length ?d"
    using c ch(2) sg(1) by auto
  show l: "length bs = ss_data_length seg" using o sg(2) by (simp del: length_q_list)
  show "sq_has_readable q" unfolding sq_has_readable_def qs using r s100 by (subst u32_id) auto
  have "unat (ss_seqnbr seg - sq_ack_pos q) = unat (ss_seqnbr seg) - ?a" using o(1) by (simp add: unat_sub word_le_nat_alt)
  then have so: "sint (ss_seqnbr seg - sq_ack_pos q) = int (unat (ss_seqnbr seg) - ?a)"
    using sint_small [of "ss_seqnbr seg - sq_ack_pos q"] o(2) d by simp
  have pk: "peek (int (unat (ss_seqnbr seg) - ?a)) (int (ss_data_length seg)) (sq_data q) = Inr bs"
    using rb.pk_list [OF f(2), of "unat (ss_seqnbr seg) - ?a" "ss_data_length seg"] o(2) d sg(2) by simp
  have wl: "sq_ack_pos q + sq_wndsz q < ss_seqnbr seg + of_nat (ss_send_length seg) \<longleftrightarrow>
      ?a + unat (sq_wndsz q) < unat (ss_seqnbr seg) + ss_send_length seg"
    using win by (simp add: word_less_nat_alt unat_word_ariths unat_of_nat)
  show "sq_read_one len q = (if ?a + unat (sq_wndsz q) < unat (ss_seqnbr seg) + ss_send_length seg then Inr (q, None)
       else Inr (q\<lparr>sq_read_pos := Suc (sq_read_pos q)\<rparr>, Some (seg, bs)))"
    using r len l pk get by (auto simp: sq_read_one_def qs ix so wl min_def simp del: length_q_list)
qed

lemma ack_step_cases:
  assumes ok: "sq_ok q"
  shows "if unat n \<le> unat (sq_ack_pos q) then ack_step n q = Inr None
    else (case q_list (sq_segments q) of
        [] \<Rightarrow> ack_step n q = Inl Panic
      | seg # segs \<Rightarrow>
          if unat n < unat (ss_seqnbr seg) + ss_data_length seg then ack_step n q = Inr None
          else \<exists>q' v. ack_step n q = Inr (Some q') \<and> sq_ok q' \<and> sq_view q = v # sq_view q' \<and> fst v = seg \<and> unat (sq_ack_pos q') = unat (ss_seqnbr seg) + ss_data_length seg \<and>
            sq_write_pos q' = sq_write_pos q \<and> sq_wndsz q' = sq_wndsz q \<and> sq_read_pos q' = sq_read_pos q - 1)"
proof (cases "unat n \<le> unat (sq_ack_pos q)")
  case False
  note f = sq_ok_facts [OF ok]
  have lt: "sq_ack_pos q < n" using False by (simp add: word_less_nat_alt)
  have qs: "q_size (sq_segments q) = int (length (q_list (sq_segments q)))" using q_inv_size [OF f(1)] by simp
  show ?thesis
  proof (cases "q_list (sq_segments q)")
    case Nil
    then show ?thesis using False lt qs by (simp add: ack_step_def)
  next
    case (Cons seg segs)
    let ?d = "q_list (sq_data q)" and ?l = "ss_data_length seg"
    have ch: "chained (unat (sq_ack_pos q)) (seg # segs) (unat (sq_write_pos q))"
      "unat (sq_write_pos q) = unat (sq_ack_pos q) + length ?d" using ok Cons unfolding sq_ok_def by auto
    have w: "unat (sq_write_pos q) = unat (ss_seqnbr seg) + ?l + sum_list (map ss_data_length segs)"
      using chained_sum [OF ch(1)] ch(1) by simp
    have e: "unat (ss_seqnbr seg + of_nat ?l) = unat (ss_seqnbr seg) + ?l"
      using w unsigned_less [of "sq_write_pos q", where 'a = nat] by (simp add: unat_word_ariths unat_of_nat)
    have front: "q_front (sq_segments q) = Inr seg"
      using item_get_slot [OF f(1), of 0] q_list_nth [of 0 "sq_segments q"] Cons qs by (simp add: q_front_def)
    obtain sg where sg: "pop_front (sq_segments q) = Inr (sg, seg)" "q_inv sg" "q_cap sg = 100" "q_list sg = segs"
      using pop_front_step [OF f(1) Cons] f(4) by auto
    obtain d where d: "consume (int ?l) (sq_data q) = Inr (d, min ?l (length ?d))" "rb_inv d" "q_cap d = 65535" "q_list d = drop ?l ?d"
      using consume_list [OF f(2), of ?l] f(3) by auto
    define q' where "q' = q\<lparr>sq_data := d, sq_segments := sg,
        sq_read_pos := (if 0 < sq_read_pos q then sq_read_pos q - 1 else sq_read_pos q), sq_ack_pos := ss_seqnbr seg + of_nat ?l\<rparr>"
    have st: "ack_step n q = (if unat n < unat (ss_seqnbr seg) + ?l then Inr None else Inr (Some q'))"
      using lt qs Cons front sg(1) d(1) e by (simp add: ack_step_def word_less_nat_alt q'_def del: length_q_list)
    have "chained (unat (ss_seqnbr seg) + ?l) segs (unat (sq_write_pos q))" using ch(1) by auto
    moreover have "unat (sq_write_pos q) = unat (ss_seqnbr seg) + ?l + length (drop ?l ?d)"
      using ch w by (auto simp del: length_q_list)
    moreover have "sq_read_pos q - 1 \<le> length segs" using ok Cons unfolding sq_ok_def by auto
    ultimately have "sq_ok q'" using sg d e unfolding sq_ok_def q'_def by (auto simp del: length_q_list)
    moreover have "sq_view q = (seg, take ?l ?d) # sq_view q'" by (simp add: sq_view_def Cons q'_def sg(4) d(4))
    ultimately show ?thesis using False Cons st e by (auto simp: q'_def)
  qed
qed (simp add: ack_step_def word_less_nat_alt)

lemma sq_ok_chained: "sq_ok q \<Longrightarrow> chained (unat (sq_ack_pos q)) (q_list (sq_segments q)) (unat (sq_write_pos q))"
  unfolding sq_ok_def by blast

text \<open>The segments an acknowledgement number covers.\<close>

definition acked :: "32 word \<Rightarrow> send_segment \<times> byte list \<Rightarrow> bool" where
  "acked n = (\<lambda>(seg, bs). unat (ss_seqnbr seg) + ss_data_length seg \<le> unat n)"

lemma sq_view_segments: "map fst (sq_view q) = q_list (sq_segments q)"
  by (simp add: sq_view_def map_fst_cut)

lemma sq_ok_covered_ack:
  assumes "sq_ok q" "unat n \<le> unat (sq_ack_pos q)"
  shows "dropWhile (acked n) (sq_view q) = sq_view q"
proof (cases "sq_view q")
  case (Cons v vs)
  have "q_list (sq_segments q) = fst v # map fst vs" using sq_view_segments [of q] Cons by simp
  then have "chained (unat (sq_ack_pos q)) (fst v # map fst vs) (unat (sq_write_pos q))"
    using sq_ok_chained [OF assms(1)] by simp
  then show ?thesis using assms(2) Cons by (auto simp: acked_def split: prod.splits)
qed simp

lemma sq_ack_cases:
  "sq_ok q \<Longrightarrow>
   if unat (sq_write_pos q) < unat n then sq_ack n q = Inl Panic
   else \<exists>q'. sq_ack n q = Inr q' \<and> sq_ok q' \<and> sq_view q' = dropWhile (acked n) (sq_view q) \<and>
     sq_write_pos q' = sq_write_pos q \<and> sq_wndsz q' = sq_wndsz q \<and>
     sq_read_pos q' = sq_read_pos q - (length (sq_view q) - length (sq_view q'))"
proof (induction "length (q_list (sq_segments q))" arbitrary: q rule: less_induct)
  case less
  note c = ack_step_cases [OF less.prems, of n]
  have le: "unat (sq_ack_pos q) \<le> unat (sq_write_pos q)" using less.prems unfolding sq_ok_def by auto
  show ?case
  proof (cases "unat n \<le> unat (sq_ack_pos q)")
    case True
    then have "sq_ack n q = Inr q" using c by (subst sq_ack.simps) simp
    then show ?thesis using True le less.prems sq_ok_covered_ack [OF less.prems True] by simp
  next
    case False
    show ?thesis
    proof (cases "q_list (sq_segments q)")
      case Nil
      then have "unat (sq_ack_pos q) = unat (sq_write_pos q)" using sq_ok_chained [OF less.prems] by simp
      moreover have "sq_ack n q = Inl Panic" using c False Nil by (subst sq_ack.simps) simp
      ultimately show ?thesis using False by (simp add: not_le)
    next
      case (Cons seg segs)
      have sv: "map fst (sq_view q) = seg # segs" using sq_view_segments [of q] Cons by simp
      show ?thesis
      proof (cases "unat n < unat (ss_seqnbr seg) + ss_data_length seg")
        case True
        have "chained (unat (sq_ack_pos q)) (seg # segs) (unat (sq_write_pos q))"
          using sq_ok_chained [OF less.prems] Cons by simp
        moreover from chained_sum [OF this] have "\<not> unat (sq_write_pos q) < unat n" using calculation True by simp
        moreover have "dropWhile (acked n) (sq_view q) = sq_view q"
          using sv True by (cases "sq_view q") (auto simp: acked_def split: prod.splits)
        moreover have "sq_ack n q = Inr q" using c False Cons True by (subst sq_ack.simps) simp
        ultimately show ?thesis using less.prems by simp
      next
        case cov: False
        then obtain q1 v where q1: "ack_step n q = Inr (Some q1)" "sq_ok q1" "sq_view q = v # sq_view q1"
          "fst v = seg" "sq_write_pos q1 = sq_write_pos q" "sq_wndsz q1 = sq_wndsz q" "sq_read_pos q1 = sq_read_pos q - 1"
          using c False Cons by auto
        have "map fst (sq_view q1) = segs" using sv q1(3) by simp
        then have "length (q_list (sq_segments q1)) < length (q_list (sq_segments q))"
          using Cons sq_view_segments [of q1] by (simp del: length_q_list)
        note IH = less.hyps [OF this q1(2)]
        have "acked n v" using cov q1(4) by (auto simp: acked_def split: prod.splits)
        then have dw: "dropWhile (acked n) (sq_view q) = dropWhile (acked n) (sq_view q1)" by (simp add: q1(3))
        have "length (sq_view q) = Suc (length (sq_view q1))" by (simp add: q1(3))
        moreover have "length (dropWhile (acked n) (sq_view q1)) \<le> length (sq_view q1)" by (rule length_dropWhile_le)
        moreover have "sq_ack n q = sq_ack n q1" using q1(1) by (subst sq_ack.simps) simp
        ultimately show ?thesis using IH q1(5,6,7) unfolding dw by (auto split: if_splits)
      qed
    qed
  qed
qed

text \<open>
  \<^bold>\<open>C8.\<close> The send queue keeps unacknowledged segments in order with their bytes. Writing a
  non-empty segment at the write cursor appends it when the ring has room and fewer than 100
  segments wait; reading returns the next unread segment with exactly its bytes, or nothing
  when it ends beyond the window; an acknowledgement up to the write cursor removes exactly
  the leading segments it covers, and one beyond the write cursor fails the assertion.
\<close>

theorem send_queue_correct:
  assumes "sq_ok q"
  shows "(ss_seqnbr seg = sq_write_pos q \<and> bs \<noteq> [] \<and> unat (sq_write_pos q) + length bs < 4294967296 \<and>
      length (q_list (sq_data q)) + length bs \<le> 65535 \<and> length (q_list (sq_segments q)) < 100 \<longrightarrow>
      (\<exists>q'. sq_write_back seg (Some bs) (length bs) n q = Inr (q', True) \<and> sq_ok q' \<and>
         sq_view q' = sq_view q @ [(seg\<lparr>ss_data_length := length bs, ss_send_length := n\<rparr>, bs)])) \<and>
    (sq_read_pos q < length (q_list (sq_segments q)) \<and> sq_view q ! sq_read_pos q = (s, cs) \<and> ss_data_length s \<le> len \<and>
      unat (ss_seqnbr s) + ss_send_length s < 4294967296 \<and> unat (sq_ack_pos q) + unat (sq_wndsz q) < 4294967296 \<longrightarrow>
      sq_read_one len q =
        (if unat (sq_ack_pos q) + unat (sq_wndsz q) < unat (ss_seqnbr s) + ss_send_length s then Inr (q, None)
         else Inr (q\<lparr>sq_read_pos := Suc (sq_read_pos q)\<rparr>, Some (s, cs)))) \<and>
    (if unat (sq_write_pos q) < unat a then sq_ack a q = Inl Panic
     else \<exists>q'. sq_ack a q = Inr q' \<and> sq_ok q' \<and> sq_view q' = dropWhile (acked a) (sq_view q))"
proof (intro conjI impI, goal_cases)
  case 1
  then show ?case using sq_write_back_step [OF assms, of seg bs n] by auto
next
  case 2
  then show ?case using sq_read_one_step(3) [OF assms, of s cs len] by blast
next
  case 3
  then show ?case using sq_ack_cases [OF assms, of a] by (auto split: if_splits)
qed

lemma sq_ok_init: "sq_ok send_queue_init" "sq_view send_queue_init = []" "sq_write_pos send_queue_init = 0"
  by (simp_all add: sq_ok_def sq_view_def send_queue_init_def sq_reset_def q_inv_clear rb_inv_clear rb_clear_def)
     (simp_all add: rb_inv_def q_inv_clear)

theorem send_queue_correct_witness:
  "sq_ok send_queue_init \<and>
   (\<exists>q'. sq_write_back \<lparr>ss_flags = 0, ss_seqnbr = 0, ss_data_length = 0, ss_send_length = 0\<rparr> (Some [7, 8]) 2 2 send_queue_init = Inr (q', True) \<and>
      sq_view q' = [(\<lparr>ss_flags = 0, ss_seqnbr = 0, ss_data_length = 2, ss_send_length = 2\<rparr>, [7, 8])])"
proof -
  have "length (q_list (sq_data send_queue_init)) = 0" "length (q_list (sq_segments send_queue_init)) = 0"
    by (simp_all add: send_queue_init_def sq_reset_def rb_clear_def del: length_q_list)
  then show ?thesis
    using send_queue_correct [OF sq_ok_init(1), of "\<lparr>ss_flags = 0, ss_seqnbr = 0, ss_data_length = 0, ss_send_length = 0\<rparr>" "[7, 8]" 2]
      sq_ok_init by (auto simp del: length_q_list simp: numeral_2_eq_2)
qed

end
