(* ===== verification/Net_Utils.thy ===== *)
theory Net_Utils
  imports P2_Format
begin

text \<open>
  Byte order, checksums and addresses of the network library: \<open>libraries/net/utils.h\<close> and
  \<open>utils.cc\<close>, \<open>libraries/net/ipv4/utils.cc\<close> and \<open>libraries/net/tcp/utils.cc\<close>. The
  machine is little endian: \<open>le16\<close> and \<open>le32\<close> are the bytes of a field in memory and
  \<open>de16\<close>, \<open>de32\<close> read one. A \<open>uint64_t\<close> sum of the at most \<open>2^30\<close> words an object can have
  cannot overflow, so sums are natural numbers.
\<close>

unbundle bit_operations_syntax

subsection \<open>Byte order\<close>

definition de16 :: "byte \<Rightarrow> byte \<Rightarrow> 16 word" where
  "de16 a b = ucast a OR push_bit 8 (ucast b)"

definition de32 :: "byte \<Rightarrow> byte \<Rightarrow> byte \<Rightarrow> byte \<Rightarrow> 32 word" where
  "de32 a b c d = ucast a OR push_bit 8 (ucast b) OR push_bit 16 (ucast c) OR push_bit 24 (ucast d)"

definition le16 :: "16 word \<Rightarrow> byte list" where
  "le16 w = [ucast w, ucast (drop_bit 8 w)]"

definition le32 :: "32 word \<Rightarrow> byte list" where
  "le32 w = [ucast w, ucast (drop_bit 8 w), ucast (drop_bit 16 w), ucast (drop_bit 24 w)]"

text \<open>The compiler's \<open>__builtin_bswap16\<close> and \<open>__builtin_bswap32\<close> reverse the bytes.\<close>

definition ntohs :: "16 word \<Rightarrow> 16 word" where
  "ntohs w = de16 (ucast (drop_bit 8 w)) (ucast w)"

definition ntohl :: "32 word \<Rightarrow> 32 word" where
  "ntohl w = de32 (ucast (drop_bit 24 w)) (ucast (drop_bit 16 w)) (ucast (drop_bit 8 w)) (ucast w)"

definition htons :: "16 word \<Rightarrow> 16 word" where
  "htons host_bytes = ntohs host_bytes"

definition htonl :: "32 word \<Rightarrow> 32 word" where
  "htonl host_bytes = ntohl host_bytes"

subsection \<open>Checksums\<close>

fun sum_words :: "byte list \<Rightarrow> nat" where
  "sum_words (a # b # c # d # bs) = unat (de32 a b c d) + sum_words bs"
| "sum_words [a, b, c] = unat (de16 a b) + unat (htons (push_bit 8 (ucast c)))"
| "sum_words [a, b] = unat (de16 a b)"
| "sum_words [a] = unat (htons (push_bit 8 (ucast a)))"
| "sum_words [] = 0"

text \<open>The loop \<open>while (sum > 0xFFFF) sum = (sum >> 16) + (sum & 0xFFFF)\<close> of both checksums.\<close>

function fold_sum :: "nat \<Rightarrow> nat" where
  "fold_sum s = (if 0xFFFF < s then fold_sum (drop_bit 16 s + (s AND 0xFFFF)) else s)"
  by pat_completeness auto

lemma nat_and_FFFF: "(s :: nat) AND 0xFFFF = s mod 65536"
proof -
  have "(0xFFFF :: nat) = mask 16" by (simp add: mask_eq_exp_minus_1)
  then have "s AND 0xFFFF = take_bit 16 s" by (simp only: take_bit_eq_mask)
  then show ?thesis by (simp add: take_bit_eq_mod)
qed

lemma fold_decreases: "65535 < (s :: nat) \<Longrightarrow> s div 65536 + s mod 65536 < s"
proof -
  assume "65535 < s"
  then have "0 < s div 65536" by (simp add: div_greater_zero_iff)
  moreover have "s = 65536 * (s div 65536) + s mod 65536" by simp
  ultimately show ?thesis by linarith
qed

termination fold_sum
proof (relation "measure id")
  show "wf (measure id)" by simp
  fix s :: nat assume "65535 < s"
  then show "(drop_bit 16 s + (s AND 0xFFFF), s) \<in> measure id"
    using fold_decreases [of s] by (simp add: nat_and_FFFF drop_bit_eq_div)
qed

declare fold_sum.simps [simp del]

definition checksum_of :: "nat \<Rightarrow> 16 word" where
  "checksum_of s = NOT (of_nat (fold_sum s))"

subsection \<open>Addresses as text\<close>

text \<open>An address is one number; its octets are printed from the most significant.\<close>

definition ipaddr_str :: "char list \<Rightarrow> 32 word \<Rightarrow> p2_string res" where
  "ipaddr_str mem octets =
     format mem ''%d.%d.%d.%d''
       [NumArg (unat (drop_bit 24 octets AND 0xFF)), NumArg (unat (drop_bit 16 octets AND 0xFF)),
        NumArg (unat (drop_bit 8 octets AND 0xFF)), NumArg (unat (octets AND 0xFF))]"

text \<open>
  The loop of \<open>parse_ipaddr\<close>; a character that is neither a digit nor a dot is not consumed,
  so the loop spins on it for ever. The end of the list is the terminating NUL.
\<close>

fun parse_loop :: "nat \<Rightarrow> 32 word \<Rightarrow> char list \<Rightarrow> 32 word res" where
  "parse_loop octet ipaddr [] =
     assertR (octet \<le> 255) (Inr (push_bit 8 ipaddr OR (of_nat octet AND 0xFF)))"
| "parse_loop octet ipaddr (c # cs) =
     (if isdigit c then parse_loop (octet * 10 + (of_char c - 48)) ipaddr cs
      else if c = CHR ''.''
      then assertR (octet \<le> 255) (parse_loop 0 (push_bit 8 ipaddr OR (of_nat octet AND 0xFF)) cs)
      else if c = NUL
      then assertR (octet \<le> 255) (Inr (push_bit 8 ipaddr OR (of_nat octet AND 0xFF)))
      else Inl Diverges)"

definition parse_ipaddr :: "char list \<Rightarrow> 32 word res" where
  "parse_ipaddr str = parse_loop 0 0 str"

subsection \<open>Fields and bytes\<close>

lemma length_le16 [simp]: "length (le16 w) = 2"
  by (simp add: le16_def)

lemma length_le32 [simp]: "length (le32 w) = 4"
  by (simp add: le32_def)

lemma de16_parts: "ucast (de16 a b) = a" "ucast (drop_bit 8 (de16 a b)) = b"
  unfolding de16_def by (rule bit_word_eqI; auto simp: bit_simps dest: bit_imp_le_length)+

lemma de32_parts: "ucast (de32 a b c d) = a" "ucast (drop_bit 8 (de32 a b c d)) = b"
   "ucast (drop_bit 16 (de32 a b c d)) = c" "ucast (drop_bit 24 (de32 a b c d)) = d"
  unfolding de32_def by (rule bit_word_eqI; auto simp: bit_simps dest: bit_imp_le_length)+

lemma de16_le: "de16 (ucast w) (ucast (drop_bit 8 w)) = w"
  unfolding de16_def
proof (rule bit_word_eqI)
  fix n assume "n < LENGTH(16)"
  then consider "n < 8" | "8 \<le> n" "n < 16" by fastforce
  then show "bit (ucast (ucast w :: byte) OR push_bit 8 (ucast (ucast (drop_bit 8 w) :: byte)) :: 16 word) n = bit w n"
    by cases (auto simp: bit_simps)
qed

lemma de32_le: "de32 (ucast w) (ucast (drop_bit 8 w)) (ucast (drop_bit 16 w)) (ucast (drop_bit 24 w)) = w"
  unfolding de32_def
proof (rule bit_word_eqI)
  fix n assume "n < LENGTH(32)"
  then consider "n < 8" | "8 \<le> n" "n < 16" | "16 \<le> n" "n < 24" | "24 \<le> n" "n < 32" by fastforce
  then show "bit (ucast (ucast w :: byte) OR push_bit 8 (ucast (ucast (drop_bit 8 w) :: byte)) OR push_bit 16 (ucast (ucast (drop_bit 16 w) :: byte))
   OR push_bit 24 (ucast (ucast (drop_bit 24 w) :: byte)) :: 32 word) n = bit w n"
    by cases (auto simp: bit_simps)
qed

lemma unat_byte: "unat (a :: byte) < 256" using unsigned_less [of a] by simp

lemma unat_or_disj: "unat (x :: 'a::len word) + unat y = unat (x OR y)" if "x AND y = 0" "unat x + unat y < 2 ^ LENGTH('a)"
proof -
  have "x + y = x OR y" using that(1) by (simp add: word_plus_and_or [of x y, symmetric])
  then show ?thesis using that(2) by (metis unat_add_lem)
qed

lemma unat_ucast16: "unat (ucast (a :: byte) :: 16 word) = unat a"
  using unat_byte [of a] by (simp add: unsigned_ucast_eq take_bit_eq_mod)

lemma unat_ucast32: "unat (ucast (a :: byte) :: 32 word) = unat a"
  using unat_byte [of a] by (simp add: unsigned_ucast_eq take_bit_eq_mod)

lemma unat_de16: "unat (de16 a b) = unat a + 256 * unat b"
proof -
  have b: "unat (push_bit 8 (ucast b :: 16 word)) = 256 * unat b"
    using unat_byte [of b] by (simp add: push_bit_eq_mult unat_word_ariths unat_ucast16)
  have "(ucast a :: 16 word) AND push_bit 8 (ucast b) = 0"
    by (rule bit_word_eqI) (auto simp: bit_simps dest: bit_imp_le_length)
  then show ?thesis unfolding de16_def using unat_byte [of a] unat_byte [of b]
    by (subst unat_or_disj [symmetric]) (auto simp: unat_ucast16 b)
qed

lemma unat_de32: "unat (de32 a b c d) = unat a + 256 * unat b + 65536 * (unat c + 256 * unat d)"
proof -
  note u = unat_byte [of a] unat_byte [of b] unat_byte [of c] unat_byte [of d]
  have s: "unat (push_bit 8 (ucast b :: 32 word)) = 256 * unat b"
    "unat (push_bit 16 (ucast c :: 32 word)) = 65536 * unat c"
    "unat (push_bit 24 (ucast d :: 32 word)) = 16777216 * unat d"
    using u by (simp_all add: push_bit_eq_mult unat_word_ariths unat_ucast32)
  let ?ab = "ucast a OR push_bit 8 (ucast b) :: 32 word"
  let ?abc = "?ab OR push_bit 16 (ucast c)"
  have "(ucast a :: 32 word) AND push_bit 8 (ucast b) = 0" "?ab AND push_bit 16 (ucast c) = 0"
      "?abc AND push_bit 24 (ucast d) = 0"
    by (rule bit_word_eqI; auto simp: bit_simps dest: bit_imp_le_length)+
  note d = this
  have 1: "unat ?ab = unat a + 256 * unat b"
    using u by (subst unat_or_disj [OF d(1), symmetric]) (auto simp: s unat_ucast32)
  have 2: "unat ?abc = unat a + 256 * unat b + 65536 * unat c"
    using u by (subst unat_or_disj [OF d(2), symmetric]) (auto simp: s 1)
  have "unat (?abc OR push_bit 24 (ucast d)) = unat a + 256 * unat b + 65536 * unat c + 16777216 * unat d"
    using u by (subst unat_or_disj [OF d(3), symmetric]) (auto simp: s 2)
  then show ?thesis unfolding de32_def by (simp add: or.assoc)
qed

lemma ntohs_ntohs [simp]: "ntohs (ntohs w) = w"
  unfolding ntohs_def de16_parts by (rule de16_le)

lemma ntohl_ntohl [simp]: "ntohl (ntohl w) = w"
  unfolding ntohl_def de32_parts by (rule de32_le)

lemma ntohs_htons [simp]: "ntohs (htons w) = w"
  by (simp add: htons_def)

lemma ntohl_htonl [simp]: "ntohl (htonl w) = w"
  by (simp add: htonl_def)

lemma htons_ntohs [simp]: "htons (ntohs w) = w"
  by (simp add: htons_def)

subsection \<open>The sum of words\<close>

text \<open>The reference: the bytes as 16-bit little-endian words, the last one padded.\<close>

fun sum16 :: "byte list \<Rightarrow> nat" where
  "sum16 (a # b # bs) = unat a + 256 * unat b + sum16 bs"
| "sum16 [a] = unat a"
| "sum16 [] = 0"

lemma odd_byte: "unat (htons (push_bit 8 (ucast (a :: byte)))) = unat a"
proof -
  have h: "ucast (drop_bit 8 (push_bit 8 (ucast a :: 16 word))) = a" "ucast (push_bit 8 (ucast a :: 16 word)) = (0 :: byte)"
    by (rule bit_word_eqI; auto simp: bit_simps dest: bit_imp_le_length)+
  show ?thesis by (simp add: htons_def ntohs_def h unat_de16)
qed

lemma sum_words_cong: "sum_words bs mod 65535 = sum16 bs mod 65535"
proof (induction bs rule: sum_words.induct)
  case (1 a b c d bs)
  let ?x = "unat a + 256 * unat b" and ?y = "unat c + 256 * unat d"
  have "(?x + 65536 * ?y + sum_words bs) mod 65535 = (?x + ?y + sum_words bs) mod 65535"
  proof -
    have "?x + 65536 * ?y + sum_words bs = (?x + ?y + sum_words bs) + 65535 * ?y" by simp
    then show ?thesis by (metis mod_mult_self2)
  qed
  also have "\<dots> = (?x + ?y + sum16 bs) mod 65535" using 1 by (metis mod_add_right_eq)
  finally show ?case by (simp add: unat_de32 algebra_simps)
qed (simp_all add: unat_de16 odd_byte)

lemma sum_words_zero: "sum_words bs = 0 \<longleftrightarrow> sum16 bs = 0"
  by (induction bs rule: sum_words.induct) (auto simp: unat_de16 unat_de32 odd_byte)

lemma fold_sum_value: "fold_sum s = (if s = 0 then 0 else (s - 1) mod 65535 + 1)"
proof (induction s rule: fold_sum.induct)
  case (1 s)
  show ?case
  proof (cases "65535 < s")
    case True
    let ?t = "s div 65536 + s mod 65536"
    have t: "drop_bit 16 s + (s AND 0xFFFF) = ?t" by (simp add: nat_and_FFFF drop_bit_eq_div)
    have s: "s = 65536 * (s div 65536) + s mod 65536" by simp
    have "0 < s div 65536" using True by (simp add: div_greater_zero_iff)
    then have pos: "0 < ?t" by linarith
    have "s - 1 = (?t - 1) + 65535 * (s div 65536)" using s pos by linarith
    then have m: "(s - 1) mod 65535 = (?t - 1) mod 65535" by (metis mod_mult_self2)
    have "fold_sum s = fold_sum ?t" using True t by (subst fold_sum.simps) simp
    also have "\<dots> = (?t - 1) mod 65535 + 1" using 1 [OF True] pos unfolding t by simp
    finally show ?thesis using m True by simp
  next
    case False
    then show ?thesis by (subst fold_sum.simps) (auto simp: Suc_diff_Suc)
  qed
qed

lemma fold_sum_bound: "fold_sum s \<le> 65535"
  using mod_less_divisor [of 65535 "s - 1"] by (simp add: fold_sum_value) linarith

lemma pred_mod: "0 < s \<Longrightarrow> (s - 1) mod 65535 = (s mod 65535 + 65534) mod (65535 :: nat)"
proof -
  assume "0 < s"
  then have "s - 1 + 65535 = s + 65534" by simp
  then have "(s - 1) mod 65535 = (s + 65534) mod 65535" by (metis mod_add_self2)
  then show ?thesis by (simp add: mod_add_left_eq)
qed

lemma fold_sum_cong: "s mod 65535 = t mod 65535 \<Longrightarrow> (s = 0 \<longleftrightarrow> t = 0) \<Longrightarrow> fold_sum s = fold_sum t"
  using pred_mod [of s] pred_mod [of t] by (cases "s = 0") (auto simp: fold_sum_value)

lemma fold_sum_mod: "fold_sum s mod 65535 = s mod 65535"
proof (cases "s = 0")
  case False
  then have "((s - 1) mod 65535 + 1) mod 65535 = s mod 65535" by (simp add: mod_Suc_eq)
  then show ?thesis using False by (simp add: fold_sum_value)
qed (simp add: fold_sum_value)

lemma sum16_append: "even (length a) \<Longrightarrow> sum16 (a @ b) = sum16 a + sum16 b"
  by (induction a rule: sum16.induct) auto

lemma sum16_le16: "sum16 (le16 w @ b) = unat w + sum16 b"
  using unat_de16 [of "ucast w" "ucast (drop_bit 8 w)"] by (simp add: le16_def de16_le)

lemma unat_checksum: "unat (checksum_of s) = 65535 - fold_sum s"
proof -
  let ?w = "of_nat (fold_sum s) :: 16 word"
  have "NOT ?w = (- 1) - ?w" by (simp add: not_eq_complement)
  also have "unat \<dots> = unat (- 1 :: 16 word) - unat ?w" by (rule unat_sub) simp
  also have "unat (- 1 :: 16 word) = 65535" by (simp add: unsigned_minus_1_eq_mask mask_eq_exp_minus_1)
  finally show ?thesis
    using fold_sum_bound [of s] by (simp add: checksum_of_def unat_of_nat)
qed

text \<open>
  \<open>T\<close> is the sum with the checksum in place: it is a positive multiple of 65535.
\<close>

lemma checksum_completes:
  assumes "s mod 65535 = t mod 65535" "s = 0 \<longleftrightarrow> t = 0"
  shows "fold_sum (t + unat (checksum_of s)) = 65535"
proof -
  let ?T = "t + (65535 - fold_sum s)"
  have b: "fold_sum s \<le> 65535" by (rule fold_sum_bound)
  have "?T + fold_sum s = t + 65535" using b by simp
  then have "(?T + fold_sum s) mod 65535 = t mod 65535" by simp
  then have z: "?T mod 65535 = 0"
  proof -
    have "(?T mod 65535 + t mod 65535) mod 65535 = t mod 65535"
      using \<open>(?T + fold_sum s) mod 65535 = _\<close> fold_sum_mod [of s] assms(1) by (metis mod_add_eq)
    then have "(?T + t) mod 65535 = t mod 65535" by (simp add: mod_add_eq)
    then show ?thesis by (metis add_diff_cancel_right' le_add2 mod_eq_dvd_iff_nat dvd_imp_mod_0)
  qed
  have pos: "0 < ?T"
  proof (cases "t = 0")
    case True
    then show ?thesis using assms(2) by (simp add: fold_sum_value)
  next
    case False
    then show ?thesis by simp
  qed
  have "(?T - 1) mod 65535 = 65534" unfolding pred_mod [OF pos] z by simp
  moreover have "?T \<noteq> 0" using pos by linarith
  ultimately have "fold_sum ?T = 65534 + 1" unfolding fold_sum_value [of ?T] by (simp only: if_False)
  then have "fold_sum ?T = 65535" by simp
  then show ?thesis unfolding unat_checksum .
qed

subsection \<open>Addresses\<close>

definition octet :: "nat \<Rightarrow> 32 word \<Rightarrow> nat" where
  "octet k a = unat (drop_bit k a AND 0xFF)"

lemma mask8: "(0xFF :: 32 word) = mask 8"
  by (simp add: mask_eq_exp_minus_1)

lemma octet_less: "octet k a < 256"
proof -
  have "drop_bit k a AND 0xFF = take_bit 8 (drop_bit k a)" unfolding mask8 by (simp add: take_bit_eq_mask)
  then have "octet k a = take_bit 8 (unat (drop_bit k a))" unfolding octet_def by (simp only: unsigned_take_bit_eq)
  then show ?thesis by (simp add: take_bit_eq_mod)
qed

lemma parse_digits:
  "list_all isdigit ds \<Longrightarrow> parse_loop n ip (ds @ cs) = parse_loop (foldl (\<lambda>n c. n * 10 + (of_char c - 48)) n ds) ip cs"
  by (induction ds arbitrary: n) auto

lemma parse_octet:
  assumes "v < 256"
  shows "parse_loop 0 ip (num_text v (-1) 10 (CHR '' '') @ CHR ''.'' # cs) =
      parse_loop 0 (push_bit 8 ip OR (of_nat v AND 0xFF)) cs"
    "parse_loop 0 ip (num_text v (-1) 10 (CHR '' '')) = Inr (push_bit 8 ip OR (of_nat v AND 0xFF))"
proof -
  have d: "list_all isdigit (num_text v (-1) 10 (CHR '' ''))"
    "foldl (\<lambda>n c. n * 10 + (of_char c - 48)) 0 (num_text v (-1) 10 (CHR '' '')) = v"
    using decimal_text [of v "CHR '' ''"] by auto
  have "\<not> isdigit (CHR ''.'')" by code_simp
  then show "parse_loop 0 ip (num_text v (-1) 10 (CHR '' '') @ CHR ''.'' # cs) =
      parse_loop 0 (push_bit 8 ip OR (of_nat v AND 0xFF)) cs"
    using assms by (simp add: parse_digits [OF d(1)] d(2))
  show "parse_loop 0 ip (num_text v (-1) 10 (CHR '' '')) = Inr (push_bit 8 ip OR (of_nat v AND 0xFF))"
    using parse_digits [OF d(1), of 0 ip "[]"] assms by (simp add: d(2))
qed

lemma octets_assemble:
  "push_bit 8 (push_bit 8 (push_bit 8 (push_bit 8 0 OR (of_nat (octet 24 a) AND 0xFF)) OR (of_nat (octet 16 a) AND 0xFF))
     OR (of_nat (octet 8 a) AND 0xFF)) OR (of_nat (octet 0 a) AND 0xFF) = a"
proof -
  have o: "of_nat (octet k a) AND 0xFF = (drop_bit k a AND mask 8 :: 32 word)" for k
    by (simp add: octet_def mask8 and.assoc)
  show ?thesis unfolding o
  proof (rule bit_word_eqI)
    fix n assume "n < LENGTH(32)"
    then consider "n < 8" | "8 \<le> n" "n < 16" | "16 \<le> n" "n < 24" | "24 \<le> n" "n < 32" by fastforce
    then show "bit (push_bit 8 (push_bit 8 (push_bit 8 (push_bit 8 0 OR (drop_bit 24 a AND mask 8)) OR (drop_bit 16 a AND mask 8))
        OR (drop_bit 8 a AND mask 8)) OR (drop_bit 0 a AND mask 8)) n = bit a n"
      by cases (auto simp: bit_simps)
  qed
qed

definition dotted :: "32 word \<Rightarrow> token list" where
  "dotted a = [Num None ConvD (octet 24 a), Lit (CHR ''.''), Num None ConvD (octet 16 a), Lit (CHR ''.''),
     Num None ConvD (octet 8 a), Lit (CHR ''.''), Num None ConvD (octet 0 a)]"

lemma decimal_width: "v < 1000 \<Longrightarrow> length (num_text v (-1) 10 c) \<le> 3"
proof -
  assume "v < 1000"
  then have "v div 10 < 100" "v div 10 div 10 < 10" "v div 10 div 10 div 10 = 0" by auto
  then show ?thesis
    using count_loop.simps [of 10 "v div 10"] count_loop.simps [of 10 "v div 10 div 10"] count_loop.simps [of 10 0]
    by (simp add: length_num_text num_width_def)
qed

lemma dotted_length: "length (concat (map token_out (dotted a))) \<le> 15"
proof -
  have "length (num_text (octet k a) (-1) 10 (CHR '' '')) \<le> 3" for k
    using octet_less [of k a] by (intro decimal_width) simp
  from this [of 24] this [of 16] this [of 8] this [of 0] show ?thesis by (simp add: dotted_def)
qed

lemma ipaddr_str_dotted:
  "ipaddr_str mem a = format mem (concat (map token_fmt (dotted a))) (concat (map token_args (dotted a)))"
  by (simp add: ipaddr_str_def dotted_def octet_def)

lemma parse_dotted: "parse_ipaddr (concat (map token_out (dotted a))) = Inr a"
proof -
  have "parse_ipaddr (concat (map token_out (dotted a))) =
      Inr (push_bit 8 (push_bit 8 (push_bit 8 (push_bit 8 0 OR (of_nat (octet 24 a) AND 0xFF))
        OR (of_nat (octet 16 a) AND 0xFF)) OR (of_nat (octet 8 a) AND 0xFF)) OR (of_nat (octet 0 a) AND 0xFF))"
    by (simp only: parse_ipaddr_def dotted_def list.map concat.simps token_out.simps num_out.simps append.simps
        append_Nil2 append_assoc parse_octet octet_less)
  then show ?thesis unfolding octets_assemble .
qed

subsection \<open>Properties\<close>

text \<open>
  \<^bold>\<open>C26.\<close> The checksum: adding up 32-bit words as \<open>sum_words\<close> does and folding gives the
  same as adding up the 16-bit words the standard asks for, for any length; and bytes that
  carry, at an even offset, the checksum computed with that field zero add up to \<open>0xFFFF\<close>,
  which is how a receiver validates them.
\<close>

theorem checksum_correct:
  assumes "even (length a)"
  shows "fold_sum (sum_words bs) = fold_sum (sum16 bs) \<and>
     fold_sum (sum_words (a @ le16 (checksum_of (sum_words (a @ [0, 0] @ b))) @ b)) = 0xFFFF"
proof
  show "fold_sum (sum_words bs) = fold_sum (sum16 bs)"
    by (rule fold_sum_cong [OF sum_words_cong sum_words_zero])
  let ?z = "a @ [0, 0] @ b" and ?c = "checksum_of (sum_words (a @ [0, 0] @ b))"
  have "sum16 (a @ le16 ?c @ b) = sum16 ?z + unat ?c"
    using assms by (simp add: sum16_append sum16_le16)
  moreover have "fold_sum (sum16 ?z + unat ?c) = 0xFFFF"
    by (rule checksum_completes [OF sum_words_cong sum_words_zero])
  ultimately show "fold_sum (sum_words (a @ le16 ?c @ b)) = 0xFFFF"
    using fold_sum_cong [OF sum_words_cong sum_words_zero, of "a @ le16 ?c @ b"] by simp
qed

theorem checksum_correct_witness:
  "even (length [0x45, 0 :: byte]) \<and>
   fold_sum (sum_words ([0x45, 0] @ le16 (checksum_of (sum_words ([0x45, 0] @ [0, 0] @ [7]))) @ [7])) = 0xFFFF"
  using checksum_correct [of "[0x45, 0]" "[]" "[7]"] by simp

text \<open>
  \<^bold>\<open>C38.\<close> Printing an IPv4 address into the 16 bytes the code reserves always fits, and
  \<open>parse_ipaddr\<close> of the text gives the address back.
\<close>

theorem ipaddr_roundtrip:
  assumes "length mem = 16"
  shows "\<exists>s. ipaddr_str mem a = Inr s \<and> s_wf s \<and> parse_ipaddr (s_text s) = Inr a"
proof -
  have ok: "\<forall>t \<in> set (dotted a). token_ok t" by (simp add: dotted_def)
  let ?s = "\<lparr>storage = mem[0 := NUL], sposition = 0\<rparr>"
  have w: "s_wf ?s" "s_text ?s = []" using assms by (auto simp: s_wf_def s_text_def)
  have "sposition ?s + length (concat (map token_out (dotted a))) < length (storage ?s)"
    using dotted_length [of a] assms by simp
  from format_tokens [OF ok w(1) this] obtain s where
    "format_args (concat (map token_args (dotted a))) (concat (map token_fmt (dotted a)), ?s) = Inr ([], s)"
    "s_wf s" "s_text s = concat (map token_out (dotted a))" using w(2) by auto
  then show ?thesis
    using parse_dotted [of a] assms unfolding ipaddr_str_dotted by (auto simp: format_def string_init_def)
qed

theorem ipaddr_roundtrip_witness:
  "length (replicate 16 NUL) = 16 \<and>
   (\<exists>s. ipaddr_str (replicate 16 NUL) 0xC0A80001 = Inr s \<and> parse_ipaddr (s_text s) = Inr 0xC0A80001)"
  using ipaddr_roundtrip [of "replicate 16 NUL" "0xC0A80001"] by auto

end
