(* ===== verification/Net_Stack.thy ===== *)
theory Net_Stack
  imports Net_Utils Queue Flip_Buffer Frag_Buffer Unordered_Map
begin

text \<open>
  The state of one protocol stack (\<open>libraries/net/protocol_stack.h\<close>) and the headers of
  its layers: \<open>ethernet/definitions.h\<close>, \<open>arp/definitions.h\<close>, \<open>ipv4/definitions.h\<close>,
  \<open>udp/definitions.h\<close>, \<open>tcp/definitions.h\<close>. Every layer's operations work on the same
  state, which also records the frames handed to the network device in order (the device is
  an interface of the library, with no implementation here).

  A packed header is a record of its fields in the byte order the code stores them; the
  \<open>_bytes\<close> functions give its memory image and the \<open>_parse\<close> functions read one back.
\<close>

unbundle bit_operations_syntax

type_synonym ipaddr = "32 word"

text \<open>Six octets.\<close>

type_synonym hwaddr = "byte list"

definition wildcard_address :: hwaddr where
  "wildcard_address = [0, 0, 0, 0, 0, 0]"

definition broadcast_address :: hwaddr where
  "broadcast_address = [255, 255, 255, 255, 255, 255]"

definition ET_IPV4 :: "16 word" where
  "ET_IPV4 = 0x0800"

definition ET_ARP :: "16 word" where
  "ET_ARP = 0x0806"

subsection \<open>Headers\<close>

record eth_header =
  mac_dest :: hwaddr
  mac_src :: hwaddr
  eth_type :: "16 word"

definition eth_bytes :: "eth_header \<Rightarrow> byte list" where
  "eth_bytes h = mac_dest h @ mac_src h @ le16 (eth_type h)"

definition eth_parse :: "byte list \<Rightarrow> eth_header" where
  "eth_parse bs = \<lparr>mac_dest = take 6 bs, mac_src = take 6 (drop 6 bs), eth_type = de16 (bs ! 12) (bs ! 13)\<rparr>"

record arp_header =
  htype :: "16 word"
  ptype :: "16 word"
  hlen :: byte
  plen :: byte
  oper :: "16 word"
  sha :: hwaddr
  spa :: ipaddr
  tha :: hwaddr
  tpa :: ipaddr

definition arp_bytes :: "arp_header \<Rightarrow> byte list" where
  "arp_bytes h = le16 (htype h) @ le16 (ptype h) @ [hlen h, plen h] @ le16 (oper h) @
     sha h @ le32 (spa h) @ tha h @ le32 (tpa h)"

definition arp_parse :: "byte list \<Rightarrow> arp_header" where
  "arp_parse bs =
     \<lparr>htype = de16 (bs ! 0) (bs ! 1), ptype = de16 (bs ! 2) (bs ! 3), hlen = bs ! 4, plen = bs ! 5,
      oper = de16 (bs ! 6) (bs ! 7), sha = take 6 (drop 8 bs),
      spa = de32 (bs ! 14) (bs ! 15) (bs ! 16) (bs ! 17), tha = take 6 (drop 18 bs),
      tpa = de32 (bs ! 24) (bs ! 25) (bs ! 26) (bs ! 27)\<rparr>"

text \<open>The two bit fields of the first byte: \<open>ihl\<close> is the low nibble, \<open>version\<close> the high one.\<close>

record ipv4_header =
  ihl :: byte
  version :: byte
  ecn_dscp :: byte
  total_len :: "16 word"
  ip_id :: "16 word"
  frag_ofs :: "16 word"
  ttl :: byte
  ip_protocol :: byte
  ip_checksum :: "16 word"
  src_addr :: ipaddr
  dest_addr :: ipaddr

definition ipv4_bytes :: "ipv4_header \<Rightarrow> byte list" where
  "ipv4_bytes h =
     [(ihl h AND 0x0F) OR push_bit 4 (version h), ecn_dscp h] @ le16 (total_len h) @ le16 (ip_id h) @
     le16 (frag_ofs h) @ [ttl h, ip_protocol h] @ le16 (ip_checksum h) @ le32 (src_addr h) @ le32 (dest_addr h)"

definition ipv4_parse :: "byte list \<Rightarrow> ipv4_header" where
  "ipv4_parse bs =
     \<lparr>ihl = bs ! 0 AND 0x0F, version = drop_bit 4 (bs ! 0), ecn_dscp = bs ! 1,
      total_len = de16 (bs ! 2) (bs ! 3), ip_id = de16 (bs ! 4) (bs ! 5), frag_ofs = de16 (bs ! 6) (bs ! 7),
      ttl = bs ! 8, ip_protocol = bs ! 9, ip_checksum = de16 (bs ! 10) (bs ! 11),
      src_addr = de32 (bs ! 12) (bs ! 13) (bs ! 14) (bs ! 15),
      dest_addr = de32 (bs ! 16) (bs ! 17) (bs ! 18) (bs ! 19)\<rparr>"

record udp_header =
  udp_src_port :: "16 word"
  udp_dest_port :: "16 word"
  udp_length :: "16 word"
  udp_checksum :: "16 word"

definition udp_parse :: "byte list \<Rightarrow> udp_header" where
  "udp_parse bs =
     \<lparr>udp_src_port = de16 (bs ! 0) (bs ! 1), udp_dest_port = de16 (bs ! 2) (bs ! 3),
      udp_length = de16 (bs ! 4) (bs ! 5), udp_checksum = de16 (bs ! 6) (bs ! 7)\<rparr>"

record tcp_header =
  src_port :: "16 word"
  dest_port :: "16 word"
  seq_nbr :: "32 word"
  ack_nbr :: "32 word"
  flags_hdrsz :: "16 word"
  wndsz :: "16 word"
  tcp_checksum :: "16 word"
  urgptr :: "16 word"

definition tcp_bytes :: "tcp_header \<Rightarrow> byte list" where
  "tcp_bytes h = le16 (src_port h) @ le16 (dest_port h) @ le32 (seq_nbr h) @ le32 (ack_nbr h) @
     le16 (flags_hdrsz h) @ le16 (wndsz h) @ le16 (tcp_checksum h) @ le16 (urgptr h)"

definition tcp_parse :: "byte list \<Rightarrow> tcp_header" where
  "tcp_parse bs =
     \<lparr>src_port = de16 (bs ! 0) (bs ! 1), dest_port = de16 (bs ! 2) (bs ! 3),
      seq_nbr = de32 (bs ! 4) (bs ! 5) (bs ! 6) (bs ! 7), ack_nbr = de32 (bs ! 8) (bs ! 9) (bs ! 10) (bs ! 11),
      flags_hdrsz = de16 (bs ! 12) (bs ! 13), wndsz = de16 (bs ! 14) (bs ! 15),
      tcp_checksum = de16 (bs ! 16) (bs ! 17), urgptr = de16 (bs ! 18) (bs ! 19)\<rparr>"

subsection \<open>The state of a stack\<close>

record cache_entry =
  c_ipaddr :: ipaddr
  c_hwaddr :: hwaddr

text \<open>
  The functions handed to \<open>fetch_network\<close>, by the call that creates them: the empty one of
  an oversized datagram, the check of \<open>ipv4::configure\<close>, and the resumption of
  \<open>ipv4::send\<close> with what the lambda captures.
\<close>

datatype waiter = NoAction | GatewayCheck ipaddr | SendDatagram byte ipaddr handle nat

text \<open>A \<open>retryable\<close> whose operation is the request for \<open>pr_ipaddr\<close>.\<close>

record probe =
  pr_ipaddr :: ipaddr
  waiters :: "waiter pool"
  last_delta :: int
  retry_timer :: int
  retries :: int

record reassembly_ident =
  rb_dest :: ipaddr
  rb_source :: ipaddr
  rb_ident :: "16 word"
  rb_protocol :: byte

record reassembly_buffer =
  rb_ttl :: int
  received_last :: bool
  rb_data :: frag_buffer

record net_stack =
  hw_address :: hwaddr
  mappings :: "cache_entry queue"
  active_probes :: "(ipaddr, probe) entry pool"
  ip_local :: ipaddr
  ip_netmask :: ipaddr
  default_gateway :: ipaddr
  arp_wait_buffer :: flip_buffer
  next_datagram_id :: "16 word"
  reassembly_buffers :: "(reassembly_ident, reassembly_buffer) entry pool"
  sent :: "byte list list"

text \<open>
  The state the constructors leave, with the addresses a configured stack has. The wait
  buffer holds 10240 bytes per side, and there are 32 probes and 10 reassembly buffers.
\<close>

definition net_stack_init :: "hwaddr \<Rightarrow> ipaddr \<Rightarrow> ipaddr \<Rightarrow> ipaddr \<Rightarrow> net_stack" where
  "net_stack_init hw local netmask gateway =
     \<lparr>hw_address = hw, mappings = mk_queue \<lparr>c_ipaddr = 0, c_hwaddr = replicate 6 0\<rparr> 64,
      active_probes = fixed_pool 32, ip_local = local, ip_netmask = netmask, default_gateway = gateway,
      arp_wait_buffer = flip_buffer_init 10240, next_datagram_id = 0, reassembly_buffers = fixed_pool 10,
      sent = []\<rparr>"

subsection \<open>Header images\<close>

lemma length_eth_bytes [simp]: "length (mac_dest h) = 6 \<Longrightarrow> length (mac_src h) = 6 \<Longrightarrow> length (eth_bytes h) = 14"
  by (simp add: eth_bytes_def)

lemma length_arp_bytes [simp]: "length (sha h) = 6 \<Longrightarrow> length (tha h) = 6 \<Longrightarrow> length (arp_bytes h) = 28"
  by (simp add: arp_bytes_def)

lemma length_ipv4_bytes [simp]: "length (ipv4_bytes h) = 20"
  by (simp add: ipv4_bytes_def)

lemma length_tcp_bytes [simp]: "length (tcp_bytes h) = 20"
  by (simp add: tcp_bytes_def)

lemma list6: "length xs = 6 \<Longrightarrow> \<exists>a b c d e f. xs = [a, b, c, d, e, f]"
  by (auto simp: length_Suc_conv eval_nat_numeral)

lemma eth_parse_bytes:
  assumes "length (mac_dest h) = 6" "length (mac_src h) = 6"
  shows "eth_parse (eth_bytes h @ rest) = h"
  using list6 [OF assms(1)] list6 [OF assms(2)]
  by (cases h) (auto simp: eth_parse_def eth_bytes_def le16_def de16_le)

lemma arp_parse_bytes:
  assumes "length (sha h) = 6" "length (tha h) = 6"
  shows "arp_parse (arp_bytes h @ rest) = h"
  using list6 [OF assms(1)] list6 [OF assms(2)]
  by (cases h) (auto simp: arp_parse_def arp_bytes_def le16_def le32_def de16_le de32_le)

text \<open>The nibbles of a byte hold values below 16.\<close>

definition nibble :: "byte \<Rightarrow> bool" where
  "nibble b \<longleftrightarrow> b AND 0x0F = b"

lemma nibble_mask: "(0x0F :: byte) = mask 4"
  by (simp add: mask_eq_exp_minus_1)

lemma nibble_bit: "nibble b \<Longrightarrow> bit b n \<Longrightarrow> n < 4"
  unfolding nibble_def nibble_mask by (metis bit_and_iff bit_mask_iff)

lemma nibbles:
  assumes "nibble l" "nibble v"
  shows "((l AND 0x0F) OR push_bit 4 v) AND 0x0F = l" "drop_bit 4 ((l AND 0x0F) OR push_bit 4 v) = v"
proof -
  have l: "l AND mask 4 = l" using assms(1) by (simp add: nibble_def nibble_mask)
  show "((l AND 0x0F) OR push_bit 4 v) AND 0x0F = l" unfolding nibble_mask l
    using nibble_bit [OF assms(1)] by (intro bit_word_eqI) (auto simp: bit_simps)
  show "drop_bit 4 ((l AND 0x0F) OR push_bit 4 v) = v" unfolding nibble_mask l
    using nibble_bit [OF assms(1)] nibble_bit [OF assms(2)]
    by (intro bit_word_eqI) (fastforce simp: bit_simps)
qed

lemma ipv4_parse_bytes:
  assumes "nibble (ihl h)" "nibble (version h)"
  shows "ipv4_parse (ipv4_bytes h @ rest) = h"
  using nibbles [OF assms]
  by (cases h) (simp add: ipv4_parse_def ipv4_bytes_def le16_def le32_def de16_le de32_le)

lemma tcp_parse_bytes: "tcp_parse (tcp_bytes h @ rest) = h"
  by (cases h) (simp add: tcp_parse_def tcp_bytes_def le16_def le32_def de16_le de32_le)

end
