(* ===== verification/Net_Output.thy ===== *)
theory Net_Output
  imports Net_Stack
begin

text \<open>
  Sending: \<open>ethernet::protocol::send\<close>, the ARP layer (\<open>arp/protocol.cc\<close> with the
  \<open>retryable\<close> of \<open>retryable.h\<close>) and the sending half of IPv4 (\<open>ipv4/protocol.cc\<close>).
  A datagram whose next hop is unknown waits in the flip buffer while ARP asks for the
  address; the ARP reply runs the waiting functions.

  Logging is not modelled. The value a device returns from \<open>send\<close> is ignored by every
  caller, so sending yields the new state only.
\<close>

unbundle bit_operations_syntax

subsection \<open>Ethernet\<close>

definition ethernet_send :: "16 word \<Rightarrow> hwaddr \<Rightarrow> byte list \<Rightarrow> 'a net_stack_scheme \<Rightarrow> 'a net_stack_scheme res" where
  "ethernet_send type dest payload s =
     (let hdr = \<lparr>mac_dest = dest, mac_src = hw_address s, eth_type = htons type\<rparr>
      in assertR (14 + length payload \<le> 5128)
          (Inr (s\<lparr>sent := sent s @ [eth_bytes hdr @ payload]\<rparr>)))"

subsection \<open>IPv4 datagrams\<close>

definition ipv4_checksum :: "ipv4_header \<Rightarrow> byte list \<Rightarrow> 16 word res" where
  "ipv4_checksum h options =
     assertR (ip_checksum h = 0) (Inr (checksum_of (sum_words (ipv4_bytes h) + sum_words options)))"

definition send_single_datagram ::
  "byte \<Rightarrow> ipaddr \<Rightarrow> ipaddr \<Rightarrow> hwaddr \<Rightarrow> byte list \<Rightarrow> 'a net_stack_scheme \<Rightarrow> 'a net_stack_scheme res" where
  "send_single_datagram protocol src dest next_hop payload s =
     (let hdr = \<lparr>ihl = 5, version = 4, ecn_dscp = 0, total_len = htons (of_nat (20 + length payload)),
            ip_id = htons (next_datagram_id s), frag_ofs = htons 0, ttl = 65, ip_protocol = protocol,
            ip_checksum = 0, src_addr = htonl src, dest_addr = htonl dest\<rparr>;
          s1 = s\<lparr>next_datagram_id := next_datagram_id s + 1\<rparr>
      in bindR (ipv4_checksum hdr []) (\<lambda>c.
         if 1500 < 20 + length payload then Inr s1
         else ethernet_send ET_IPV4 next_hop (ipv4_bytes (hdr\<lparr>ip_checksum := c\<rparr>) @ payload) s1))"

definition ipv4_send_via ::
  "byte \<Rightarrow> ipaddr \<Rightarrow> hwaddr \<Rightarrow> byte list \<Rightarrow> 'a net_stack_scheme \<Rightarrow> 'a net_stack_scheme res" where
  "ipv4_send_via protocol dest next_hop payload s =
     send_single_datagram protocol (ip_local s) dest next_hop payload s"

subsection \<open>The ARP mapping table\<close>

definition mapping_insert :: "ipaddr \<Rightarrow> hwaddr \<Rightarrow> cache_entry queue \<Rightarrow> cache_entry queue res" where
  "mapping_insert ip hw q =
     bindR (if q_full q then bindR (pop_front q) (\<lambda>(q1, _). Inr q1) else Inr q) (\<lambda>q1.
     bindR (push_back \<lparr>c_ipaddr = ip, c_hwaddr = hw\<rparr> q1) (\<lambda>(q2, _). Inr q2))"

fun fetch_loop :: "ipaddr \<Rightarrow> cache_entry queue \<Rightarrow> int \<Rightarrow> nat \<Rightarrow> hwaddr option \<Rightarrow> hwaddr option res" where
  "fetch_loop ip q index 0 latest = Inr latest"
| "fetch_loop ip q index (Suc n) latest =
     bindR (item_get index q) (\<lambda>e.
     fetch_loop ip q (index + 1) n (if c_ipaddr e = ip then Some (c_hwaddr e) else latest))"

definition mapping_fetch :: "ipaddr \<Rightarrow> cache_entry queue \<Rightarrow> hwaddr option res" where
  "mapping_fetch ip q = fetch_loop ip q (q_begin q) (nat (q_end q - q_begin q)) None"

subsection \<open>Waiting functions\<close>

text \<open>What a function handed to \<open>fetch_network\<close> does with the address, or with its absence.\<close>

definition run_waiter :: "waiter \<Rightarrow> hwaddr option \<Rightarrow> 'a net_stack_scheme \<Rightarrow> 'a net_stack_scheme res" where
  "run_waiter w result s =
     (case w of
        NoAction \<Rightarrow> Inr s
      | GatewayCheck gateway \<Rightarrow>
          (case result of
             None \<Rightarrow> Inr s
           | Some _ \<Rightarrow> bindR (mapping_fetch gateway (mappings s)) (\<lambda>hw. assertR (hw \<noteq> None) (Inr s)))
      | SendDatagram protocol dest h len \<Rightarrow>
          (case result of
             None \<Rightarrow> Inr s
           | Some next_hop \<Rightarrow>
               (case fb_data h (arp_wait_buffer s) of
                  None \<Rightarrow> Inr s
                | Some (b, off) \<Rightarrow>
                    let d = buf_data (buffers (arp_wait_buffer s) ! b)
                    in if off + len \<le> length d
                       then ipv4_send_via protocol dest next_hop (take len (drop off d)) s
                       else Inl OutOfBounds)))"

fun notify_list :: "nat list \<Rightarrow> waiter pool \<Rightarrow> hwaddr option \<Rightarrow> 'a net_stack_scheme \<Rightarrow> 'a net_stack_scheme res" where
  "notify_list [] p result s = Inr s"
| "notify_list (i # is) p result s =
     bindR (get p i) (\<lambda>w. bindR (run_waiter w result s) (notify_list is p result))"

definition notify_all :: "hwaddr option \<Rightarrow> probe \<Rightarrow> 'a net_stack_scheme \<Rightarrow> 'a net_stack_scheme res" where
  "notify_all result pr s = notify_list (iter_from (waiters pr) (pool_begin (waiters pr))) (waiters pr) result s"

subsection \<open>Probes\<close>

definition arp_send :: "16 word \<Rightarrow> ipaddr \<Rightarrow> hwaddr \<Rightarrow> hwaddr \<Rightarrow> 'a net_stack_scheme \<Rightarrow> 'a net_stack_scheme res" where
  "arp_send operation target target_hw next_hop s =
     (let hdr = \<lparr>htype = htons 1, ptype = htons ET_IPV4, hlen = 6, plen = 4, oper = htons operation,
            sha = hw_address s, spa = htonl (ip_local s), tha = target_hw, tpa = htonl target\<rparr>
      in ethernet_send ET_ARP next_hop (arp_bytes hdr) s)"

definition OP_REQUEST :: "16 word" where
  "OP_REQUEST = 1"

definition OP_REPLY :: "16 word" where
  "OP_REPLY = 2"

definition probe_init :: "ipaddr \<Rightarrow> probe" where
  "probe_init ip = \<lparr>pr_ipaddr = ip, waiters = fixed_pool 32, last_delta = 200, retry_timer = 0, retries = 0\<rparr>"

definition probe_tick :: "int \<Rightarrow> probe \<Rightarrow> 'a net_stack_scheme \<Rightarrow> (probe \<times> 'a net_stack_scheme \<times> bool) res" where
  "probe_tick dt pr s =
     (let pr1 = pr\<lparr>retry_timer := retry_timer pr - dt\<rparr>
      in if retry_timer pr1 \<le> 0
         then let pr2 = pr1\<lparr>retries := retries pr1 + 1\<rparr>
              in if 4 < retries pr1 then Inr (pr2, s, False)
                 else let pr3 = pr2\<lparr>last_delta := last_delta pr2 * 2, retry_timer := last_delta pr2 * 2\<rparr>
                      in bindR (arp_send OP_REQUEST (pr_ipaddr pr3) wildcard_address broadcast_address s) (\<lambda>s'.
                         Inr (pr3, s', True))
         else Inr (pr1, s, True))"

definition probe_reset :: "probe \<Rightarrow> probe" where
  "probe_reset pr = pr\<lparr>retry_timer := cdiv (retry_timer pr) 2, last_delta := cdiv (last_delta pr) 2, retries := 0\<rparr>"

definition probe_await :: "waiter \<Rightarrow> probe \<Rightarrow> probe res" where
  "probe_await w pr = bindR (emplace_anywhere w (waiters pr)) (\<lambda>(p, _). Inr (pr\<lparr>waiters := p\<rparr>))"

text \<open>An assignment to the probe an iterator points at.\<close>

definition put_probe :: "nat \<Rightarrow> probe \<Rightarrow> 'a net_stack_scheme \<Rightarrow> 'a net_stack_scheme res" where
  "put_probe it pr s =
     bindR (modify it (\<lambda>e. e\<lparr>evalue := pr\<rparr>) (active_probes s)) (\<lambda>p. Inr (s\<lparr>active_probes := p\<rparr>))"

subsection \<open>The ARP protocol\<close>

definition write_cache_entry :: "ipaddr \<Rightarrow> hwaddr \<Rightarrow> 'a net_stack_scheme \<Rightarrow> 'a net_stack_scheme res" where
  "write_cache_entry ip hw s =
     bindR (mapping_insert ip hw (mappings s)) (\<lambda>q.
     let s1 = s\<lparr>mappings := q\<rparr> in
     bindR (um_find ip (active_probes s1)) (\<lambda>it.
     if it \<noteq> watermark (active_probes s1)
     then bindR (get (active_probes s1) it) (\<lambda>e.
          bindR (notify_all (Some hw) (evalue e) s1) (\<lambda>s2.
          bindR (um_erase it (active_probes s2)) (\<lambda>p. Inr (s2\<lparr>active_probes := p\<rparr>))))
     else Inr s1))"

definition fetch_cached :: "ipaddr \<Rightarrow> 'a net_stack_scheme \<Rightarrow> hwaddr option res" where
  "fetch_cached ip s = mapping_fetch ip (mappings s)"

definition fetch_network :: "ipaddr \<Rightarrow> waiter \<Rightarrow> 'a net_stack_scheme \<Rightarrow> 'a net_stack_scheme res" where
  "fetch_network ip w s =
     bindR (mapping_fetch ip (mappings s)) (\<lambda>found.
     case found of
       Some hw \<Rightarrow> run_waiter w (Some hw) s
     | None \<Rightarrow>
         bindR (um_find ip (active_probes s)) (\<lambda>it.
         if it \<noteq> watermark (active_probes s)
         then bindR (get (active_probes s) it) (\<lambda>e.
              bindR (probe_await w (probe_reset (evalue e))) (\<lambda>pr. put_probe it pr s))
         else bindR (um_insert ip (probe_init ip) (active_probes s)) (\<lambda>(p, _).
              let s1 = s\<lparr>active_probes := p\<rparr> in
              bindR (um_find ip p) (\<lambda>it'.
              assertR (it' \<noteq> watermark p)
               (bindR (get p it') (\<lambda>e.
                bindR (probe_await w (evalue e)) (\<lambda>pr.
                bindR (probe_tick 0 pr s1) (\<lambda>(pr', s2, _). put_probe it' pr' s2))))))))"

text \<open>
  \<open>arp::tick\<close> walks the probes while erasing from the pool it walks; the fuel bounds the
  number of probes visited.
\<close>

fun arp_tick_loop :: "nat \<Rightarrow> int \<Rightarrow> nat \<Rightarrow> 'a net_stack_scheme \<Rightarrow> 'a net_stack_scheme res" where
  "arp_tick_loop 0 dt it s = Inl Diverges"
| "arp_tick_loop (Suc fuel) dt it s =
     (if it mod 65536 = watermark (active_probes s) mod 65536 then Inr s
      else bindR (get (active_probes s) it) (\<lambda>e.
           bindR (probe_tick dt (evalue e) s) (\<lambda>(pr, s1, alive).
           bindR (put_probe it pr s1) (\<lambda>s2.
           if alive then arp_tick_loop fuel dt (pool_next (active_probes s2) it) s2
           else bindR (notify_all None pr s2) (\<lambda>s3.
                bindR (um_erase it (active_probes s3)) (\<lambda>p.
                let s4 = s3\<lparr>active_probes := p\<rparr>
                in arp_tick_loop fuel dt (pool_next p it) s4))))))"

definition arp_tick :: "nat \<Rightarrow> int \<Rightarrow> 'a net_stack_scheme \<Rightarrow> 'a net_stack_scheme res" where
  "arp_tick fuel delta_ms s = arp_tick_loop fuel (s32 delta_ms) (pool_begin (active_probes s)) s"

definition arp_on_receive :: "hwaddr \<Rightarrow> byte list \<Rightarrow> 'a net_stack_scheme \<Rightarrow> 'a net_stack_scheme res" where
  "arp_on_receive frame_src bs s =
     assertR (28 \<le> length bs)
      (let hdr = arp_parse bs;
           htype' = ntohs (htype hdr); ptype' = ntohs (ptype hdr); oper' = ntohs (oper hdr)
       in if htype' \<noteq> 1 \<or> ptype' \<noteq> ET_IPV4 then Inr s
          else if hlen hdr \<noteq> 6 \<or> plen hdr \<noteq> 4 then Inr s
          else if hw_address s = sha hdr then Inr s
          else let spa' = ntohl (spa hdr); tpa' = ntohl (tpa hdr)
               in if oper' = OP_REQUEST
                  then if tpa' = ip_local s then arp_send OP_REPLY spa' (sha hdr) frame_src s else Inr s
                  else if oper' = OP_REPLY then write_cache_entry spa' (sha hdr) s
                  else Inr s)"

subsection \<open>Sending a datagram\<close>

text \<open>\<open>memcpy\<close> through the pointer \<open>flip_buffer::data\<close> returns.\<close>

definition fb_store :: "nat \<times> nat \<Rightarrow> byte list \<Rightarrow> flip_buffer \<Rightarrow> flip_buffer res" where
  "fb_store p src fb =
     (case p of (b, off) \<Rightarrow>
        bindR (memcpy_at (int off) src (buf_data (buffers fb ! b))) (\<lambda>d.
        Inr (fb\<lparr>buffers := (buffers fb)[b := (buffers fb ! b)\<lparr>buf_data := d\<rparr>]\<rparr>)))"

definition ipv4_send ::
  "byte \<Rightarrow> ipaddr \<Rightarrow> byte list \<Rightarrow> 'a net_stack_scheme \<Rightarrow> ('a net_stack_scheme \<times> bool) res" where
  "ipv4_send protocol dest payload s =
     (let next_hop_ipaddr =
            (if ip_local s AND ip_netmask s = dest AND ip_netmask s then dest else default_gateway s)
      in bindR (fetch_cached next_hop_ipaddr s) (\<lambda>cached.
         case cached of
           Some next_hop \<Rightarrow> bindR (ipv4_send_via protocol dest next_hop payload s) (\<lambda>s'. Inr (s', True))
         | None \<Rightarrow>
             if fb_capacity (arp_wait_buffer s) < length payload
             then bindR (fetch_network next_hop_ipaddr NoAction s) (\<lambda>s'. Inr (s', False))
             else
               let (fb, h) = fb_alloc (length payload) (arp_wait_buffer s)
               in bindR (case fb_data h fb of
                           Some p \<Rightarrow> fb_store p payload fb
                         | None \<Rightarrow> if payload = [] then Inr fb else Inl OutOfBounds) (\<lambda>fb'.
                  bindR (fetch_network next_hop_ipaddr (SendDatagram protocol dest h (length payload))
                          (s\<lparr>arp_wait_buffer := fb'\<rparr>)) (\<lambda>s'. Inr (s', True)))))"

definition ipv4_configure :: "ipaddr \<Rightarrow> ipaddr \<Rightarrow> ipaddr \<Rightarrow> 'a net_stack_scheme \<Rightarrow> 'a net_stack_scheme res" where
  "ipv4_configure local netmask gateway s =
     fetch_network gateway (GatewayCheck gateway)
       (s\<lparr>ip_local := local, ip_netmask := netmask, default_gateway := gateway\<rparr>)"

definition ethernet_configure :: "hwaddr \<Rightarrow> 'a net_stack_scheme \<Rightarrow> 'a net_stack_scheme" where
  "ethernet_configure hw s = s\<lparr>hw_address := hw\<rparr>"


subsection \<open>The mapping table as a list of the last mappings\<close>

definition latest_of :: "ipaddr \<Rightarrow> cache_entry list \<Rightarrow> hwaddr option" where
  "latest_of ip es = map_of (rev (map (\<lambda>e. (c_ipaddr e, c_hwaddr e)) es)) ip"

lemma latest_of_simps [simp]:
  "latest_of ip [] = None"
  "latest_of ip (es @ [e]) = (if c_ipaddr e = ip then Some (c_hwaddr e) else latest_of ip es)"
  by (simp_all add: latest_of_def)

lemma latest_of_mem: "latest_of ip es = Some hw \<Longrightarrow> \<exists>e \<in> set es. c_ipaddr e = ip \<and> c_hwaddr e = hw"
  by (auto simp: latest_of_def dest!: map_of_SomeD)

lemma fetch_loop_prefix:
  assumes "q_inv q" "i \<le> nat (q_size q)"
  shows "fetch_loop ip q (read_idx q + int i) (nat (q_size q) - i) (latest_of ip (take i (q_list q))) =
     Inr (latest_of ip (q_list q))"
  using assms(2)
proof (induction "nat (q_size q) - i" arbitrary: i)
  case 0
  then show ?case by simp
next
  case (Suc n)
  let ?e = "items q ! slot q i"
  have i: "i < nat (q_size q)" "nat (q_size q) - i = Suc (nat (q_size q) - Suc i)" using Suc(2) by auto
  have t: "take (Suc i) (q_list q) = take i (q_list q) @ [?e]"
    using i(1) q_list_nth [OF i(1)] by (simp add: take_Suc_conv_app_nth)
  have "n = nat (q_size q) - Suc i" "Suc i \<le> nat (q_size q)" using Suc(2) i(1) by auto
  from Suc(1) [OF this] show ?case
    using i(2) item_get_slot [OF assms(1), of i] by (simp add: t algebra_simps)
qed

lemma mapping_fetch_list: "q_inv q \<Longrightarrow> mapping_fetch ip q = Inr (latest_of ip (q_list q))"
  using fetch_loop_prefix [of q 0 ip] by (simp add: mapping_fetch_def q_begin_def q_end_def q_size_def)

lemma mapping_insert_list:
  assumes "q_inv q"
  shows "\<exists>q'. mapping_insert ip hw q = Inr q' \<and> q_inv q' \<and> q_cap q' = q_cap q \<and>
     q_list q' = (if length (q_list q) = q_cap q then tl (q_list q) else q_list q) @ [\<lparr>c_ipaddr = ip, c_hwaddr = hw\<rparr>]"
proof (cases "q_full q")
  case True
  then have l: "length (q_list q) = q_cap q" "0 < q_cap q"
    using q_inv_size [OF assms] by (auto simp: q_full_def q_cap_def max_len_def)
  then obtain x xs where x: "q_list q = x # xs" by (cases "q_list q") (auto simp del: length_q_list)
  from pop_front_step [OF assms x] obtain q1 where
    q1: "pop_front q = Inr (q1, x)" "q_inv q1" "q_cap q1 = q_cap q" "q_list q1 = xs" by blast
  have "length (q_list q1) < q_cap q1" using l x q1 by (simp del: length_q_list)
  from push_back_room [OF q1(2) this, of "\<lparr>c_ipaddr = ip, c_hwaddr = hw\<rparr>"] show ?thesis
    using True q1 x l by (auto simp: mapping_insert_def simp del: length_q_list)
next
  case False
  then have "length (q_list q) \<noteq> q_cap q"
    using q_inv_size [OF assms] by (auto simp: q_full_def q_cap_def max_len_def)
  moreover have "length (q_list q) < q_cap q" using calculation q_list_bound [OF assms] by linarith
  from push_back_room [OF assms this, of "\<lparr>c_ipaddr = ip, c_hwaddr = hw\<rparr>"] show ?thesis
    using False calculation by (auto simp: mapping_insert_def simp del: length_q_list)
qed

text \<open>
  \<^bold>\<open>C27.\<close> The ARP mapping table keeps the last 64 mappings inserted and answers a lookup
  with the most recent one for the address: inserting never fails, makes the inserted address
  resolve to the new hardware address, pushes out only the oldest mapping when the table is
  full, and leaves every other address resolving as before whenever nothing is pushed out.
\<close>

theorem mapping_table_correct:
  assumes "q_inv q"
  shows "mapping_fetch ip q = Inr (latest_of ip (q_list q)) \<and>
    (\<exists>q'. mapping_insert ip hw q = Inr q' \<and> q_inv q' \<and> q_cap q' = q_cap q \<and>
       mapping_fetch ip q' = Inr (Some hw) \<and>
       (\<forall>ip'. ip' \<noteq> ip \<longrightarrow> mapping_fetch ip' q' =
          Inr (latest_of ip' (if length (q_list q) = q_cap q then tl (q_list q) else q_list q))))"
proof -
  obtain q' where q': "mapping_insert ip hw q = Inr q'" "q_inv q'" "q_cap q' = q_cap q"
    "q_list q' = (if length (q_list q) = q_cap q then tl (q_list q) else q_list q) @ [\<lparr>c_ipaddr = ip, c_hwaddr = hw\<rparr>]"
    using mapping_insert_list [OF assms, of ip hw] by blast
  show ?thesis
    using q' by (simp add: mapping_fetch_list assms del: length_q_list)
qed

theorem mapping_table_correct_witness:
  "q_inv (mk_queue \<lparr>c_ipaddr = 0, c_hwaddr = []\<rparr> 64) \<and>
   (\<exists>q'. mapping_insert 5 broadcast_address (mk_queue \<lparr>c_ipaddr = 0, c_hwaddr = []\<rparr> 64) = Inr q' \<and>
      mapping_fetch 5 q' = Inr (Some broadcast_address) \<and> mapping_fetch 6 q' = Inr None)"
  using mapping_table_correct [of "mk_queue \<lparr>c_ipaddr = 0, c_hwaddr = []\<rparr> 64" 5 broadcast_address] by auto

end
