(* ===== verification/TCP.thy ===== *)
theory TCP
  imports TCP_Queues Net_Output
begin

text \<open>
  TCP: connections (\<open>tcp/connection.cc\<close>), the states that drive them
  (\<open>tcp/connection_state.cc\<close>), the table of connections (\<open>tcp/connection_table.cc\<close>) and
  the protocol's entry points (\<open>tcp/protocol.cc\<close>).

  The state extends that of the stack with the table. The application's callback is a
  parameter: given the application's state, the connection's handle and the bytes received
  it returns its new state and the calls it makes on the connection, in order. While a
  connection is processed it is held outside the table and written back at the end; the code
  it runs reaches other table entries only (a new connection never takes a used slot).
\<close>

unbundle bit_operations_syntax

definition FIN :: "16 word" where "FIN = 0x0001"
definition SYN :: "16 word" where "SYN = 0x0002"
definition ACK :: "16 word" where "ACK = 0x0010"
definition PROTO_TCP :: byte where "PROTO_TCP = 6"

record endpoint =
  ep_ipaddr :: ipaddr
  ep_port :: "16 word"

definition wildcard_endpoint :: endpoint where
  "wildcard_endpoint = \<lparr>ep_ipaddr = 0, ep_port = 0\<rparr>"

datatype conn_state = LISTEN | SYN_RCVD | ESTABLISHED | LAST_ACK | FIN_WAIT_1 | FIN_WAIT_2 | CLOSING

record connection =
  c_handle :: nat
  c_remote :: endpoint
  c_local :: endpoint
  c_state :: conn_state
  rx_queue :: receive_queue
  tx_queue :: send_queue
  next_outgoing_seqnbr :: "32 word"
  has_callback :: bool

text \<open>The calls an application makes on the connection it is called for.\<close>

datatype app_call = AppSend "byte list" | AppClose

record 'app tcp_stack = net_stack +
  connections :: "connection pool"
  new_connections :: "nat pool"
  finished_connections :: "nat pool"
  tcp_callback :: bool
  app :: 'app

type_synonym 'app callback = "'app \<Rightarrow> nat \<Rightarrow> byte list \<Rightarrow> 'app \<times> app_call list"

text \<open>A received segment's header in host byte order, with the addresses of its datagram.\<close>

record segment_metadata =
  sm_src_addr :: ipaddr
  sm_dest_addr :: ipaddr
  sm_src_port :: "16 word"
  sm_dest_port :: "16 word"
  sm_seq_nbr :: "32 word"
  sm_ack_nbr :: "32 word"
  sm_flags :: "16 word"

definition has_flag :: "16 word \<Rightarrow> 16 word \<Rightarrow> bool" where
  "has_flag f flags \<longleftrightarrow> flags AND f \<noteq> 0"

definition connection_init :: "endpoint \<Rightarrow> endpoint \<Rightarrow> conn_state \<Rightarrow> connection" where
  "connection_init remote local st =
     \<lparr>c_handle = 0, c_remote = remote, c_local = local, c_state = st, rx_queue = receive_queue_init,
      tx_queue = send_queue_init, next_outgoing_seqnbr = 0, has_callback = False\<rparr>"

subsection \<open>Matching endpoints\<close>

definition count_specific_matches :: "endpoint \<Rightarrow> endpoint \<Rightarrow> int" where
  "count_specific_matches filt ep =
     (if ep_ipaddr filt \<noteq> 0 \<and> ep_ipaddr ep \<noteq> ep_ipaddr filt then -1
      else let n = (if ep_ipaddr filt \<noteq> 0 then 1 else 0)
           in if ep_port filt \<noteq> 0
              then if ep_port ep = ep_port filt then n + 1 else -1
              else n)"

definition conn_compare :: "endpoint \<Rightarrow> endpoint \<Rightarrow> connection \<Rightarrow> int" where
  "conn_compare remote local c =
     (let remote_match = count_specific_matches (c_remote c) remote;
          local_match = count_specific_matches (c_local c) local
      in if 0 \<le> remote_match \<and> 0 \<le> local_match then remote_match + local_match else -1)"

fun best_loop :: "endpoint \<Rightarrow> endpoint \<Rightarrow> connection pool \<Rightarrow> nat list \<Rightarrow> int \<Rightarrow> nat \<Rightarrow> nat res" where
  "best_loop remote local p [] best best_it = Inr best_it"
| "best_loop remote local p (it # its) best best_it =
     bindR (get p it) (\<lambda>c.
     let score = conn_compare remote local c
     in if best < score then best_loop remote local p its score it
        else best_loop remote local p its best best_it)"

definition find_best_match :: "endpoint \<Rightarrow> endpoint \<Rightarrow> 'app tcp_stack \<Rightarrow> nat res" where
  "find_best_match remote local s =
     (let p = connections s
      in bindR (best_loop remote local p (iter_from p (pool_begin p)) (-1) (watermark p)) (\<lambda>it.
         Inr (if it = watermark p then END_SENTINEL else it)))"

subsection \<open>The connection table\<close>

definition create_connection ::
  "endpoint \<Rightarrow> endpoint \<Rightarrow> conn_state \<Rightarrow> 'app tcp_stack \<Rightarrow> ('app tcp_stack \<times> nat) res" where
  "create_connection remote local st s =
     bindR (emplace_anywhere (connection_init remote local st) (connections s)) (\<lambda>(p, h).
     bindR (modify h (\<lambda>c. c\<lparr>c_handle := h, has_callback := tcp_callback s\<rparr>) p) (\<lambda>p'.
     bindR (emplace_anywhere h (new_connections s)) (\<lambda>(n, _).
     Inr (s\<lparr>connections := p', new_connections := n\<rparr>, h))))"

definition finish_connection :: "nat \<Rightarrow> 'app tcp_stack \<Rightarrow> 'app tcp_stack res" where
  "finish_connection h s =
     bindR (emplace_anywhere h (finished_connections s)) (\<lambda>(n, _). Inr (s\<lparr>finished_connections := n\<rparr>))"

subsection \<open>Sending segments\<close>

definition tcp_checksum_of :: "ipaddr \<Rightarrow> ipaddr \<Rightarrow> byte \<Rightarrow> byte list \<Rightarrow> byte list \<Rightarrow> 16 word" where
  "tcp_checksum_of src dest protocol data1 data2 =
     (let pseudo = le32 (htonl src) @ le32 (htonl dest) @ [0, protocol] @ le16 (htons (of_nat (length data1 + length data2)))
      in checksum_of (sum_words pseudo + sum_words data1 + sum_words data2))"

definition conn_send ::
  "16 word \<Rightarrow> 32 word \<Rightarrow> byte list \<Rightarrow> connection \<Rightarrow> 'app tcp_stack \<Rightarrow> (connection \<times> 'app tcp_stack) res" where
  "conn_send flags seqnbr payload c s =
     (let flags' = flags OR ACK;
          hdr = \<lparr>src_port = htons (ep_port (c_local c)), dest_port = htons (ep_port (c_remote c)),
            seq_nbr = htonl seqnbr, ack_nbr = htonl (rq_cursor (rx_queue c)),
            flags_hdrsz = htons ((flags' AND 0x1FF) OR push_bit 12 5), wndsz = htons 10000,
            tcp_checksum = 0, urgptr = 0\<rparr>;
          dest = ep_ipaddr (c_remote c);
          body = (if ((has_flag SYN flags' \<or> has_flag FIN flags') \<and> length payload = 1) \<or> length payload = 0
                  then [] else payload);
          sum = tcp_checksum_of (ip_local s) dest PROTO_TCP (tcp_bytes hdr) body
      in assertR (body = [] \<or> length body + 20 < 1500)
          (bindR (ipv4_send PROTO_TCP dest (tcp_bytes (hdr\<lparr>tcp_checksum := sum\<rparr>) @ body) s) (\<lambda>(s', _).
           Inr (c\<lparr>next_outgoing_seqnbr := seqnbr + of_nat (length payload)\<rparr>, s'))))"

subsection \<open>Operations on one connection\<close>

definition phantom :: "byte list" where
  "phantom = [33]"

definition conn_sequence :: "segment_metadata \<Rightarrow> byte list option \<Rightarrow> connection \<Rightarrow> connection res" where
  "conn_sequence md payload c =
     (case payload of
        None \<Rightarrow> Inl OutOfBounds
      | Some bs \<Rightarrow>
          bindR (rq_insert \<lparr>rs_flags = sm_flags md, rs_seqnbr = sm_seq_nbr md, rs_length = 0\<rparr> bs (rx_queue c)) (\<lambda>(q, _).
          Inr (c\<lparr>rx_queue := q\<rparr>)))"

definition transmit :: "16 word \<Rightarrow> byte list \<Rightarrow> nat \<Rightarrow> connection \<Rightarrow> connection res" where
  "transmit flags payload send_length c =
     bindR (sq_write_back
             \<lparr>ss_flags = flags, ss_seqnbr = sq_write_pos (tx_queue c), ss_data_length = 0, ss_send_length = 0\<rparr>
             (Some payload) (length payload) send_length (tx_queue c)) (\<lambda>(q, _).
     Inr (c\<lparr>tx_queue := q\<rparr>))"

definition transmit_phantom :: "16 word \<Rightarrow> connection \<Rightarrow> connection res" where
  "transmit_phantom flags c = transmit flags phantom 0 c"

definition reset_tx :: "32 word \<Rightarrow> connection \<Rightarrow> connection" where
  "reset_tx seqnbr c = c\<lparr>tx_queue := sq_reset seqnbr (tx_queue c)\<rparr>"

definition reset_rx :: "32 word \<Rightarrow> connection \<Rightarrow> connection" where
  "reset_rx seqnbr c = c\<lparr>rx_queue := rq_reset seqnbr (rx_queue c)\<rparr>"

definition transition :: "conn_state \<Rightarrow> connection \<Rightarrow> connection" where
  "transition st c = c\<lparr>c_state := st\<rparr>"

definition mark_for_destruction :: "connection \<Rightarrow> 'app tcp_stack \<Rightarrow> 'app tcp_stack res" where
  "mark_for_destruction c s = finish_connection (c_handle c) s"

definition active_close :: "connection \<Rightarrow> connection res" where
  "active_close c =
     (if c_state c = ESTABLISHED
      then bindR (transmit_phantom FIN c) (\<lambda>c1. Inr (transition FIN_WAIT_1 c1))
      else Inr c)"

fun run_app_calls :: "app_call list \<Rightarrow> connection \<Rightarrow> connection res" where
  "run_app_calls [] c = Inr c"
| "run_app_calls (AppSend bs # calls) c = bindR (transmit 0 bs (length bs) c) (run_app_calls calls)"
| "run_app_calls (AppClose # calls) c = bindR (active_close c) (run_app_calls calls)"

definition on_full_receive ::
  "'app callback \<Rightarrow> byte list \<Rightarrow> connection \<Rightarrow> 'app tcp_stack \<Rightarrow> (connection \<times> 'app tcp_stack) res" where
  "on_full_receive cb bs c s =
     (if has_callback c
      then let (a, calls) = cb (app s) (c_handle c) bs
           in bindR (run_app_calls calls c) (\<lambda>c1. Inr (c1, s\<lparr>app := a\<rparr>))
      else Inr (c, s))"

subsection \<open>The states\<close>

text \<open>
  A payload is \<open>None\<close> where the header length exceeds the segment, so that the code computes
  a wrapped payload length.
\<close>

definition listen_recv :: "segment_metadata \<Rightarrow> 'app tcp_stack \<Rightarrow> 'app tcp_stack res" where
  "listen_recv md s =
     (if \<not> has_flag SYN (sm_flags md) then Inr s
      else
        bindR (create_connection \<lparr>ep_ipaddr = sm_src_addr md, ep_port = sm_src_port md\<rparr>
                \<lparr>ep_ipaddr = sm_dest_addr md, ep_port = sm_dest_port md\<rparr> SYN_RCVD s) (\<lambda>(s1, idx).
        bindR (get (connections s1) idx) (\<lambda>c.
        bindR (conn_sequence md (Some phantom) (reset_tx 0xDEADBEEF (reset_rx (sm_seq_nbr md) c))) (\<lambda>c1.
        bindR (modify idx (\<lambda>_. c1) (connections s1)) (\<lambda>p. Inr (s1\<lparr>connections := p\<rparr>))))))"

definition syn_rcvd_early_recv :: "segment_metadata \<Rightarrow> connection \<Rightarrow> connection" where
  "syn_rcvd_early_recv md c = (if has_flag ACK (sm_flags md) then transition ESTABLISHED c else c)"

definition established_early_recv :: "segment_metadata \<Rightarrow> byte list option \<Rightarrow> connection \<Rightarrow> connection res" where
  "established_early_recv md payload c =
     (if has_flag FIN (sm_flags md) \<and> payload = Some [] then conn_sequence md (Some phantom) c
      else conn_sequence md payload c)"

definition fin_wait_1_early_recv :: "segment_metadata \<Rightarrow> byte list option \<Rightarrow> connection \<Rightarrow> connection res" where
  "fin_wait_1_early_recv md payload c =
     (if has_flag FIN (sm_flags md) \<and> payload = Some []
      then bindR (conn_sequence md (Some phantom) c) (\<lambda>c1. Inr (transition CLOSING c1))
      else Inr c)"

definition fin_wait_2_early_recv :: "segment_metadata \<Rightarrow> byte list option \<Rightarrow> connection \<Rightarrow> connection res" where
  "fin_wait_2_early_recv md payload c =
     (if has_flag FIN (sm_flags md) \<and> payload = Some [] then conn_sequence md (Some phantom) c else Inr c)"

definition early_recv ::
  "segment_metadata \<Rightarrow> byte list option \<Rightarrow> connection \<Rightarrow> 'app tcp_stack \<Rightarrow> (connection \<times> 'app tcp_stack) res" where
  "early_recv md payload c s =
     (case c_state c of
        LISTEN \<Rightarrow> bindR (listen_recv md s) (\<lambda>s1. Inr (c, s1))
      | SYN_RCVD \<Rightarrow> Inr (syn_rcvd_early_recv md c, s)
      | ESTABLISHED \<Rightarrow> bindR (established_early_recv md payload c) (\<lambda>c1. Inr (c1, s))
      | FIN_WAIT_1 \<Rightarrow> bindR (fin_wait_1_early_recv md payload c) (\<lambda>c1. Inr (c1, s))
      | FIN_WAIT_2 \<Rightarrow> bindR (fin_wait_2_early_recv md payload c) (\<lambda>c1. Inr (c1, s))
      | _ \<Rightarrow> Inr (c, s))"

definition syn_rcvd_sequenced_recv :: "recv_segment \<Rightarrow> connection \<Rightarrow> connection res" where
  "syn_rcvd_sequenced_recv seg c =
     (if \<not> has_flag SYN (rs_flags seg) then Inr c else transmit SYN phantom 0 c)"

definition established_sequenced_recv ::
  "'app callback \<Rightarrow> recv_segment \<Rightarrow> byte list \<Rightarrow> connection \<Rightarrow> 'app tcp_stack \<Rightarrow> (connection \<times> 'app tcp_stack) res" where
  "established_sequenced_recv cb seg bs c s =
     (if has_flag FIN (rs_flags seg)
      then bindR (transmit FIN phantom 0 c) (\<lambda>c1. Inr (transition LAST_ACK c1, s))
      else on_full_receive cb bs c s)"

definition fin_wait_2_sequenced_recv :: "recv_segment \<Rightarrow> connection \<Rightarrow> 'app tcp_stack \<Rightarrow> 'app tcp_stack res" where
  "fin_wait_2_sequenced_recv seg c s =
     (if has_flag FIN (rs_flags seg) then mark_for_destruction c s else Inr s)"

definition sequenced_recv ::
  "'app callback \<Rightarrow> recv_segment \<Rightarrow> byte list \<Rightarrow> connection \<Rightarrow> 'app tcp_stack \<Rightarrow> (connection \<times> 'app tcp_stack) res" where
  "sequenced_recv cb seg bs c s =
     (case c_state c of
        SYN_RCVD \<Rightarrow> bindR (syn_rcvd_sequenced_recv seg c) (\<lambda>c1. Inr (c1, s))
      | ESTABLISHED \<Rightarrow> established_sequenced_recv cb seg bs c s
      | FIN_WAIT_2 \<Rightarrow> bindR (fin_wait_2_sequenced_recv seg c s) (\<lambda>s1. Inr (c, s1))
      | _ \<Rightarrow> Inr (c, s))"

definition last_ack_remote_consumed_all :: "connection \<Rightarrow> 'app tcp_stack \<Rightarrow> 'app tcp_stack res" where
  "last_ack_remote_consumed_all c s = mark_for_destruction c s"

definition fin_wait_1_remote_consumed_all :: "connection \<Rightarrow> connection" where
  "fin_wait_1_remote_consumed_all c = transition FIN_WAIT_2 c"

definition closing_remote_consumed_all :: "connection \<Rightarrow> 'app tcp_stack \<Rightarrow> 'app tcp_stack res" where
  "closing_remote_consumed_all c s = mark_for_destruction c s"

definition remote_consumed_all :: "connection \<Rightarrow> 'app tcp_stack \<Rightarrow> (connection \<times> 'app tcp_stack) res" where
  "remote_consumed_all c s =
     (case c_state c of
        LAST_ACK \<Rightarrow> bindR (last_ack_remote_consumed_all c s) (\<lambda>s1. Inr (c, s1))
      | CLOSING \<Rightarrow> bindR (closing_remote_consumed_all c s) (\<lambda>s1. Inr (c, s1))
      | FIN_WAIT_1 \<Rightarrow> Inr (fin_wait_1_remote_consumed_all c, s)
      | _ \<Rightarrow> Inr (c, s))"

lemmas early_recv_defs = early_recv_def syn_rcvd_early_recv_def established_early_recv_def
  fin_wait_1_early_recv_def fin_wait_2_early_recv_def

lemmas sequenced_recv_defs = sequenced_recv_def syn_rcvd_sequenced_recv_def established_sequenced_recv_def
  fin_wait_2_sequenced_recv_def mark_for_destruction_def

lemmas remote_consumed_defs = remote_consumed_all_def last_ack_remote_consumed_all_def
  fin_wait_1_remote_consumed_all_def closing_remote_consumed_all_def mark_for_destruction_def

subsection \<open>Driving a connection\<close>

text \<open>
  Each turn of the first loop of \<open>step\<close> removes a segment from the receive queue and adds
  none, so the number of queued segments bounds the turns; each turn of the second advances
  the read position. A segment outside the window stops the second loop from advancing: it
  then sends for ever.
\<close>

fun rx_loop ::
  "nat \<Rightarrow> 'app callback \<Rightarrow> connection \<Rightarrow> 'app tcp_stack \<Rightarrow> (connection \<times> 'app tcp_stack) res" where
  "rx_loop 0 cb c s = Inl Diverges"
| "rx_loop (Suc fuel) cb c s =
     bindR (rq_has_readable (rx_queue c)) (\<lambda>more.
     if \<not> more then Inr (c, s)
     else bindR (rq_read_one 20480 (rx_queue c)) (\<lambda>(q, seg, bs).
          bindR (sequenced_recv cb seg bs (c\<lparr>rx_queue := q\<rparr>) s) (\<lambda>(c1, s1). rx_loop fuel cb c1 s1)))"

fun tx_loop :: "nat \<Rightarrow> connection \<Rightarrow> 'app tcp_stack \<Rightarrow> (connection \<times> 'app tcp_stack) res" where
  "tx_loop 0 c s = Inl Diverges"
| "tx_loop (Suc fuel) c s =
     (if \<not> sq_has_readable (tx_queue c) then Inr (c, s)
      else bindR (sq_read_one 20480 (tx_queue c)) (\<lambda>(q, r).
           case r of
             None \<Rightarrow> Inl Diverges
           | Some (seg, bs) \<Rightarrow>
               bindR (conn_send (ss_flags seg) (ss_seqnbr seg) bs (c\<lparr>tx_queue := q\<rparr>) s) (\<lambda>(c1, s1). tx_loop fuel c1 s1)))"

definition conn_step :: "'app callback \<Rightarrow> connection \<Rightarrow> 'app tcp_stack \<Rightarrow> (connection \<times> 'app tcp_stack) res" where
  "conn_step cb c s =
     bindR (rq_has_readable (rx_queue c)) (\<lambda>received_sequenced.
     bindR (rx_loop (Suc (pcount (rq_segments (rx_queue c)))) cb c s) (\<lambda>(c1, s1).
     bindR (if received_sequenced \<and> \<not> sq_has_readable (tx_queue c1)
            then conn_send 0 (next_outgoing_seqnbr c1) [] c1 s1 else Inr (c1, s1)) (\<lambda>(c2, s2).
     tx_loop (Suc (nat (q_size (sq_segments (tx_queue c2))))) c2 s2)))"

definition conn_on_receive ::
  "'app callback \<Rightarrow> segment_metadata \<Rightarrow> byte list option \<Rightarrow> connection \<Rightarrow> 'app tcp_stack \<Rightarrow>
   (connection \<times> 'app tcp_stack) res" where
  "conn_on_receive cb md payload c s =
     bindR (early_recv md payload c s) (\<lambda>(c1, s1).
     bindR (if has_flag ACK (sm_flags md)
            then bindR (sq_ack (sm_ack_nbr md) (tx_queue c1)) (\<lambda>q.
                 let c2 = c1\<lparr>tx_queue := q\<rparr>
                 in if sq_write_pos q \<le> sm_ack_nbr md then remote_consumed_all c2 s1 else Inr (c2, s1))
            else Inr (c1, s1)) (\<lambda>(c3, s3).
     conn_step cb c3 s3))"

text \<open>Run an operation on the connection at a handle of the table.\<close>

definition with_conn ::
  "nat \<Rightarrow> (connection \<Rightarrow> 'app tcp_stack \<Rightarrow> (connection \<times> 'app tcp_stack) res) \<Rightarrow> 'app tcp_stack \<Rightarrow> 'app tcp_stack res" where
  "with_conn h f s =
     bindR (get (connections s) h) (\<lambda>c.
     bindR (f c s) (\<lambda>(c1, s1).
     bindR (modify h (\<lambda>_. c1) (connections s1)) (\<lambda>p. Inr (s1\<lparr>connections := p\<rparr>))))"

fun step_among :: "'app callback \<Rightarrow> nat pool \<Rightarrow> nat list \<Rightarrow> 'app tcp_stack \<Rightarrow> 'app tcp_stack res" where
  "step_among cb p [] s = Inr s"
| "step_among cb p (it # its) s =
     bindR (get p it) (\<lambda>h.
     bindR (if valid h (connections s) then with_conn h (conn_step cb) s else Inr s) (step_among cb p its))"

definition step_new_connections :: "'app callback \<Rightarrow> 'app tcp_stack \<Rightarrow> 'app tcp_stack res" where
  "step_new_connections cb s =
     (let p = new_connections s
      in bindR (step_among cb p (iter_from p (pool_begin p)) s) (\<lambda>s1.
         Inr (s1\<lparr>new_connections := clear (new_connections s1)\<rparr>)))"

fun destroy_among :: "nat pool \<Rightarrow> nat list \<Rightarrow> 'app tcp_stack \<Rightarrow> 'app tcp_stack res" where
  "destroy_among p [] s = Inr s"
| "destroy_among p (it # its) s =
     bindR (get p it) (\<lambda>h.
     if \<not> valid h (connections s) then Inr s
     else bindR (erase h (connections s)) (\<lambda>cs. destroy_among p its (s\<lparr>connections := cs\<rparr>)))"

definition destroy_finished_connections :: "'app tcp_stack \<Rightarrow> 'app tcp_stack res" where
  "destroy_finished_connections s =
     (let p = finished_connections s
      in bindR (destroy_among p (iter_from p (pool_begin p)) s) (\<lambda>s1.
         Inr (s1\<lparr>finished_connections := clear (finished_connections s1)\<rparr>)))"

subsection \<open>The protocol\<close>

definition segment_of :: "ipaddr \<Rightarrow> ipaddr \<Rightarrow> byte list \<Rightarrow> segment_metadata" where
  "segment_of src dest bs =
     (let hdr = tcp_parse bs
      in \<lparr>sm_src_addr = src, sm_dest_addr = dest, sm_src_port = ntohs (src_port hdr),
          sm_dest_port = ntohs (dest_port hdr), sm_seq_nbr = ntohl (seq_nbr hdr), sm_ack_nbr = ntohl (ack_nbr hdr),
          sm_flags = ntohs (flags_hdrsz hdr) AND 0x1FF\<rparr>)"

definition tcp_on_receive ::
  "'app callback \<Rightarrow> ipaddr \<Rightarrow> ipaddr \<Rightarrow> byte list \<Rightarrow> 'app tcp_stack \<Rightarrow> 'app tcp_stack res" where
  "tcp_on_receive cb src dest bs s =
     (if length bs < 20 then Inr s
      else
        let md = segment_of src dest bs;
            header_size = unat (drop_bit 12 (ntohs (flags_hdrsz (tcp_parse bs)))) * 4;
            payload = (if length bs < header_size then None else Some (drop header_size bs))
        in bindR (find_best_match \<lparr>ep_ipaddr = src, ep_port = sm_src_port md\<rparr>
                    \<lparr>ep_ipaddr = dest, ep_port = sm_dest_port md\<rparr> s) (\<lambda>conn.
           if conn = END_SENTINEL then Inr s
           else bindR (with_conn conn (conn_on_receive cb md payload) s) (\<lambda>s1.
                bindR (step_new_connections cb s1) destroy_finished_connections)))"

definition tcp_listen :: "endpoint \<Rightarrow> 'app tcp_stack \<Rightarrow> 'app tcp_stack res" where
  "tcp_listen local s = bindR (create_connection wildcard_endpoint local LISTEN s) (\<lambda>(s', _). Inr s')"

definition tcp_set_callback :: "'app tcp_stack \<Rightarrow> 'app tcp_stack" where
  "tcp_set_callback s = s\<lparr>tcp_callback := True\<rparr>"

definition tcp_stack_init :: "hwaddr \<Rightarrow> ipaddr \<Rightarrow> ipaddr \<Rightarrow> ipaddr \<Rightarrow> 'app \<Rightarrow> 'app tcp_stack" where
  "tcp_stack_init hw local netmask gateway a =
     net_stack.extend (net_stack_init hw local netmask gateway)
       \<lparr>connections = fixed_pool 40, new_connections = fixed_pool 10, finished_connections = fixed_pool 10,
        tcp_callback = False, app = a\<rparr>"

end
