(* ===== verification/Net_Resolve.thy ===== *)
theory Net_Resolve
  imports Net_Output
begin

text \<open>
  Correctness of address resolution: the invariant of a stack's state, that every ARP
  operation keeps it without a fault, that the walk over the probes ends, and that a
  datagram sent to an unresolved address leaves, whole, when the reply arrives.
\<close>

subsection \<open>The invariant of the sending side\<close>

text \<open>
  A waiting datagram lies within the wait buffer, and the check of the default gateway waits
  for the gateway's own address.
\<close>

definition waiter_ok :: "ipaddr \<Rightarrow> waiter \<Rightarrow> bool" where
  "waiter_ok ip w = (case w of NoAction \<Rightarrow> True | GatewayCheck g \<Rightarrow> g = ip
     | SendDatagram pr dest h len \<Rightarrow> unat (ptr_offset h) + len \<le> 10240)"

definition probe_ok :: "ipaddr \<Rightarrow> probe \<Rightarrow> bool" where
  "probe_ok ip pr \<longleftrightarrow> pr_ipaddr pr = ip \<and> pool_inv (waiters pr) \<and> capacity (waiters pr) = 32 \<and>
     (\<forall>w \<in> ran (at (waiters pr)). waiter_ok ip w)"

definition probes_ok :: "(ipaddr, probe) entry pool \<Rightarrow> bool" where
  "probes_ok p \<longleftrightarrow> um_inv p \<and> capacity p = 32 \<and> (\<forall>ip pr. um_map p ip = Some pr \<longrightarrow> probe_ok ip pr)"

definition mappings_ok :: "cache_entry queue \<Rightarrow> bool" where
  "mappings_ok q \<longleftrightarrow> q_inv q \<and> q_cap q = 64 \<and> (\<forall>e \<in> set (q_list q). length (c_hwaddr e) = 6)"

definition net_ok :: "'a net_stack_scheme \<Rightarrow> bool" where
  "net_ok s \<longleftrightarrow> length (hw_address s) = 6 \<and> mappings_ok (mappings s) \<and> probes_ok (active_probes s) \<and>
     fb_wf 10240 (arp_wait_buffer s)"

text \<open>What sending leaves behind: frames, and a datagram number.\<close>

definition emits :: "'a net_stack_scheme \<Rightarrow> byte list list \<Rightarrow> 'a net_stack_scheme \<Rightarrow> bool" where
  "emits s fs s' \<longleftrightarrow> (\<exists>n. s' = s\<lparr>next_datagram_id := n, sent := sent s @ fs\<rparr>)"

lemma emits_refl: "emits s [] s"
  by (auto simp: emits_def intro!: exI [of _ "next_datagram_id s"])

lemma emits_trans: "emits s fs s' \<Longrightarrow> emits s' gs s'' \<Longrightarrow> emits s (fs @ gs) s''"
  by (auto simp: emits_def)

lemma emits_fields:
  assumes "emits s fs s'"
  shows "hw_address s' = hw_address s" "mappings s' = mappings s" "active_probes s' = active_probes s"
    "arp_wait_buffer s' = arp_wait_buffer s" "ip_local s' = ip_local s" "sent s' = sent s @ fs"
    "net_ok s' = net_ok s"
  using assms by (auto simp: emits_def net_ok_def)

subsection \<open>Frames\<close>

definition eth_frame :: "16 word \<Rightarrow> hwaddr \<Rightarrow> byte list \<Rightarrow> 'a net_stack_scheme \<Rightarrow> byte list" where
  "eth_frame type dest payload s =
     eth_bytes \<lparr>mac_dest = dest, mac_src = hw_address s, eth_type = htons type\<rparr> @ payload"

lemma ethernet_send_emits:
  "14 + length payload \<le> 5128 \<Longrightarrow>
   \<exists>s'. ethernet_send type dest payload s = Inr s' \<and> emits s [eth_frame type dest payload s] s' \<and>
     next_datagram_id s' = next_datagram_id s"
  by (auto simp: ethernet_send_def assertR_def emits_def eth_frame_def intro!: exI [of _ "next_datagram_id s"])

definition arp_packet :: "16 word \<Rightarrow> ipaddr \<Rightarrow> hwaddr \<Rightarrow> 'a net_stack_scheme \<Rightarrow> byte list" where
  "arp_packet operation target target_hw s =
     arp_bytes \<lparr>htype = htons 1, ptype = htons ET_IPV4, hlen = 6, plen = 4, oper = htons operation,
        sha = hw_address s, spa = htonl (ip_local s), tha = target_hw, tpa = htonl target\<rparr>"

lemma arp_send_emits:
  assumes "length (hw_address s) = 6" "length target_hw = 6"
  shows "\<exists>s'. arp_send operation target target_hw next_hop s = Inr s' \<and>
     emits s [eth_frame ET_ARP next_hop (arp_packet operation target target_hw s) s] s'"
proof -
  have "14 + length (arp_packet operation target target_hw s) \<le> 5128"
    using assms by (simp add: arp_packet_def)
  from ethernet_send_emits [OF this, of ET_ARP next_hop s] show ?thesis
    by (auto simp: arp_send_def arp_packet_def Let_def)
qed

text \<open>The header \<open>send_single_datagram\<close> builds, before and after its checksum.\<close>

definition datagram_header :: "byte \<Rightarrow> ipaddr \<Rightarrow> ipaddr \<Rightarrow> 16 word \<Rightarrow> nat \<Rightarrow> ipv4_header" where
  "datagram_header protocol src dest ident len =
     \<lparr>ihl = 5, version = 4, ecn_dscp = 0, total_len = htons (of_nat (20 + len)),
      ip_id = htons ident, frag_ofs = htons 0, ttl = 65, ip_protocol = protocol,
      ip_checksum = 0, src_addr = htonl src, dest_addr = htonl dest\<rparr>"

definition datagram :: "byte \<Rightarrow> ipaddr \<Rightarrow> ipaddr \<Rightarrow> 16 word \<Rightarrow> byte list \<Rightarrow> byte list" where
  "datagram protocol src dest ident payload =
     (let h = datagram_header protocol src dest ident (length payload)
      in ipv4_bytes (h\<lparr>ip_checksum := checksum_of (sum_words (ipv4_bytes h) + sum_words [])\<rparr>) @ payload)"

lemma send_via_emits:
  "\<exists>s'. ipv4_send_via protocol dest next_hop payload s = Inr s' \<and>
     emits s (if length payload \<le> 1480
        then [eth_frame ET_IPV4 next_hop (datagram protocol (ip_local s) dest (next_datagram_id s) payload) s] else []) s' \<and>
     next_datagram_id s' = next_datagram_id s + 1"
proof (cases "length payload \<le> 1480")
  case True
  let ?s = "s\<lparr>next_datagram_id := next_datagram_id s + 1\<rparr>"
  let ?d = "datagram protocol (ip_local s) dest (next_datagram_id s) payload"
  have "14 + length ?d \<le> 5128" using True by (simp add: datagram_def Let_def)
  from ethernet_send_emits [OF this, of ET_IPV4 next_hop ?s] True show ?thesis
    by (auto simp: ipv4_send_via_def send_single_datagram_def ipv4_checksum_def assertR_def datagram_def
        datagram_header_def Let_def emits_def eth_frame_def)
next
  case False
  then show ?thesis
    by (auto simp: ipv4_send_via_def send_single_datagram_def ipv4_checksum_def assertR_def Let_def emits_def
        intro!: exI [of _ "next_datagram_id s + 1"])
qed

subsection \<open>Running the waiting functions\<close>

lemma run_waiter_emits:
  assumes s: "net_ok s" and w: "waiter_ok ip w"
    and r: "\<And>hw. r = Some hw \<Longrightarrow> latest_of ip (q_list (mappings s)) = Some hw"
  shows "\<exists>s' fs. run_waiter w r s = Inr s' \<and> emits s fs s'"
proof (cases w)
  case NoAction
  then show ?thesis using emits_refl by (auto simp: run_waiter_def)
next
  case (GatewayCheck g)
  then have "g = ip" using w by (simp add: waiter_ok_def)
  moreover have "mapping_fetch ip (mappings s) = Inr (latest_of ip (q_list (mappings s)))"
    using s by (simp add: net_ok_def mappings_ok_def mapping_fetch_list)
  ultimately show ?thesis
    using GatewayCheck r emits_refl [of s] by (cases r) (auto simp: run_waiter_def assertR_def)
next
  case (SendDatagram pr dest h len)
  show ?thesis
  proof (cases r)
    case None
    then show ?thesis using SendDatagram emits_refl by (auto simp: run_waiter_def)
  next
    case (Some hw)
    show ?thesis
    proof (cases "fb_data h (arp_wait_buffer s)")
      case None
      then show ?thesis using SendDatagram Some emits_refl by (auto simp: run_waiter_def)
    next
      case D: (Some p)
      obtain b off where p: "p = (b, off)" by force
      have b: "off = unat (ptr_offset h)" "b < 2"
        using D p by (auto simp: fb_data_iff fb_current_def)
      then have "off + len \<le> length (buf_data (buffers (arp_wait_buffer s) ! b))"
        using s w SendDatagram fb_wf_nth [of 10240 "arp_wait_buffer s" b] by (simp add: net_ok_def waiter_ok_def)
      then show ?thesis
        using SendDatagram Some D p send_via_emits [of pr dest hw _ s] by (fastforce simp: run_waiter_def Let_def)
    qed
  qed
qed

lemma notify_list_emits:
  assumes "net_ok s" "pool_inv p" "\<forall>w \<in> ran (at p). waiter_ok ip w" "\<forall>i \<in> set is. at p i \<noteq> None"
    and "\<And>hw. r = Some hw \<Longrightarrow> latest_of ip (q_list (mappings s)) = Some hw"
  shows "\<exists>s' fs. notify_list is p r s = Inr s' \<and> emits s fs s'"
  using assms(1,4,5)
proof (induction "is" arbitrary: s)
  case Nil
  then show ?case using emits_refl by auto
next
  case (Cons i "is")
  then obtain w where w: "at p i = Some w" by auto
  then have g: "get p i = Inr w" "waiter_ok ip w" using assms(2,3) get_at [of p i] by (auto simp: ran_def)
  from run_waiter_emits [OF Cons.prems(1) g(2) Cons.prems(3)] obtain s1 fs where
    s1: "run_waiter w r s = Inr s1" "emits s fs s1" by blast
  have "\<exists>s' gs. notify_list is p r s1 = Inr s' \<and> emits s1 gs s'"
    by (rule Cons.IH) (use Cons.prems emits_fields [OF s1(2)] in auto)
  then show ?case using g(1) s1 emits_trans by fastforce
qed


lemma waiters_indices: "pool_inv p \<Longrightarrow> \<forall>i \<in> set (iter_from p (pool_begin p)). at p i \<noteq> None"
  by (simp add: iter_indices valid_at)

lemma notify_all_emits:
  assumes "net_ok s" "probe_ok ip pr" "\<And>hw. r = Some hw \<Longrightarrow> latest_of ip (q_list (mappings s)) = Some hw"
  shows "\<exists>s' fs. notify_all r pr s = Inr s' \<and> emits s fs s'"
proof -
  have p: "pool_inv (waiters pr)" "\<forall>w \<in> ran (at (waiters pr)). waiter_ok ip w"
    using assms(2) by (auto simp: probe_ok_def)
  show ?thesis unfolding notify_all_def
    by (rule notify_list_emits [OF assms(1) p waiters_indices [OF p(1)] assms(3)])
qed

subsection \<open>Probes\<close>

lemma probes_okD:
  assumes "probes_ok p"
  shows "um_inv p" "capacity p = 32" "um_map p ip = Some pr \<Longrightarrow> probe_ok ip pr"
  using assms by (auto simp: probes_ok_def)

lemma probe_ok_await:
  assumes "probe_ok ip pr" "waiter_ok ip w" "\<not> full (waiters pr)"
  shows "\<exists>p i. probe_await w pr = Inr (pr\<lparr>waiters := p\<rparr>) \<and> at (waiters pr) i = None \<and>
     at p = (at (waiters pr))(i \<mapsto> w) \<and> probe_ok ip (pr\<lparr>waiters := p\<rparr>)"
proof -
  have pi: "pool_inv (waiters pr)" using assms(1) by (simp add: probe_ok_def)
  then obtain p i where e: "emplace_anywhere w (waiters pr) = Inr (p, i)"
    using pl.alloc_total [OF pi, of w] full_iff [OF pi] assms(3) by fastforce
  note st = pl.alloc_step [OF pi e]
  have "\<forall>v \<in> ran (at p). waiter_ok ip v"
    using st assms(1,2) by (auto simp: probe_ok_def ran_def)
  then have "probe_ok ip (pr\<lparr>waiters := p\<rparr>)" using st assms(1) by (simp add: probe_ok_def)
  moreover have "probe_await w pr = Inr (pr\<lparr>waiters := p\<rparr>)" using e by (simp add: probe_await_def)
  ultimately show ?thesis using st by blast
qed

lemma probe_ok_fields:
  "probe_ok ip (pr\<lparr>last_delta := a, retry_timer := b, retries := c\<rparr>) = probe_ok ip pr"
  "probe_ok ip (pr\<lparr>retry_timer := b, retries := c\<rparr>) = probe_ok ip pr"
  "probe_ok ip (pr\<lparr>retry_timer := b\<rparr>) = probe_ok ip pr"
  by (simp_all add: probe_ok_def)

lemma probe_ok_reset: "probe_ok ip (probe_reset pr) = probe_ok ip pr"
  by (simp add: probe_reset_def probe_ok_def)

lemma probe_ok_init: "probe_ok ip (probe_init ip)"
  by (simp add: probe_init_def probe_ok_def)

lemma probe_tick_emits:
  assumes "length (hw_address s) = 6" "probe_ok ip pr"
  shows "\<exists>pr' s' fs alive. probe_tick dt pr s = Inr (pr', s', alive) \<and> emits s fs s' \<and> probe_ok ip pr' \<and>
     waiters pr' = waiters pr"
proof -
  obtain s' where s': "arp_send OP_REQUEST (pr_ipaddr pr) wildcard_address broadcast_address s = Inr s'"
    "emits s [eth_frame ET_ARP broadcast_address (arp_packet OP_REQUEST (pr_ipaddr pr) wildcard_address s) s] s'"
    using arp_send_emits [OF assms(1), of wildcard_address OP_REQUEST "pr_ipaddr pr" broadcast_address]
    by (auto simp: wildcard_address_def)
  show ?thesis
    using assms(2) s' emits_refl [of s] unfolding probe_tick_def Let_def
    by (cases "retry_timer pr - dt \<le> 0"; cases "4 < retries pr") (auto simp: probe_ok_def)
qed

lemma put_probe_step:
  assumes "probes_ok (active_probes s)" "um_pos (active_probes s) it = Some (ip, pr)" "probe_ok ip pr'"
  shows "\<exists>p. put_probe it pr' s = Inr (s\<lparr>active_probes := p\<rparr>) \<and> probes_ok p \<and>
     watermark p = watermark (active_probes s) \<and> um_map p = (um_map (active_probes s))(ip \<mapsto> pr') \<and>
     um_pos p it = Some (ip, pr')"
proof -
  obtain p where p: "modify it (\<lambda>e. e\<lparr>evalue := pr'\<rparr>) (active_probes s) = Inr p" "um_inv p" "capacity p = 32"
    "watermark p = watermark (active_probes s)" "um_map p = (um_map (active_probes s))(ip \<mapsto> pr')"
    "um_pos p it = Some (ip, pr')"
    using um_modify [OF probes_okD(1) [OF assms(1)] assms(2), of pr'] probes_okD(2) [OF assms(1)] by auto
  then have "probes_ok p" using assms(1,3) by (auto simp: probes_ok_def)
  moreover have "put_probe it pr' s = Inr (s\<lparr>active_probes := p\<rparr>)" using p(1) by (simp add: put_probe_def)
  ultimately show ?thesis using p by blast
qed

lemma erase_probe_step:
  assumes "probes_ok p" "um_pos p it = Some (ip, pr)"
  shows "\<exists>p'. um_erase it p = Inr p' \<and> probes_ok p' \<and> um_map p' = (um_map p)(ip := None)"
  using um.del_pos [OF probes_okD(1) [OF assms(1)] assms(2)] assms(1)
  by (auto simp: probes_ok_def)

lemma get_entry: "um_inv p \<Longrightarrow> um_pos p it = Some (ip, pr) \<Longrightarrow> get p it = Inr \<lparr>ekey = ip, evalue = pr\<rparr>"
  by (simp add: um_pos_Some get_at um_inv_def)

subsection \<open>Learning an address\<close>

lemma set_tl_subset: "x \<in> set (tl xs) \<Longrightarrow> x \<in> set xs"
  by (cases xs) auto

lemma latest_of_snoc_ok:
  "mappings_ok q \<Longrightarrow> length hw = 6 \<Longrightarrow>
   \<exists>q'. mapping_insert ip hw q = Inr q' \<and> mappings_ok q' \<and> latest_of ip (q_list q') = Some hw"
  using mapping_insert_list [of q ip hw] by (auto simp: mappings_ok_def dest!: set_tl_subset)

lemma write_cache_entry_step:
  assumes "net_ok s" "length hw = 6"
  shows "\<exists>s' fs. write_cache_entry ip hw s = Inr s' \<and> net_ok s' \<and>
     latest_of ip (q_list (mappings s')) = Some hw \<and>
     um_map (active_probes s') = (um_map (active_probes s))(ip := None) \<and>
     sent s' = sent s @ fs \<and> (um_map (active_probes s) ip = None \<longrightarrow> fs = [])"
proof -
  obtain q where q: "mapping_insert ip hw (mappings s) = Inr q" "mappings_ok q" "latest_of ip (q_list q) = Some hw"
    using latest_of_snoc_ok [of "mappings s" hw ip] assms by (auto simp: net_ok_def)
  define s1 where "s1 = s\<lparr>mappings := q\<rparr>"
  have s1: "net_ok s1" "active_probes s1 = active_probes s" "mappings s1 = q" "sent s1 = sent s"
    using assms(1) q(2) by (auto simp: net_ok_def s1_def)
  have p: "probes_ok (active_probes s)" using assms(1) by (simp add: net_ok_def)
  note ui = probes_okD(1) [OF p]
  obtain it where it: "um_find ip (active_probes s) = Inr it"
    "um_pos (active_probes s) it = map_option (Pair ip) (um_map (active_probes s) ip)"
    "it = watermark (active_probes s) \<longleftrightarrow> um_map (active_probes s) ip = None"
    using um_find_pos [OF ui] by blast
  show ?thesis
  proof (cases "um_map (active_probes s) ip")
    case None
    then have "write_cache_entry ip hw s = Inr s1"
      using q(1) it by (simp add: write_cache_entry_def Let_def s1_def)
    then show ?thesis using s1 q None by (auto simp: fun_upd_idem)
  next
    case (Some pr)
    then have pos: "um_pos (active_probes s) it = Some (ip, pr)" using it by simp
    obtain s2 fs where s2: "notify_all (Some hw) pr s1 = Inr s2" "emits s1 fs s2"
      using notify_all_emits [OF s1(1) probes_okD(3) [OF p Some], of "Some hw"] q(3) s1(3) by auto
    obtain p' where p': "um_erase it (active_probes s) = Inr p'" "probes_ok p'"
      "um_map p' = (um_map (active_probes s))(ip := None)"
      using erase_probe_step [OF p pos] by blast
    have "write_cache_entry ip hw s = Inr (s2\<lparr>active_probes := p'\<rparr>)"
      using q(1) it Some s2(1) emits_fields [OF s2(2)] s1 p'(1) get_entry [OF ui pos]
      by (simp add: write_cache_entry_def Let_def s1_def [symmetric])
    then show ?thesis using emits_fields [OF s2(2)] s1 q p' Some by (auto simp: net_ok_def)
  qed
qed


subsection \<open>The walk over the probes\<close>

definition tick_measure :: "(ipaddr, probe) entry pool \<Rightarrow> nat \<Rightarrow> nat" where
  "tick_measure p it = 65536 * card (dom (um_map p)) + iter_dist p it"

lemma iter_dist_bound: "iter_dist p i < 65536"
  by (simp add: iter_dist_def)

lemma tick_measure_next:
  assumes "it mod 65536 \<noteq> watermark p mod 65536" "watermark p' = watermark p" "dom (um_map p') = dom (um_map p)"
  shows "tick_measure p' (pool_next p' it) < tick_measure p it"
  using assms pool_next_dist [of it p'] by (simp add: tick_measure_def iter_dist_def)

lemma tick_measure_erase:
  assumes "um_inv p" "um_map p ip = Some pr" "um_map p' = (um_map p)(ip := None)"
  shows "tick_measure p' it' < tick_measure p it"
proof -
  have "finite (dom (um_map p))" by (simp add: um_map_def finite_dom_map_of)
  moreover have "ip \<in> dom (um_map p)" "dom (um_map p') = dom (um_map p) - {ip}" using assms(2,3) by auto
  ultimately have "Suc (card (dom (um_map p'))) = card (dom (um_map p))"
    by (simp only: card_Suc_Diff1)
  then show ?thesis using iter_dist_bound [of p' it'] by (simp add: tick_measure_def)
qed

text \<open>
  One probe visited: it stays, its timer moved on and perhaps a request sent, or it has
  failed for good, its waiters are told and it is erased.
\<close>

lemma visit_probe:
  assumes "net_ok s" "it mod 65536 \<noteq> watermark (active_probes s) mod 65536" "valid it (active_probes s)"
  shows "\<exists>s' it'. (\<forall>fuel. arp_tick_loop (Suc fuel) dt it s = arp_tick_loop fuel dt it' s') \<and> net_ok s' \<and>
     mappings s' = mappings s \<and> dom (um_map (active_probes s')) \<subseteq> dom (um_map (active_probes s)) \<and>
     tick_measure (active_probes s') it' < tick_measure (active_probes s) it \<and>
     it' = pool_next (active_probes s') it"
proof -
  have p: "probes_ok (active_probes s)" "length (hw_address s) = 6" using assms(1) by (auto simp: net_ok_def)
  note ui = probes_okD(1) [OF p(1)]
  obtain ip pr where pos: "um_pos (active_probes s) it = Some (ip, pr)"
    using assms(3) ui valid_at [of "active_probes s" it] by (auto simp: um_inv_def um_pos_def)
  then have m: "um_map (active_probes s) ip = Some pr" using um_map_Some [OF ui] by blast
  obtain pr' s1 fs alive where t: "probe_tick dt pr s = Inr (pr', s1, alive)" "emits s fs s1" "probe_ok ip pr'"
    using probe_tick_emits [OF p(2) probes_okD(3) [OF p(1) m], of dt] by blast
  note e1 = emits_fields [OF t(2)]
  obtain p2 where p2: "put_probe it pr' s1 = Inr (s1\<lparr>active_probes := p2\<rparr>)" "probes_ok p2"
    "watermark p2 = watermark (active_probes s)" "um_map p2 = (um_map (active_probes s))(ip \<mapsto> pr')"
    "um_pos p2 it = Some (ip, pr')"
    using put_probe_step [of s1 it ip pr pr'] p(1) pos t(3) e1 by auto
  define s2 where "s2 = s1\<lparr>active_probes := p2\<rparr>"
  have s2: "net_ok s2" "active_probes s2 = p2" "mappings s2 = mappings s"
    using assms(1) e1 p2(2) by (auto simp: s2_def net_ok_def)
  have d2: "dom (um_map p2) = dom (um_map (active_probes s))" using p2(4) m by auto
  note step = get_entry [OF ui pos] t(1) p2(1) [folded s2_def]
  show ?thesis
  proof (cases alive)
    case True
    have "tick_measure p2 (pool_next p2 it) < tick_measure (active_probes s) it"
      using tick_measure_next [OF assms(2) p2(3) d2] .
    then show ?thesis using True assms(2) step s2 d2
      by (intro exI [of _ s2] exI [of _ "pool_next p2 it"]) simp
  next
    case False
    obtain s3 gs where s3: "notify_all None pr' s2 = Inr s3" "emits s2 gs s3"
      using notify_all_emits [OF s2(1) t(3), of None] by auto
    note e3 = emits_fields [OF s3(2)]
    obtain p4 where p4: "um_erase it p2 = Inr p4" "probes_ok p4" "um_map p4 = (um_map p2)(ip := None)"
      using erase_probe_step [OF p2(2,5)] by blast
    define s4 where "s4 = s3\<lparr>active_probes := p4\<rparr>"
    have "um_map p4 = (um_map (active_probes s))(ip := None)" using p4(3) p2(4) by auto
    from tick_measure_erase [OF ui m this] have "tick_measure p4 (pool_next p4 it) < tick_measure (active_probes s) it" .
    moreover have "net_ok s4" "mappings s4 = mappings s" using s2 e3 p4(2) by (auto simp: s4_def net_ok_def)
    moreover have "dom (um_map p4) \<subseteq> dom (um_map (active_probes s))" using p4(3) d2 by auto
    ultimately show ?thesis using False assms(2) step s3 s2 e3 p4(1)
      by (intro exI [of _ s4] exI [of _ "pool_next p4 it"]) (simp add: s4_def Let_def)
  qed
qed

lemma arp_tick_loop_total:
  assumes "net_ok s" "it mod 65536 = watermark (active_probes s) mod 65536 \<or> valid it (active_probes s)"
  shows "\<exists>s'. (\<forall>fuel. tick_measure (active_probes s) it < fuel \<longrightarrow> arp_tick_loop fuel dt it s = Inr s') \<and>
     net_ok s' \<and> mappings s' = mappings s \<and> dom (um_map (active_probes s')) \<subseteq> dom (um_map (active_probes s))"
  using assms
proof (induction "tick_measure (active_probes s) it" arbitrary: s it rule: less_induct)
  case less
  show ?case
  proof (cases "it mod 65536 = watermark (active_probes s) mod 65536")
    case True
    have "arp_tick_loop fuel dt it s = Inr s" if "tick_measure (active_probes s) it < fuel" for fuel
      using True that by (cases fuel) simp_all
    then show ?thesis using less.prems(1) by (intro exI [of _ s]) simp
  next
    case False
    then obtain s1 it1 where v: "\<And>fuel. arp_tick_loop (Suc fuel) dt it s = arp_tick_loop fuel dt it1 s1" "net_ok s1"
      "mappings s1 = mappings s" "dom (um_map (active_probes s1)) \<subseteq> dom (um_map (active_probes s))"
      "tick_measure (active_probes s1) it1 < tick_measure (active_probes s) it"
      "it1 = pool_next (active_probes s1) it"
      using visit_probe [OF less.prems(1) False, of dt] less.prems(2) by blast
    have "it1 mod 65536 = watermark (active_probes s1) mod 65536 \<or> valid it1 (active_probes s1)"
      using jump_to_valid_stops v(6) by (auto simp: pool_next_def)
    from less.hyps [OF v(5,2) this] obtain s' where s':
      "\<And>fuel. tick_measure (active_probes s1) it1 < fuel \<Longrightarrow> arp_tick_loop fuel dt it1 s1 = Inr s'"
      "net_ok s'" "mappings s' = mappings s1" "dom (um_map (active_probes s')) \<subseteq> dom (um_map (active_probes s1))"
      by blast
    have "arp_tick_loop fuel dt it s = Inr s'" if fuel: "tick_measure (active_probes s) it < fuel" for fuel
    proof -
      obtain f where f: "fuel = Suc f" using fuel by (cases fuel) auto
      then have "tick_measure (active_probes s1) it1 < f" using fuel v(5) by simp
      then show ?thesis unfolding f v(1) by (rule s'(1))
    qed
    moreover have "dom (um_map (active_probes s')) \<subseteq> dom (um_map (active_probes s))" "mappings s' = mappings s"
      using s'(3,4) v(3,4) by auto
    ultimately show ?thesis using s'(2) by blast
  qed
qed


lemma net_ok_init [simp]: "net_ok (net_stack_init hw local netmask gateway) \<longleftrightarrow> length hw = 6"
  by (auto simp: net_ok_def net_stack_init_def mappings_ok_def probes_ok_def)


subsection \<open>Asking for an address\<close>

lemma find_no_probe:
  assumes "probes_ok p" "um_map p ip = None"
  shows "um_find ip p = Inr (watermark p)"
  using um_find_pos [OF probes_okD(1) [OF assms(1)], of ip] assms(2) by auto

text \<open>The probe a first request leaves behind.\<close>

lemma fetch_network_new:
  assumes s: "net_ok s" "latest_of ip (q_list (mappings s)) = None" "um_map (active_probes s) ip = None"
    "\<not> full (active_probes s)" and w: "waiter_ok ip w"
  shows "\<exists>s1 pr i. fetch_network ip w s = Inr s1 \<and> net_ok s1 \<and>
     s1 = s\<lparr>active_probes := active_probes s1,
       sent := sent s @ [eth_frame ET_ARP broadcast_address (arp_packet OP_REQUEST ip wildcard_address s) s]\<rparr> \<and>
     um_map (active_probes s1) = (um_map (active_probes s))(ip \<mapsto> pr) \<and> at (waiters pr) = [i \<mapsto> w]"
proof -
  have p: "probes_ok (active_probes s)" "length (hw_address s) = 6" "mappings_ok (mappings s)"
    using s(1) by (auto simp: net_ok_def)
  note ui = probes_okD(1,2) [OF p(1)]
  have "card (dom (um_map (active_probes s))) < capacity (active_probes s)"
    using full_card [OF ui(1)] s(4) by simp
  then obtain p1 where p1: "um_insert ip (probe_init ip) (active_probes s) = Inr (p1, True)" "um_inv p1"
    "capacity p1 = 32" "um_map p1 = (um_map (active_probes s))(ip \<mapsto> probe_init ip)"
    using um.ins_new [OF ui(1) s(3), of "probe_init ip"] ui(2) by auto
  have ok1: "probes_ok p1" using p1 p(1) probe_ok_init by (auto simp: probes_ok_def)
  obtain it where it: "um_find ip p1 = Inr it" "um_pos p1 it = Some (ip, probe_init ip)" "it \<noteq> watermark p1"
    using um_find_pos [OF p1(2), of ip] p1(4) by auto
  have e: "waiters (probe_init ip) = fixed_pool 32" by (simp add: probe_init_def)
  then obtain wp i where wp: "probe_await w (probe_init ip) = Inr ((probe_init ip)\<lparr>waiters := wp\<rparr>)"
    "at wp = [i \<mapsto> w]" "probe_ok ip ((probe_init ip)\<lparr>waiters := wp\<rparr>)"
    using probe_ok_await [OF probe_ok_init w] by auto
  define s1 where "s1 = s\<lparr>active_probes := p1\<rparr>"
  obtain s2 where s2: "arp_send OP_REQUEST ip wildcard_address broadcast_address s1 = Inr s2"
    "s2 = s1\<lparr>sent := sent s @ [eth_frame ET_ARP broadcast_address (arp_packet OP_REQUEST ip wildcard_address s) s]\<rparr>"
    using p(2) by (simp add: arp_send_def ethernet_send_def assertR_def s1_def eth_frame_def arp_packet_def
        wildcard_address_def Let_def)
  define pr where "pr = (probe_init ip)\<lparr>waiters := wp, last_delta := 400, retry_timer := 400, retries := 1\<rparr>"
  have t: "probe_tick 0 ((probe_init ip)\<lparr>waiters := wp\<rparr>) s1 = Inr (pr, s2, True)"
    using s2(1) by (simp add: probe_tick_def probe_init_def Let_def pr_def)
  have prk: "probe_ok ip pr" using wp(3) by (simp add: pr_def probe_ok_def probe_init_def)
  obtain p3 where p3: "put_probe it pr s2 = Inr (s2\<lparr>active_probes := p3\<rparr>)" "probes_ok p3"
    "um_map p3 = (um_map p1)(ip \<mapsto> pr)"
    using put_probe_step [of s2 it ip "probe_init ip" pr] ok1 it(2) prk s2(2) s1_def by auto
  have "fetch_network ip w s = Inr (s2\<lparr>active_probes := p3\<rparr>)"
    using s(2) p(3) find_no_probe [OF p(1) s(3)] p1(1) it get_entry [OF p1(2) it(2)] wp(1) t p3(1)
    by (simp add: fetch_network_def mapping_fetch_list mappings_ok_def s1_def assertR_def Let_def)
  moreover have "net_ok (s2\<lparr>active_probes := p3\<rparr>)" using s(1) p3(2) by (simp add: s2(2) s1_def net_ok_def)
  moreover have "at (waiters pr) = [i \<mapsto> w]" using wp(2) by (simp add: pr_def)
  ultimately show ?thesis using p3(3) p1(4)
    by (intro exI [of _ "s2\<lparr>active_probes := p3\<rparr>"] exI [of _ pr] exI [of _ i]) (simp add: s2(2) s1_def)
qed

subsection \<open>A datagram waiting for its address\<close>

lemma wait_buffer_holds:
  assumes "fb_wf n fb" "payload \<noteq> []" "length payload \<le> n"
  shows "\<exists>fb1 h p fb2. fb_alloc (length payload) fb = (fb1, h) \<and> fb_data h fb1 = Some p \<and>
     fb_store p payload fb1 = Inr fb2 \<and> fb_wf n fb2 \<and> fb_data h fb2 = Some p \<and>
     take (length payload) (drop (snd p) (buf_data (buffers fb2 ! fst p))) = payload \<and>
     snd p + length payload \<le> length (buf_data (buffers fb2 ! fst p)) \<and> unat (ptr_offset h) + length payload \<le> n"
proof -
  obtain fb1 h b off where a: "fb_alloc (length payload) fb = (fb1, h)" "fb_wf n fb1" "fb_data h fb1 = Some (b, off)"
    "b < 2" "off = unat (ptr_offset h)" "off + length payload \<le> n"
    using alloc_data [OF assms(1) _ assms(3)] assms(2) by auto
  let ?d = "buf_data (buffers fb1 ! b)"
  define fb2 where "fb2 = fb1\<lparr>buffers := (buffers fb1)[b := (buffers fb1 ! b)\<lparr>buf_data :=
     take off ?d @ payload @ drop (off + length payload) ?d\<rparr>]\<rparr>"
  have d: "length ?d = n" "length (buffers fb1) = 2" using fb_wf_nth [OF a(2,4)] a(2) by (auto simp: fb_wf_def)
  have b2: "buffers fb2 ! b = (buffers fb1 ! b)\<lparr>buf_data := take off ?d @ payload @ drop (off + length payload) ?d\<rparr>"
    using a(4) d(2) by (simp add: fb2_def)
  have "fb_store (b, off) payload fb1 = Inr fb2"
    using a(6) d(1) by (simp add: fb_store_def memcpy_at_def fb2_def)
  moreover have "fb_wf n fb2"
    using a d b2 fb_wf_nth [OF a(2,4)] unfolding fb_wf_def
    by (auto simp: fb2_def dest!: set_update_subset_insert [THEN subsetD])
  moreover have "fb_data h fb2 = Some (b, off)"
    using a(3,4) d(2) by (auto simp: fb_data_iff fb_current_def fb2_def nth_list_update)
  ultimately show ?thesis using a d b2 by (auto intro!: exI [of _ fb1] exI [of _ h] exI [of _ "(b, off)"])
qed

lemma ipv4_send_waits:
  assumes s: "net_ok s" "latest_of hop (q_list (mappings s)) = None" "um_map (active_probes s) hop = None"
    "\<not> full (active_probes s)"
    and d: "payload \<noteq> []" "length payload \<le> 10240"
    and hop: "hop = (if ip_local s AND ip_netmask s = dest AND ip_netmask s then dest else default_gateway s)"
  shows "\<exists>s1 pr i h p. ipv4_send protocol dest payload s = Inr (s1, True) \<and> net_ok s1 \<and>
     hw_address s1 = hw_address s \<and> ip_local s1 = ip_local s \<and> next_datagram_id s1 = next_datagram_id s \<and>
     sent s1 = sent s @ [eth_frame ET_ARP broadcast_address (arp_packet OP_REQUEST hop wildcard_address s) s] \<and>
     um_map (active_probes s1) hop = Some pr \<and> at (waiters pr) = [i \<mapsto> SendDatagram protocol dest h (length payload)] \<and>
     fb_data h (arp_wait_buffer s1) = Some p \<and>
     take (length payload) (drop (snd p) (buf_data (buffers (arp_wait_buffer s1) ! fst p))) = payload \<and>
     snd p + length payload \<le> length (buf_data (buffers (arp_wait_buffer s1) ! fst p))"
proof -
  have wf: "fb_wf 10240 (arp_wait_buffer s)" "mappings_ok (mappings s)" using s(1) by (auto simp: net_ok_def)
  obtain fb1 h p fb2 where b: "fb_alloc (length payload) (arp_wait_buffer s) = (fb1, h)" "fb_data h fb1 = Some p"
    "fb_store p payload fb1 = Inr fb2" "fb_wf 10240 fb2" "fb_data h fb2 = Some p"
    "take (length payload) (drop (snd p) (buf_data (buffers fb2 ! fst p))) = payload"
    "snd p + length payload \<le> length (buf_data (buffers fb2 ! fst p))" "unat (ptr_offset h) + length payload \<le> 10240"
    using wait_buffer_holds [OF wf(1) d] by blast
  let ?s = "s\<lparr>arp_wait_buffer := fb2\<rparr>" and ?w = "SendDatagram protocol dest h (length payload)"
  have "net_ok ?s" "waiter_ok hop ?w" using s(1) b(4,8) by (auto simp: net_ok_def waiter_ok_def)
  then obtain s1 pr i where f: "fetch_network hop ?w ?s = Inr s1" "net_ok s1"
    "s1 = ?s\<lparr>active_probes := active_probes s1,
       sent := sent ?s @ [eth_frame ET_ARP broadcast_address (arp_packet OP_REQUEST hop wildcard_address ?s) ?s]\<rparr>"
    "um_map (active_probes s1) = (um_map (active_probes ?s))(hop \<mapsto> pr)" "at (waiters pr) = [i \<mapsto> ?w]"
    using fetch_network_new [of ?s hop ?w] s by auto
  have "ipv4_send protocol dest payload s = Inr (s1, True)"
    unfolding ipv4_send_def hop [symmetric] using wf s(2) b(1,2,3) f(1) d
    by (simp add: fetch_cached_def mapping_fetch_list mappings_ok_def fb_wf_capacity Let_def)
  moreover have g: "hw_address s1 = hw_address s" "ip_local s1 = ip_local s" "next_datagram_id s1 = next_datagram_id s"
    "arp_wait_buffer s1 = fb2"
    "sent s1 = sent s @ [eth_frame ET_ARP broadcast_address (arp_packet OP_REQUEST hop wildcard_address s) s]"
    by (subst f(3), simp add: eth_frame_def arp_packet_def)+
  ultimately show ?thesis using b(5,6,7) f(2,4,5)
    by (intro exI [of _ s1] exI [of _ pr] exI [of _ i] exI [of _ h] exI [of _ p]) simp
qed

lemma iter_single:
  assumes "pool_inv p" "at p = [i \<mapsto> w]"
  shows "iter_from p (pool_begin p) = [i]"
proof -
  have "i < watermark p" using at_watermark [of p i w] assms(2) by simp
  moreover have "valid j p \<longleftrightarrow> j = i" for j using valid_at [OF assms(1), of j] assms(2) by auto
  ultimately show ?thesis using filter_eq_upt [of i "watermark p"] by (simp add: iter_indices [OF assms(1)])
qed

lemma resume_waiting:
  assumes s: "net_ok s" "um_map (active_probes s) hop = Some pr" "length hw = 6"
    and w: "at (waiters pr) = [i \<mapsto> SendDatagram protocol dest h len]" "len \<le> 1480"
    and b: "fb_data h (arp_wait_buffer s) = Some p"
      "snd p + len \<le> length (buf_data (buffers (arp_wait_buffer s) ! fst p))"
  shows "\<exists>s'. write_cache_entry hop hw s = Inr s' \<and> net_ok s' \<and> fetch_cached hop s' = Inr (Some hw) \<and>
     um_map (active_probes s') hop = None \<and>
     sent s' = sent s @ [eth_frame ET_IPV4 hw (datagram protocol (ip_local s) dest (next_datagram_id s)
       (take len (drop (snd p) (buf_data (buffers (arp_wait_buffer s) ! fst p))))) s]"
proof -
  let ?d = "take len (drop (snd p) (buf_data (buffers (arp_wait_buffer s) ! fst p)))"
  obtain s' fs where s': "write_cache_entry hop hw s = Inr s'" "net_ok s'"
    "latest_of hop (q_list (mappings s')) = Some hw" "um_map (active_probes s') = (um_map (active_probes s))(hop := None)"
    using write_cache_entry_step [OF s(1,3), of hop] by blast
  have p: "probes_ok (active_probes s)" using s(1) by (simp add: net_ok_def)
  obtain it where it: "um_find hop (active_probes s) = Inr it" "um_pos (active_probes s) it = Some (hop, pr)"
    "it \<noteq> watermark (active_probes s)"
    using um_find_pos [OF probes_okD(1) [OF p], of hop] s(2) by auto
  have wi: "pool_inv (waiters pr)" using probes_okD(3) [OF p s(2)] by (simp add: probe_ok_def)
  obtain q where q: "mapping_insert hop hw (mappings s) = Inr q"
    using latest_of_snoc_ok [of "mappings s" hw hop] s by (auto simp: net_ok_def)
  define s1 where "s1 = s\<lparr>mappings := q\<rparr>"
  obtain s2 where s2: "ipv4_send_via protocol dest hw ?d s1 = Inr s2"
    "emits s1 [eth_frame ET_IPV4 hw (datagram protocol (ip_local s1) dest (next_datagram_id s1) ?d) s1] s2"
  proof -
    have "length ?d \<le> 1480" using w(2) by simp
    then show ?thesis using that send_via_emits [of protocol dest hw ?d s1] by (simp only: if_True) blast
  qed
  have "notify_all (Some hw) pr s1 = Inr s2"
    using w b s2(1) get_at [OF wi, of i] unfolding notify_all_def iter_single [OF wi w(1)]
    by (cases p) (simp add: run_waiter_def s1_def Let_def)
  then have "\<exists>p'. write_cache_entry hop hw s = Inr (s2\<lparr>active_probes := p'\<rparr>)"
    using q it get_entry [OF probes_okD(1) [OF p] it(2)] emits_fields(3) [OF s2(2)] s'(1)
    by (auto simp: write_cache_entry_def Let_def s1_def)
  then have "sent s' = sent s2" using s'(1) by auto
  then show ?thesis using s' emits_fields(6) [OF s2(2)]
    by (simp add: fetch_cached_def mapping_fetch_list net_ok_def mappings_ok_def s1_def eth_frame_def)
qed

lemma nth_append_less: "n < length xs \<Longrightarrow> (xs @ ys) ! n = xs ! n"
  by (simp add: nth_append)

lemma arp_receive_packet:
  assumes "length (hw_address r) = 6" "length target_hw = 6" "hw_address s \<noteq> hw_address r"
  shows "arp_on_receive src (arp_packet operation target target_hw r) s =
    (if operation = OP_REQUEST
     then if target = ip_local s then arp_send OP_REPLY (ip_local r) (hw_address r) src s else Inr s
     else if operation = OP_REPLY then write_cache_entry (ip_local r) (hw_address r) s else Inr s)"
proof -
  have p: "arp_parse (arp_packet operation target target_hw r) =
      \<lparr>htype = htons 1, ptype = htons ET_IPV4, hlen = 6, plen = 4, oper = htons operation,
        sha = hw_address r, spa = htonl (ip_local r), tha = target_hw, tpa = htonl target\<rparr>"
    using arp_parse_bytes [of _ "[]"] assms by (simp add: arp_packet_def)
  have l: "length (arp_packet operation target target_hw r) = 28" using assms by (simp add: arp_packet_def)
  show ?thesis using assms(3) by (simp add: arp_on_receive_def p l assertR_def Let_def)
qed



end
