(* ===== verification/Net_Input.thy ===== *)
theory Net_Input
  imports TCP Net_Resolve
begin

text \<open>
  Receiving: \<open>ethernet::protocol::on_receive\<close>, the receiving half of IPv4 with its
  reassembly of fragments (\<open>ipv4/protocol.cc\<close>), UDP (\<open>udp/protocol.cc\<close>), ICMP
  (\<open>icmp/protocol.h\<close>) and the stack's tick (\<open>protocol_stack.h\<close>). A frame that a layer
  drops leaves the state as it is; an assertion a remote packet can fail is a fault.
\<close>

unbundle bit_operations_syntax

definition FLAGS_MF :: "16 word" where "FLAGS_MF = 0x02"
definition PROTO_ICMP :: byte where "PROTO_ICMP = 1"
definition PROTO_UDP :: byte where "PROTO_UDP = 17"

subsection \<open>Transport protocols\<close>

text \<open>UDP reads the header and drops the payload.\<close>

definition udp_on_receive :: "byte list \<Rightarrow> 's \<Rightarrow> 's res" where
  "udp_on_receive bs s = assertR (8 \<le> length bs) (Inr s)"

definition icmp_on_receive :: "byte list \<Rightarrow> 's \<Rightarrow> 's res" where
  "icmp_on_receive bs s = Inr s"

definition forward_datagram ::
  "'app callback \<Rightarrow> ipaddr \<Rightarrow> ipaddr \<Rightarrow> byte \<Rightarrow> byte list \<Rightarrow> 'app tcp_stack \<Rightarrow> ('app tcp_stack \<times> bool) res" where
  "forward_datagram cb src dest protocol bs s =
     (if protocol = PROTO_TCP then bindR (tcp_on_receive cb src dest bs s) (\<lambda>s'. Inr (s', True))
      else if protocol = PROTO_UDP then bindR (udp_on_receive bs s) (\<lambda>s'. Inr (s', True))
      else if protocol = PROTO_ICMP then bindR (icmp_on_receive bs s) (\<lambda>s'. Inr (s', True))
      else Inr (s, False))"

subsection \<open>Recipients\<close>

definition is_broadcast_address :: "ipaddr \<Rightarrow> ipaddr \<Rightarrow> bool" where
  "is_broadcast_address addr netmask \<longleftrightarrow> addr AND NOT netmask = (- 1) AND NOT netmask"

definition is_same_subnet :: "ipaddr \<Rightarrow> ipaddr \<Rightarrow> ipaddr \<Rightarrow> bool" where
  "is_same_subnet addr1 addr2 netmask \<longleftrightarrow> addr1 AND netmask = addr2 AND netmask"

definition is_recipient :: "ipaddr \<Rightarrow> 'a net_stack_scheme \<Rightarrow> bool" where
  "is_recipient dest s \<longleftrightarrow> dest = ip_local s \<or>
     is_same_subnet dest (ip_local s) (ip_netmask s) \<and> is_broadcast_address dest (ip_netmask s)"

subsection \<open>Reassembly\<close>

definition reassembly_buffer_init :: "reassembly_buffer res" where
  "reassembly_buffer_init =
     bindR (frag_buffer_init 10000) (\<lambda>fb. Inr \<lparr>rb_ttl = 20000, received_last = False, rb_data = fb\<rparr>)"

text \<open>The fragment's buffer, found or created.\<close>

definition find_buffer ::
  "reassembly_ident \<Rightarrow> (reassembly_ident, reassembly_buffer) entry pool \<Rightarrow>
   ((reassembly_ident, reassembly_buffer) entry pool \<times> nat) res" where
  "find_buffer ident p =
     bindR (um_find ident p) (\<lambda>it.
     if it \<noteq> watermark p then Inr (p, it)
     else bindR reassembly_buffer_init (\<lambda>b.
          bindR (um_insert ident b p) (\<lambda>(p', _).
          bindR (um_find ident p') (\<lambda>it'. assertR (it' \<noteq> watermark p') (Inr (p', it'))))))"

definition receive_fragment ::
  "'app callback \<Rightarrow> reassembly_ident \<Rightarrow> bool \<Rightarrow> int \<Rightarrow> byte list \<Rightarrow> 'app tcp_stack \<Rightarrow> 'app tcp_stack res" where
  "receive_fragment cb ident last_fragment offset payload s =
     (if full (reassembly_buffers s) then Inr s
      else
        bindR (find_buffer ident (reassembly_buffers s)) (\<lambda>(p, it).
        bindR (get p it) (\<lambda>e.
        bindR (frag_insert offset payload (rb_data (evalue e))) (\<lambda>fb.
        let b = (evalue e)\<lparr>received_last := received_last (evalue e) \<or> last_fragment, rb_data := fb\<rparr>
        in bindR (modify it (\<lambda>e. e\<lparr>evalue := b\<rparr>) p) (\<lambda>p1.
           let s1 = s\<lparr>reassembly_buffers := p1\<rparr>
           in if received_last b
              then bindR (continuous_size fb) (\<lambda>n.
                   if 0 < n
                   then bindR (forward_datagram cb (rb_source ident) (rb_dest ident) (rb_protocol ident)
                                (take (nat n) (fdata fb)) s1) (\<lambda>(s2, _).
                        bindR (um_erase it (reassembly_buffers s2)) (\<lambda>p2. Inr (s2\<lparr>reassembly_buffers := p2\<rparr>)))
                   else Inr s1)
              else Inr s1)))))"

subsection \<open>IPv4\<close>

definition ipv4_on_receive :: "'app callback \<Rightarrow> byte list \<Rightarrow> 'app tcp_stack \<Rightarrow> 'app tcp_stack res" where
  "ipv4_on_receive cb bs s =
     assertR (20 < length bs)
      (let hdr = ipv4_parse bs;
           total = unat (ntohs (total_len hdr));
           frag = ntohs (frag_ofs hdr);
           src = ntohl (src_addr hdr);
           dest = ntohl (dest_addr hdr);
           header_length = unat (ihl hdr) * 4;
           flags = drop_bit 12 frag;
           frag_offset = (frag AND 0x1FFF) * 8
       in if version hdr \<noteq> 4 then Inr s
          else if 60 < header_length then Inr s
          else if total < header_length then Inr s
          else if length bs < total then Inr s
          else if ttl hdr = 0 then Inr s
          else
            let options = (if 20 < header_length then take (header_length - 20) (drop 20 bs) else [])
            in bindR (ipv4_checksum (hdr\<lparr>ip_checksum := 0\<rparr>) options) (\<lambda>sum.
               if ntohs (ip_checksum hdr) \<noteq> htons sum then Inr s
               else if \<not> is_recipient dest s then Inr s
               else
                 let payload = take (min (total - header_length) (length bs - 20)) (drop header_length bs)
                 in if flags AND FLAGS_MF = 0 \<and> frag_ofs hdr = 0
                    then bindR (forward_datagram cb src dest (ip_protocol hdr) payload s) (\<lambda>(s', _). Inr s')
                    else receive_fragment cb
                           \<lparr>rb_dest = dest, rb_source = src, rb_ident = ntohs (ip_id hdr), rb_protocol = ip_protocol hdr\<rparr>
                           (flags AND FLAGS_MF = 0) (int (unat frag_offset)) payload s))"

text \<open>
  \<open>ipv4::tick\<close>. The end iterator is taken once, and the iterator moves only past buffers
  whose time is over or which it erases, so a buffer with time left is charged again in the
  next turn. The fuel bounds the turns.
\<close>

fun ipv4_tick_loop :: "nat \<Rightarrow> int \<Rightarrow> nat \<Rightarrow> nat \<Rightarrow> 'a net_stack_scheme \<Rightarrow> 'a net_stack_scheme res" where
  "ipv4_tick_loop 0 delta it end_it s = Inl Diverges"
| "ipv4_tick_loop (Suc fuel) delta it end_it s =
     (if it = end_it then Inr s
      else bindR (get (reassembly_buffers s) it) (\<lambda>e.
           if rb_ttl (evalue e) \<le> 0
           then ipv4_tick_loop fuel delta (pool_next (reassembly_buffers s) it) end_it s
           else
             let t = s32 (u32 (rb_ttl (evalue e) - delta))
             in bindR (modify it (\<lambda>e. e\<lparr>evalue := (evalue e)\<lparr>rb_ttl := t\<rparr>\<rparr>) (reassembly_buffers s)) (\<lambda>p.
                if t \<le> 0
                then bindR (um_erase it p) (\<lambda>p'.
                     ipv4_tick_loop fuel delta (pool_next p it) end_it (s\<lparr>reassembly_buffers := p'\<rparr>))
                else ipv4_tick_loop fuel delta it end_it (s\<lparr>reassembly_buffers := p\<rparr>))))"

definition ipv4_tick :: "nat \<Rightarrow> int \<Rightarrow> 'a net_stack_scheme \<Rightarrow> 'a net_stack_scheme res" where
  "ipv4_tick fuel delta_ms s =
     ipv4_tick_loop fuel delta_ms (pool_begin (reassembly_buffers s)) (watermark (reassembly_buffers s)) s"

subsection \<open>Ethernet and the stack\<close>

definition ethernet_on_receive :: "'app callback \<Rightarrow> byte list \<Rightarrow> 'app tcp_stack \<Rightarrow> 'app tcp_stack res" where
  "ethernet_on_receive cb bs s =
     (if length bs < 14 then Inr s
      else
        let hdr = eth_parse bs;
            pdu = take ((length bs - 14) mod 65536) (drop 14 bs);
            type = ntohs (eth_type hdr)
        in if type = ET_ARP then arp_on_receive (mac_src hdr) pdu s
           else if type = ET_IPV4 then ipv4_on_receive cb pdu s
           else Inr s)"

definition stack_tick :: "nat \<Rightarrow> int \<Rightarrow> 'a net_stack_scheme \<Rightarrow> 'a net_stack_scheme res" where
  "stack_tick fuel delta_ms s = arp_tick fuel delta_ms s"

subsection \<open>A datagram from one stack to another\<close>

lemma nibble_5_4: "nibble 5" "nibble 4"
  by (simp_all add: nibble_def)

lemma unat_total_len: "len \<le> 1480 \<Longrightarrow> unat (of_nat (20 + len) :: 16 word) = 20 + len"
  by (simp add: unat_of_nat del: of_nat_add)

lemma ipv4_receive_datagram:
  assumes "payload \<noteq> []" "length payload \<le> 1480" "is_recipient dest s"
  shows "ipv4_on_receive cb (datagram protocol src dest ident payload) s =
    bindR (forward_datagram cb src dest protocol payload s) (\<lambda>(s', _). Inr s')"
proof -
  define h where "h = datagram_header protocol src dest ident (length payload)"
  define c where "c = checksum_of (sum_words (ipv4_bytes h) + sum_words [])"
  have d: "datagram protocol src dest ident payload = ipv4_bytes (h\<lparr>ip_checksum := c\<rparr>) @ payload"
    by (simp add: datagram_def Let_def h_def c_def)
  have hf: "ihl h = 5" "version h = 4" "total_len h = htons (of_nat (20 + length payload))" "frag_ofs h = htons 0" "ttl h = 65"
    "ip_protocol h = protocol" "ip_checksum h = 0" "src_addr h = htonl src" "dest_addr h = htonl dest"
    by (simp_all add: h_def datagram_header_def)
  have p: "ipv4_parse (ipv4_bytes (h\<lparr>ip_checksum := c\<rparr>) @ payload) = h\<lparr>ip_checksum := c\<rparr>"
    by (rule ipv4_parse_bytes) (simp_all add: hf nibble_5_4)
  have z: "htons 0 = (0 :: 16 word)" "ntohs 0 = (0 :: 16 word)" by (simp_all add: htons_def ntohs_def de16_def)
  have cs: "ipv4_checksum (h\<lparr>ip_checksum := 0\<rparr>) [] = Inr c"
    using hf(7) by (simp add: ipv4_checksum_def assertR_def c_def) (metis (no_types) ipv4_header.surjective ipv4_header.update_convs(9) hf(7))
  have len: "length (datagram protocol src dest ident payload) = 20 + length payload" by (simp add: d)
  have five: "unat (5 :: byte) = 5" by simp
  note t = unat_total_len [OF assms(2)]
  have "ntohs c = htons c" by (simp add: htons_def)
  then show ?thesis
    unfolding ipv4_on_receive_def Let_def len d p
    using assms cs t five by (simp add: hf z assertR_def del: of_nat_add)
qed

text \<open>
  \<^bold>\<open>C15.\<close> What one stack sends, another receives: the frame \<open>r\<close> emits for a datagram with a
  non-empty payload of at most 1480 bytes passes the length, version and checksum tests of
  every stack \<open>s\<close> that is its recipient, and the payload reaches the transport protocol with
  the addresses and the protocol number it was sent with.
\<close>

theorem ipv4_roundtrip:
  assumes "length (hw_address r) = 6" "length hw = 6" "payload \<noteq> []" "length payload \<le> 1480" "is_recipient dest s"
  shows "\<exists>r'. ipv4_send_via protocol dest hw payload r = Inr r' \<and>
     ethernet_on_receive cb (last (sent r')) s =
       bindR (forward_datagram cb (ip_local r) dest protocol payload s) (\<lambda>(s', _). Inr s')"
proof -
  let ?d = "datagram protocol (ip_local r) dest (next_datagram_id r) payload"
  obtain r' where r': "ipv4_send_via protocol dest hw payload r = Inr r'" "sent r' = sent r @ [eth_frame ET_IPV4 hw ?d r]"
    using send_via_emits [of protocol dest hw payload r] assms(4) emits_fields(6) by fastforce
  let ?h = "\<lparr>mac_dest = hw, mac_src = hw_address r, eth_type = htons ET_IPV4\<rparr>"
  have len: "length ?d = 20 + length payload" by (simp add: datagram_def Let_def)
  have l14: "length (eth_bytes ?h) = 14" using assms(1,2) by simp
  have "eth_parse (eth_frame ET_IPV4 hw ?d r) = ?h"
    using eth_parse_bytes [of ?h ?d] assms(1,2) by (simp add: eth_frame_def)
  moreover have "drop 14 (eth_frame ET_IPV4 hw ?d r) = ?d" "length (eth_frame ET_IPV4 hw ?d r) = 34 + length payload"
    using l14 len by (simp_all add: eth_frame_def)
  ultimately have "ethernet_on_receive cb (eth_frame ET_IPV4 hw ?d r) s = ipv4_on_receive cb ?d s"
    using len assms(4) by (simp add: ethernet_on_receive_def Let_def ET_IPV4_def ET_ARP_def)
  then show ?thesis using r' ipv4_receive_datagram [OF assms(3,4,5)] by auto
qed

theorem ipv4_roundtrip_witness:
  "\<exists>r s r'. r = net_stack_init [2, 0, 0, 0, 0, 1] 0xC0A80002 0xFFFFFF00 0xC0A80001 \<and>
     s = tcp_stack_init [2, 0, 0, 0, 0, 9] 0xC0A80003 0xFFFFFF00 0xC0A80001 () \<and>
     ipv4_send_via 17 0xC0A80003 [2, 0, 0, 0, 0, 9] [0, 1, 2, 3, 4, 5, 6, 7] r = Inr r' \<and>
     ethernet_on_receive (\<lambda>a h bs. (a, [])) (last (sent r')) s = Inr s"
proof -
  let ?r = "net_stack_init [2, 0, 0, 0, 0, 1] 0xC0A80002 0xFFFFFF00 0xC0A80001"
  let ?s = "tcp_stack_init [2, 0, 0, 0, 0, 9] 0xC0A80003 0xFFFFFF00 0xC0A80001 ()"
  have i: "length (hw_address ?r) = 6" by (simp add: net_stack_init_def)
  have rc: "is_recipient 0xC0A80003 ?s" by (simp add: is_recipient_def tcp_stack_init_def net_stack_init_def net_stack.defs)
  have f: "forward_datagram (\<lambda>a h bs. (a, [])) x 0xC0A80003 17 [0, 1, 2, 3, 4, 5, 6, 7] ?s = Inr (?s, True)" for x
    by (simp add: forward_datagram_def PROTO_TCP_def PROTO_UDP_def udp_on_receive_def)
  show ?thesis
    using ipv4_roundtrip [OF i, of "[2, 0, 0, 0, 0, 9]" "[0, 1, 2, 3, 4, 5, 6, 7]" "0xC0A80003" ?s 17 "\<lambda>a h bs. (a, [])"] rc
    unfolding f by auto
qed

subsection \<open>Reassembling a datagram\<close>

text \<open>Is \<open>f\<close> the end of a message of \<open>n\<close> bytes? Its sender leaves the more-fragments flag out then.\<close>

definition ends_at :: "nat \<Rightarrow> int \<times> byte list \<Rightarrow> bool" where
  "ends_at n f \<longleftrightarrow> fst f + int (length (snd f)) = int n"

fun receive_all ::
  "'app callback \<Rightarrow> reassembly_ident \<Rightarrow> nat \<Rightarrow> (int \<times> byte list) list \<Rightarrow> 'app tcp_stack \<Rightarrow> 'app tcp_stack res" where
  "receive_all cb ident n [] s = Inr s"
| "receive_all cb ident n (f # fs) s =
     bindR (receive_fragment cb ident (ends_at n f) (fst f) (snd f) s) (receive_all cb ident n fs)"

definition buf_holds :: "byte list \<Rightarrow> (int \<times> byte list) list \<Rightarrow> reassembly_buffer \<Rightarrow> bool" where
  "buf_holds m fs b \<longleftrightarrow> frag_ok (rb_data b) \<and> agrees m (rb_data b) \<and> length (fdata (rb_data b)) = 10000 \<and>
     capacity (holes (rb_data b)) = 250 \<and> pcount (holes (rb_data b)) \<le> Suc (length fs) \<and>
     missing (holes (rb_data b)) = {0..<INT_MAX} - covered fs \<and> received_last b = (\<exists>f \<in> set fs. ends_at (length m) f)"

definition holding :: "reassembly_ident \<Rightarrow> byte list \<Rightarrow> (int \<times> byte list) list \<Rightarrow> (reassembly_ident, reassembly_buffer) entry pool \<Rightarrow> bool" where
  "holding ident m fs p \<longleftrightarrow> um_inv p \<and> capacity p = 10 \<and> card (dom (um_map p) - {ident}) \<le> 8 \<and>
     (case um_map p ident of None \<Rightarrow> fs = [] | Some b \<Rightarrow> buf_holds m fs b)"

lemma finite_dom_um_map: "finite (dom (um_map p))"
  by (simp add: um_map_def finite_dom_map_of)

lemma holding_not_full: "holding ident m fs p \<Longrightarrow> \<not> full p"
proof -
  assume h: "holding ident m fs p"
  have "card (dom (um_map p)) \<le> Suc (card (dom (um_map p) - {ident}))"
    using card_Diff_singleton_if [of "dom (um_map p)" ident] finite_dom_um_map [of p]
    by (metis card.remove card_Diff_singleton_if diff_le_self le_SucI order_refl)
  then show ?thesis using h full_card [of p] by (auto simp: holding_def split: if_splits)
qed

lemma find_buffer_holds:
  assumes "holding ident m fs p" "length m \<le> 10000"
  shows "\<exists>p1 it b. find_buffer ident p = Inr (p1, it) \<and> um_pos p1 it = Some (ident, b) \<and> buf_holds m fs b \<and>
     um_inv p1 \<and> capacity p1 = 10 \<and> dom (um_map p1) - {ident} = dom (um_map p) - {ident}"
proof -
  have ui: "um_inv p" "capacity p = 10" using assms(1) by (auto simp: holding_def)
  show ?thesis
  proof (cases "um_map p ident")
    case (Some b)
    then obtain it where "um_find ident p = Inr it" "um_pos p it = Some (ident, b)" "it \<noteq> watermark p"
      using um_find_pos [OF ui(1), of ident] by auto
    then show ?thesis using Some assms(1) ui by (auto simp: find_buffer_def holding_def)
  next
    case None
    have fd: "um_find ident p = Inr (watermark p)" using um_find_pos [OF ui(1), of ident] None by auto
    obtain fb where fb: "frag_buffer_init 10000 = Inr fb" "frag_ok fb" "length (fdata fb) = 10000" "pcount (holes fb) = 1"
      "capacity (holes fb) = 250" "missing (holes fb) = {0..<INT_MAX}" using frag_buffer_init_ok [of 10000] by auto
    let ?b = "\<lparr>rb_ttl = 20000, received_last = False, rb_data = fb\<rparr>"
    have "card (dom (um_map p)) < capacity p"
      using full_card [OF ui(1)] holding_not_full [OF assms(1)] by simp
    then obtain p1 where p1: "um_insert ident ?b p = Inr (p1, True)" "um_inv p1" "capacity p1 = 10"
      "um_map p1 = (um_map p)(ident \<mapsto> ?b)" using um.ins_new [OF ui(1) None, of ?b] ui(2) by auto
    obtain it where it: "um_find ident p1 = Inr it" "um_pos p1 it = Some (ident, ?b)" "it \<noteq> watermark p1"
      using um_find_pos [OF p1(2), of ident] p1(4) by auto
    have "fs = []" using assms(1) None by (simp add: holding_def)
    moreover have "agrees m fb" using fb(6) assms(2) by (auto simp: agrees_def INT_MAX_def)
    ultimately have "buf_holds m fs ?b" using fb by (simp add: buf_holds_def covered_def)
    then show ?thesis using fd fb(1) p1 it by (auto simp: find_buffer_def reassembly_buffer_init_def)
  qed
qed

lemma continuous_size_holds:
  assumes "buf_holds m fs b" "m \<noteq> []" "length m \<le> 10000" "\<forall>f \<in> set fs. fragment_of m f" "received_last b"
  shows "continuous_size (rb_data b) = Inr (if covered fs = {0..<int (length m)} then int (length m) else 0)"
proof -
  note h = assms(1) [unfolded buf_holds_def]
  have lim: "int (length m) < INT_MAX" using assms(3) by (simp add: INT_MAX_def)
  have cov: "covered fs \<subseteq> {0..<int (length m)}" using assms(4) by (fastforce simp: covered_def fragment_of_def)
  obtain f where f: "f \<in> set fs" "ends_at (length m) f" using h assms(5) by auto
  then have "int (length m) - 1 \<in> covered fs"
    using assms(4) by (auto simp: covered_def fragment_of_def ends_at_def intro!: bexI [of _ f])
  then have lastc: "int (length m) - 1 \<notin> missing (holes (rb_data b))" using h by auto
  show ?thesis
  proof (cases "covered fs = {0..<int (length m)}")
    case True
    then have "missing (holes (rb_data b)) = {int (length m)..<INT_MAX}" using h by auto
    then show ?thesis using continuous_size_missing [of "rb_data b" "int (length m)"] h lim True by simp
  next
    case False
    have "\<nexists>n. missing (holes (rb_data b)) = {n..<INT_MAX}"
    proof
      assume "\<exists>n. missing (holes (rb_data b)) = {n..<INT_MAX}"
      then obtain n where n: "missing (holes (rb_data b)) = {n..<INT_MAX}" by blast
      obtain x where x: "x \<in> {0..<int (length m)}" "x \<notin> covered fs" using False cov by blast
      then have "x \<in> {n..<INT_MAX}" using h lim n by auto
      then have "int (length m) - 1 \<in> {n..<INT_MAX}" using x(1) lim by simp
      then show False using lastc n by simp
    qed
    then show ?thesis using continuous_size_gaps [of "rb_data b"] h False by simp
  qed
qed

lemma covered_snoc: "covered (fs @ [f]) = covered fs \<union> {fst f..<fst f + int (length (snd f))}"
  by (auto simp: covered_def split: prod.splits)

lemma receive_fragment_step:
  assumes h: "holding ident m fs (reassembly_buffers s)" and m: "m \<noteq> []" "length m \<le> 10000"
    and fs: "\<forall>g \<in> set (fs @ [f]). fragment_of m g" "length fs < 249"
  shows "\<exists>p it b. holding ident m (fs @ [f]) p \<and> um_pos p it = Some (ident, b) \<and>
    receive_fragment cb ident (ends_at (length m) f) (fst f) (snd f) s =
     (if covered (fs @ [f]) = {0..<int (length m)} \<and> (\<exists>g \<in> set (fs @ [f]). ends_at (length m) g)
      then bindR (forward_datagram cb (rb_source ident) (rb_dest ident) (rb_protocol ident) m (s\<lparr>reassembly_buffers := p\<rparr>))
             (\<lambda>(s2, _). bindR (um_erase it (reassembly_buffers s2)) (\<lambda>p2. Inr (s2\<lparr>reassembly_buffers := p2\<rparr>)))
      else Inr (s\<lparr>reassembly_buffers := p\<rparr>))"
proof -
  obtain p1 it b where b: "find_buffer ident (reassembly_buffers s) = Inr (p1, it)" "um_pos p1 it = Some (ident, b)"
    "buf_holds m fs b" "um_inv p1" "capacity p1 = 10" "dom (um_map p1) - {ident} = dom (um_map (reassembly_buffers s)) - {ident}"
    using find_buffer_holds [OF h m(2)] by blast
  note hb = b(3) [unfolded buf_holds_def]
  have fo: "fragment_of m (fst f, snd f)" using fs(1) by simp
  obtain fb where fb: "frag_insert (fst f) (snd f) (rb_data b) = Inr fb" "frag_ok fb" "agrees m fb" "length (fdata fb) = 10000"
    "capacity (holes fb) = 250" "pcount (holes fb) \<le> Suc (Suc (length fs))"
    "missing (holes fb) = missing (holes (rb_data b)) - {fst f..<fst f + int (length (snd f))}"
    using insert_fragment [OF _ _ fo, of "rb_data b"] hb m(2) fs(2) by fastforce
  define b' where "b' = b\<lparr>received_last := received_last b \<or> ends_at (length m) f, rb_data := fb\<rparr>"
  have hb': "buf_holds m (fs @ [f]) b'" using fb hb by (auto simp: buf_holds_def b'_def covered_snoc)
  obtain p where p: "modify it (\<lambda>e. e\<lparr>evalue := b'\<rparr>) p1 = Inr p" "um_inv p" "capacity p = 10" "um_map p = (um_map p1)(ident \<mapsto> b')"
    "um_pos p it = Some (ident, b')"
    using um_modify [OF b(4,2), of b'] b(5) by auto
  have "holding ident m (fs @ [f]) p" using h p b(6) hb' by (simp add: holding_def)
  moreover have "take (length m) (fdata fb) = m" if "covered (fs @ [f]) = {0..<int (length m)}"
  proof (rule nth_equalityI)
    show "length (take (length m) (fdata fb)) = length m" using fb(4) m(2) by simp
    fix i assume i: "i < length (take (length m) (fdata fb))"
    then have "int i \<in> covered (fs @ [f])" using that by simp
    then have "int i \<notin> missing (holes fb)" using fb(7) hb by (auto simp: covered_snoc)
    then show "take (length m) (fdata fb) ! i = m ! i" using fb(3) i by (simp add: agrees_def)
  qed
  moreover have "continuous_size fb = Inr (if covered (fs @ [f]) = {0..<int (length m)} then int (length m) else 0)"
    if "\<exists>g \<in> set (fs @ [f]). ends_at (length m) g"
    using continuous_size_holds [OF hb' m fs(1)] that hb' by (auto simp: buf_holds_def b'_def)
  moreover have "received_last b' = (\<exists>g \<in> set (fs @ [f]). ends_at (length m) g)" using hb' by (simp add: buf_holds_def)
  moreover have "get p1 it = Inr \<lparr>ekey = ident, evalue = b\<rparr>" using b(2,4) by (simp add: um_pos_Some get_at um_inv_def)
  ultimately show ?thesis
    using b(1) fb(1) p(1,5) m(1) holding_not_full [OF h]
    by (intro exI [of _ p] exI [of _ it] exI [of _ b']) (auto simp: receive_fragment_def b'_def Let_def)
qed

lemma covered_append: "covered (fs @ gs) = covered fs \<union> covered gs"
  by (auto simp: covered_def)

lemma covered_in: "\<forall>f \<in> set fs. fragment_of m f \<Longrightarrow> covered fs \<subseteq> {0..<int (length m)}"
  by (fastforce simp: covered_def fragment_of_def)

lemma covered_ends:
  assumes "\<forall>f \<in> set fs. fragment_of m f" "covered fs = {0..<int (length m)}" "m \<noteq> []"
  shows "\<exists>f \<in> set fs. ends_at (length m) f"
proof -
  have "int (length m) - 1 \<in> covered fs" using assms(2,3) by simp
  then obtain f where "f \<in> set fs" "int (length m) - 1 < fst f + int (length (snd f))" by (auto simp: covered_def)
  moreover then have "fst f + int (length (snd f)) \<le> int (length m)" using assms(1) by (auto simp: fragment_of_def)
  ultimately show ?thesis unfolding ends_at_def by force
qed

lemma receive_incomplete:
  assumes m: "m \<noteq> []" "length m \<le> 10000"
  shows "holding ident m fs (reassembly_buffers s) \<Longrightarrow> \<forall>g \<in> set (fs @ gs). fragment_of m g \<Longrightarrow>
    length (fs @ gs) < 250 \<Longrightarrow> covered (fs @ gs) \<noteq> {0..<int (length m)} \<Longrightarrow>
    \<exists>p. receive_all cb ident (length m) gs s = Inr (s\<lparr>reassembly_buffers := p\<rparr>) \<and> holding ident m (fs @ gs) p"
proof (induction gs arbitrary: fs s)
  case Nil
  then show ?case by (auto intro!: exI [of _ "reassembly_buffers s"])
next
  case (Cons g gs)
  have fr: "\<forall>x \<in> set (fs @ [g]). fragment_of m x" "length fs < 249" using Cons.prems(2,3) by auto
  have nc: "covered (fs @ [g]) \<noteq> {0..<int (length m)}"
  proof
    assume "covered (fs @ [g]) = {0..<int (length m)}"
    moreover have "covered (fs @ g # gs) = covered (fs @ [g]) \<union> covered gs"
      using covered_append [of "fs @ [g]" gs] by simp
    ultimately show False using Cons.prems(4) covered_in [OF Cons.prems(2)] by auto
  qed
  obtain p where p: "holding ident m (fs @ [g]) p"
    "receive_fragment cb ident (ends_at (length m) g) (fst g) (snd g) s = Inr (s\<lparr>reassembly_buffers := p\<rparr>)"
    using receive_fragment_step [OF Cons.prems(1) m fr, of cb] nc by auto
  have "\<exists>p'. receive_all cb ident (length m) gs (s\<lparr>reassembly_buffers := p\<rparr>) =
      Inr (s\<lparr>reassembly_buffers := p, reassembly_buffers := p'\<rparr>) \<and> holding ident m ((fs @ [g]) @ gs) p'"
    by (rule Cons.IH) (use Cons.prems p(1) in auto)
  then show ?case using p(2) by auto
qed

lemma receive_all_append: "receive_all cb ident n (fs @ gs) s = bindR (receive_all cb ident n fs s) (receive_all cb ident n gs)"
  by (induction fs arbitrary: s) (auto simp: bindR_def split: sum.split)



end
