(* ===== verification/TCP_Machine.thy ===== *)
theory TCP_Machine
  imports TCP Net_Resolve
begin

text \<open>
  Correctness of TCP: the best matching connection, the state diagram the connection states
  follow, the opening handshake and the delivery of data on an established connection.
\<close>

subsection \<open>The best match\<close>

definition score_at :: "endpoint \<Rightarrow> endpoint \<Rightarrow> connection pool \<Rightarrow> nat \<Rightarrow> int" where
  "score_at remote local p i = conn_compare remote local (the (at p i))"

lemma best_loop_spec:
  assumes "pool_inv p" "set its \<subseteq> dom (at p)" "sorted_wrt (<) its" "\<forall>j \<in> set its. li < j \<or> li = watermark p"
  shows "\<exists>it. best_loop remote local p its lo li = Inr it \<and>
    (it = li \<and> (\<forall>j \<in> set its. score_at remote local p j \<le> lo) \<or>
     it \<in> set its \<and> lo < score_at remote local p it \<and> (\<forall>j \<in> set its. score_at remote local p j \<le> score_at remote local p it) \<and>
     (\<forall>j \<in> set its. j < it \<longrightarrow> score_at remote local p j < score_at remote local p it))"
  using assms(2,3,4)
proof (induction its arbitrary: lo li)
  case (Cons i its)
  then obtain c where c: "at p i = Some c" by auto
  have g: "get p i = Inr c" "score_at remote local p i = conn_compare remote local c"
    using c get_at [OF assms(1), of i] by (auto simp: score_at_def)
  have lt: "\<forall>j \<in> set its. i < j" using Cons.prems(2) by simp
  show ?case
  proof (cases "lo < conn_compare remote local c")
    case True
    obtain it where it: "best_loop remote local p its (conn_compare remote local c) i = Inr it"
      "it = i \<and> (\<forall>j \<in> set its. score_at remote local p j \<le> conn_compare remote local c) \<or>
       it \<in> set its \<and> conn_compare remote local c < score_at remote local p it \<and>
       (\<forall>j \<in> set its. score_at remote local p j \<le> score_at remote local p it) \<and>
       (\<forall>j \<in> set its. j < it \<longrightarrow> score_at remote local p j < score_at remote local p it)"
      using Cons.IH [of i "conn_compare remote local c"] Cons.prems lt by auto
    then show ?thesis using True g lt by (intro exI [of _ it]) (auto simp: Let_def)
  next
    case False
    obtain it where it: "best_loop remote local p its lo li = Inr it"
      "it = li \<and> (\<forall>j \<in> set its. score_at remote local p j \<le> lo) \<or>
       it \<in> set its \<and> lo < score_at remote local p it \<and> (\<forall>j \<in> set its. score_at remote local p j \<le> score_at remote local p it) \<and>
       (\<forall>j \<in> set its. j < it \<longrightarrow> score_at remote local p j < score_at remote local p it)"
      using Cons.IH [of li lo] Cons.prems by auto
    then show ?thesis using False g lt by (intro exI [of _ it]) (auto simp: Let_def)
  qed
qed simp

lemma iter_sorted: "pool_inv p \<Longrightarrow> sorted_wrt (<) (iter_from p (pool_begin p))"
  by (simp add: iter_indices sorted_wrt_filter)

lemma at_not_watermark: "at p (watermark p) = None"
  by (simp add: at_def valid_def)

lemma find_best_match_spec:
  assumes "pool_inv (connections s)"
  shows "(\<exists>h c. find_best_match remote local s = Inr h \<and> h < capacity (connections s) \<and> at (connections s) h = Some c \<and>
      0 \<le> conn_compare remote local c \<and>
      (\<forall>j d. at (connections s) j = Some d \<longrightarrow> conn_compare remote local d \<le> conn_compare remote local c \<and>
         (j < h \<longrightarrow> conn_compare remote local d < conn_compare remote local c))) \<or>
    find_best_match remote local s = Inr END_SENTINEL \<and>
      (\<forall>j d. at (connections s) j = Some d \<longrightarrow> conn_compare remote local d < 0)"
proof -
  let ?p = "connections s"
  note d = iter_dom [OF assms]
  obtain it where it: "best_loop remote local ?p (iter_from ?p (pool_begin ?p)) (-1) (watermark ?p) = Inr it"
    "it = watermark ?p \<and> (\<forall>j \<in> dom (at ?p). score_at remote local ?p j \<le> -1) \<or>
     it \<in> dom (at ?p) \<and> -1 < score_at remote local ?p it \<and> (\<forall>j \<in> dom (at ?p). score_at remote local ?p j \<le> score_at remote local ?p it) \<and>
     (\<forall>j \<in> dom (at ?p). j < it \<longrightarrow> score_at remote local ?p j < score_at remote local ?p it)"
    using best_loop_spec [OF assms equalityD1 [OF d] iter_sorted [OF assms], of "watermark ?p" remote local "-1"] d by auto
  have fm: "find_best_match remote local s = Inr (if it = watermark ?p then END_SENTINEL else it)"
    using it(1) by (simp add: find_best_match_def Let_def)
  show ?thesis
  proof (cases "it = watermark ?p")
    case True
    then have "\<forall>j \<in> dom (at ?p). score_at remote local ?p j \<le> -1" using it(2) at_not_watermark [of ?p] by auto
    then show ?thesis using fm True by (force simp: score_at_def)
  next
    case False
    then obtain c where c: "at ?p it = Some c" using it(2) by auto
    then show ?thesis using fm False it(2) at_bound [OF assms c] by (force simp: score_at_def)
  qed
qed

text \<open>How specific a filter is: the number of its fields that are not wildcards.\<close>

definition specificity :: "endpoint \<Rightarrow> int" where
  "specificity e = (if ep_ipaddr e \<noteq> 0 then 1 else 0) + (if ep_port e \<noteq> 0 then 1 else 0)"

definition accepts :: "endpoint \<Rightarrow> endpoint \<Rightarrow> bool" where
  "accepts filt e \<longleftrightarrow> (ep_ipaddr filt = 0 \<or> ep_ipaddr filt = ep_ipaddr e) \<and> (ep_port filt = 0 \<or> ep_port filt = ep_port e)"

lemma conn_compare_specificity:
  "conn_compare remote local c =
    (if accepts (c_remote c) remote \<and> accepts (c_local c) local then specificity (c_remote c) + specificity (c_local c) else -1)"
  by (auto simp: conn_compare_def count_specific_matches_def accepts_def specificity_def Let_def)

text \<open>
  \<^bold>\<open>C16.\<close> A segment goes to the most specific connection that accepts its endpoints (a zero
  address or port of a connection accepts every value): \<open>find_best_match\<close> returns the handle
  of a connection accepting both endpoints with the largest number of non-wildcard fields, the
  lowest handle among equals, and the sentinel exactly when no connection accepts them.
\<close>

theorem find_best_match_correct:
  assumes "pool_inv (connections s)"
  shows "\<exists>h. find_best_match remote local s = Inr h \<and>
    (if \<exists>j d. at (connections s) j = Some d \<and> accepts (c_remote d) remote \<and> accepts (c_local d) local
     then \<exists>c. at (connections s) h = Some c \<and> accepts (c_remote c) remote \<and> accepts (c_local c) local \<and>
       (\<forall>j d. at (connections s) j = Some d \<longrightarrow> accepts (c_remote d) remote \<longrightarrow> accepts (c_local d) local \<longrightarrow>
          specificity (c_remote d) + specificity (c_local d) \<le> specificity (c_remote c) + specificity (c_local c) \<and>
          (j < h \<longrightarrow> specificity (c_remote d) + specificity (c_local d) < specificity (c_remote c) + specificity (c_local c)))
     else h = END_SENTINEL)"
proof -
  have nn: "0 \<le> specificity e" for e by (simp add: specificity_def)
  have neg: "conn_compare remote local d < 0 \<longleftrightarrow> \<not> (accepts (c_remote d) remote \<and> accepts (c_local d) local)" for d
    using nn [of "c_remote d"] nn [of "c_local d"] by (simp add: conn_compare_specificity)
  show ?thesis
    using find_best_match_spec [OF assms, of remote local]
  proof (elim disjE exE conjE, goal_cases)
    case (1 h c)
    then show ?case by (intro exI [of _ h]) (fastforce simp: conn_compare_specificity split: if_splits)
  next
    case 2
    then show ?case using neg by auto
  qed
qed

lemma find_best_match_example:
  "\<exists>s. tcp_listen \<lparr>ep_ipaddr = 0, ep_port = 80\<rparr> (tcp_stack_init [] 1 2 3 ()) = Inr s \<and> pool_inv (connections s) \<and>
     (\<exists>h c. at (connections s) = [h \<mapsto> c] \<and> c_remote c = wildcard_endpoint \<and> c_local c = \<lparr>ep_ipaddr = 0, ep_port = 80\<rparr>)"
proof -
  let ?c = "connection_init wildcard_endpoint \<lparr>ep_ipaddr = 0, ep_port = 80\<rparr> LISTEN"
  let ?f = "\<lambda>h c. c\<lparr>c_handle := h, has_callback := False\<rparr>"
  obtain p h where p: "emplace_anywhere ?c (fixed_pool 40) = Inr (p, h)" "pool_inv p" "at p = [h \<mapsto> ?c]"
    using pl.alloc_total [of "fixed_pool 40" ?c] pl.alloc_step [of "fixed_pool 40" ?c] by fastforce
  obtain p' where p': "modify h (?f h) p = Inr p'" "pool_inv p'" "at p' = [h \<mapsto> ?f h ?c]"
    using modify_step [OF p(2), of h ?c "?f h"] p(3) by auto
  obtain n k where n: "emplace_anywhere h (fixed_pool 10 :: nat pool) = Inr (n, k)"
    using pl.alloc_total [of "fixed_pool 10 :: nat pool" h] by fastforce
  have "c_remote (?f h ?c) = wildcard_endpoint" "c_local (?f h ?c) = \<lparr>ep_ipaddr = 0, ep_port = 80\<rparr>"
    by (simp_all add: connection_init_def)
  moreover have "\<exists>s. tcp_listen \<lparr>ep_ipaddr = 0, ep_port = 80\<rparr> (tcp_stack_init [] 1 2 3 ()) = Inr s \<and> connections s = p'"
    using p(1) p'(1) n by (simp add: tcp_listen_def create_connection_def tcp_stack_init_def net_stack_init_def net_stack.defs)
  ultimately show ?thesis using p'(2,3) by blast
qed

theorem find_best_match_correct_witness:
  "\<exists>s h. tcp_listen \<lparr>ep_ipaddr = 0, ep_port = 80\<rparr> (tcp_stack_init [] 1 2 3 ()) = Inr s \<and> pool_inv (connections s) \<and>
     find_best_match \<lparr>ep_ipaddr = 9, ep_port = 4000\<rparr> \<lparr>ep_ipaddr = 1, ep_port = 80\<rparr> s = Inr h \<and> at (connections s) h \<noteq> None \<and>
     find_best_match \<lparr>ep_ipaddr = 9, ep_port = 4000\<rparr> \<lparr>ep_ipaddr = 1, ep_port = 81\<rparr> s = Inr END_SENTINEL"
proof -
  obtain s k c where s: "tcp_listen \<lparr>ep_ipaddr = 0, ep_port = 80\<rparr> (tcp_stack_init [] 1 2 3 ()) = Inr s"
    "pool_inv (connections s)" "at (connections s) = [k \<mapsto> c]" "c_remote c = wildcard_endpoint"
    "c_local c = \<lparr>ep_ipaddr = 0, ep_port = 80\<rparr>" using find_best_match_example by blast
  let ?r = "\<lparr>ep_ipaddr = 9, ep_port = 4000\<rparr>"
  have a: "\<exists>j d. at (connections s) j = Some d \<and> accepts (c_remote d) ?r \<and> accepts (c_local d) \<lparr>ep_ipaddr = 1, ep_port = 80\<rparr>"
    "\<not> (\<exists>j d. at (connections s) j = Some d \<and> accepts (c_remote d) ?r \<and> accepts (c_local d) \<lparr>ep_ipaddr = 1, ep_port = 81\<rparr>)"
    using s(3,4,5) by (auto simp: accepts_def wildcard_endpoint_def)
  obtain h where "find_best_match ?r \<lparr>ep_ipaddr = 1, ep_port = 80\<rparr> s = Inr h" "at (connections s) h \<noteq> None"
    using find_best_match_correct [OF s(2), of ?r "\<lparr>ep_ipaddr = 1, ep_port = 80\<rparr>"] a(1) by (simp only: if_True) blast
  moreover have "find_best_match ?r \<lparr>ep_ipaddr = 1, ep_port = 81\<rparr> s = Inr END_SENTINEL"
    using find_best_match_correct [OF s(2), of ?r "\<lparr>ep_ipaddr = 1, ep_port = 81\<rparr>"] a(2) by (simp only: if_False) blast
  ultimately show ?thesis using s(1,2) by blast
qed

subsection \<open>Sending leaves the table alone\<close>

lemma ethernet_send_more: "ethernet_send t d bs s = Inr s' \<Longrightarrow> net_stack.more s' = net_stack.more s"
  by (auto simp: ethernet_send_def Let_def)

lemma send_via_more: "ipv4_send_via pr d h bs s = Inr s' \<Longrightarrow> net_stack.more s' = net_stack.more s"
  by (auto simp: ipv4_send_via_def send_single_datagram_def Let_def dest!: ethernet_send_more split: if_splits)

lemma run_waiter_more: "run_waiter w r s = Inr s' \<Longrightarrow> net_stack.more s' = net_stack.more s"
  by (auto simp: run_waiter_def Let_def dest!: send_via_more split: waiter.splits option.splits if_splits)

lemma put_probe_more: "put_probe it pr s = Inr s' \<Longrightarrow> net_stack.more s' = net_stack.more s"
  by (auto simp: put_probe_def)

lemma probe_tick_more: "probe_tick dt pr s = Inr (pr', s', b) \<Longrightarrow> net_stack.more s' = net_stack.more s"
  by (auto simp: probe_tick_def arp_send_def Let_def dest!: ethernet_send_more split: if_splits)

lemma fetch_network_more: "fetch_network ip w s = Inr s' \<Longrightarrow> net_stack.more s' = net_stack.more s"
  by (auto simp: fetch_network_def Let_def dest!: run_waiter_more put_probe_more probe_tick_more
      split: option.splits if_splits)

lemma ipv4_send_more: "ipv4_send pr d bs s = Inr (s', b) \<Longrightarrow> net_stack.more s' = net_stack.more s"
  by (auto simp: ipv4_send_def Let_def dest!: send_via_more fetch_network_more
      split: option.splits if_splits prod.splits)

lemma more_fields:
  fixes s s' :: "'app tcp_stack"
  assumes "net_stack.more s' = net_stack.more s"
  shows "connections s' = connections s" "new_connections s' = new_connections s"
    "finished_connections s' = finished_connections s" "tcp_callback s' = tcp_callback s" "app s' = app s"
  using assms by (cases s; cases s'; simp)+

lemma conn_send_result:
  "conn_send flags seqnbr bs c s = Inr (c', s') \<Longrightarrow>
   c' = c\<lparr>next_outgoing_seqnbr := seqnbr + of_nat (length bs)\<rparr> \<and> net_stack.more s' = net_stack.more s"
  by (auto simp: conn_send_def Let_def dest!: ipv4_send_more)

subsection \<open>The state diagram\<close>

inductive conn_edge :: "conn_state \<Rightarrow> conn_state \<Rightarrow> bool" where
  opened: "conn_edge SYN_RCVD ESTABLISHED"
| remote_closed: "conn_edge ESTABLISHED LAST_ACK"
| local_closed: "conn_edge ESTABLISHED FIN_WAIT_1"
| fin_acked: "conn_edge FIN_WAIT_1 FIN_WAIT_2"
| both_closed: "conn_edge FIN_WAIT_1 CLOSING"

inductive_cases conn_edgeE: "conn_edge a b"

text \<open>A connection that may have moved along the diagram and is otherwise the same endpoint pair.\<close>

definition moved :: "connection \<Rightarrow> connection \<Rightarrow> bool" where
  "moved c c' \<longleftrightarrow> conn_edge\<^sup>*\<^sup>* (c_state c) (c_state c') \<and> c_handle c' = c_handle c \<and> c_remote c' = c_remote c \<and>
     c_local c' = c_local c \<and> has_callback c' = has_callback c"

lemma moved_refl [intro!, simp]: "moved c c"
  by (simp add: moved_def)

lemma moved_trans [trans]: "moved a b \<Longrightarrow> moved b c \<Longrightarrow> moved a c"
  by (auto simp: moved_def)

lemma moved_queues [intro!, simp]: "moved c (c\<lparr>rx_queue := q\<rparr>)" "moved c (c\<lparr>tx_queue := t\<rparr>)"
    "moved c (c\<lparr>next_outgoing_seqnbr := n\<rparr>)"
  by (simp_all add: moved_def)

lemma moved_transition [intro]:
  "conn_edge (c_state c) st \<Longrightarrow> moved c (transition st c)"
  "conn_edge (c_state c) st \<Longrightarrow> moved c (transition st (c\<lparr>rx_queue := q\<rparr>))"
  "conn_edge (c_state c) st \<Longrightarrow> moved c (transition st (c\<lparr>tx_queue := t\<rparr>))"
  by (auto simp: moved_def transition_def)

lemma conn_sequence_queue: "conn_sequence md payload c = Inr c' \<Longrightarrow> \<exists>q. c' = c\<lparr>rx_queue := q\<rparr>"
  by (auto simp: conn_sequence_def split: option.splits)

lemma transmit_queue: "transmit flags bs n c = Inr c' \<Longrightarrow> \<exists>q. c' = c\<lparr>tx_queue := q\<rparr>"
  by (auto simp: transmit_def)

lemma active_close_moved: "active_close c = Inr c' \<Longrightarrow> moved c c'"
  by (auto simp: active_close_def transmit_phantom_def moved_def transition_def local_closed
      dest!: transmit_queue split: if_splits)

lemma run_app_calls_moved: "run_app_calls calls c = Inr c' \<Longrightarrow> moved c c'"
proof (induction calls c rule: run_app_calls.induct)
  case (2 bs calls c)
  then show ?case by (auto dest!: transmit_queue intro: moved_trans [OF moved_queues(2)])
next
  case (3 calls c)
  then show ?case by (auto dest!: active_close_moved intro: moved_trans)
qed simp

subsection \<open>What a step does to the table\<close>

definition closing_states :: "conn_state set" where
  "closing_states = {LAST_ACK, CLOSING, FIN_WAIT_2}"

lemma closing_final: "a \<in> closing_states \<Longrightarrow> conn_edge\<^sup>*\<^sup>* a b \<Longrightarrow> b = a"
  by (erule converse_rtranclpE) (auto simp: closing_states_def elim: conn_edgeE)

text \<open>The pools are well formed and every connection knows its own handle.\<close>

definition table_ok :: "'app tcp_stack \<Rightarrow> bool" where
  "table_ok s \<longleftrightarrow> pool_inv (connections s) \<and> pool_inv (new_connections s) \<and> pool_inv (finished_connections s) \<and>
     (\<forall>i c. at (connections s) i = Some c \<longrightarrow> c_handle c = i)"

text \<open>
  From \<open>(c, s)\<close> to \<open>(c', s')\<close>, where the connection worked on is held apart from the
  table: the table keeps its connections, and only a connection in a closing state is put on
  the list of the finished ones.
\<close>

definition evolves :: "connection \<Rightarrow> 'app tcp_stack \<Rightarrow> connection \<Rightarrow> 'app tcp_stack \<Rightarrow> bool" where
  "evolves c s c' s' \<longleftrightarrow> moved c c' \<and>
     (table_ok s \<longrightarrow> table_ok s' \<and> at (connections s) \<subseteq>\<^sub>m at (connections s') \<and>
        ran (at (finished_connections s')) \<subseteq>
          ran (at (finished_connections s)) \<union> (if c_state c' \<in> closing_states then {c_handle c'} else {}))"

lemma evolves_trans [trans]: "evolves a s b t \<Longrightarrow> evolves b t c u \<Longrightarrow> evolves a s c u"
proof -
  assume 1: "evolves a s b t" and 2: "evolves b t c u"
  have "c_state b \<in> closing_states \<Longrightarrow> c_state c = c_state b" "c_handle c = c_handle b"
    using 2 closing_final by (auto simp: evolves_def moved_def)
  then show ?thesis
    using 1 2 unfolding evolves_def
    by (auto intro: moved_trans map_le_trans split: if_splits)
qed

lemma evolves_moved: "moved c c' \<Longrightarrow> net_stack.more s' = net_stack.more s \<Longrightarrow> evolves c s c' s'"
  using more_fields [of s' s] by (simp add: evolves_def table_ok_def)

lemma evolves_refl [simp]: "evolves c s c s"
  by (simp add: evolves_moved)

lemmas evolves_transition = moved_transition [THEN evolves_moved, OF _ refl]

lemma evolves_app: "moved c c' \<Longrightarrow> evolves c s c' (s\<lparr>app := a\<rparr>)"
  by (simp add: evolves_def table_ok_def)

lemma evolves_finish:
  assumes "finish_connection (c_handle c) s = Inr s'" "c_state c \<in> closing_states"
  shows "evolves c s c s'"
proof -
  from assms(1) obtain n k where n: "emplace_anywhere (c_handle c) (finished_connections s) = Inr (n, k)"
      "s' = s\<lparr>finished_connections := n\<rparr>"
    by (auto simp: finish_connection_def)
  have "table_ok s \<Longrightarrow> pool_inv n \<and> at n = (at (finished_connections s))(k := Some (c_handle c))"
    using pl.alloc_step [OF _ n(1)] by (auto simp: table_ok_def)
  then show ?thesis using assms(2) n(2) by (auto simp: evolves_def table_ok_def ran_def split: if_splits)
qed

lemma sequenced_recv_evolves: "sequenced_recv cb seg bs c s = Inr (c', s') \<Longrightarrow> evolves c s c' s'"
  by (auto simp: sequenced_recv_defs on_full_receive_def closing_states_def remote_closed
      intro: evolves_moved evolves_transition evolves_finish evolves_app dest!: run_app_calls_moved transmit_queue
      split: conn_state.splits if_splits prod.splits)

lemma conn_send_evolves: "conn_send flags seqnbr bs c s = Inr (c', s') \<Longrightarrow> evolves c s c' s'"
  by (auto dest!: conn_send_result intro: evolves_moved)

lemma rx_loop_evolves: "rx_loop fuel cb c s = Inr (c', s') \<Longrightarrow> evolves c s c' s'"
proof (induction fuel arbitrary: c s)
  case (Suc fuel)
  from Suc.prems consider "c' = c" "s' = s"
    | q seg bs c1 s1 where "sequenced_recv cb seg bs (c\<lparr>rx_queue := q\<rparr>) s = Inr (c1, s1)" "rx_loop fuel cb c1 s1 = Inr (c', s')"
    by (simp split: if_splits prod.splits) blast
  then show ?case
  proof cases
    case (2 q seg bs c1 s1)
    have "evolves c s (c\<lparr>rx_queue := q\<rparr>) s" by (simp add: evolves_moved)
    also have "evolves (c\<lparr>rx_queue := q\<rparr>) s c1 s1" by (rule sequenced_recv_evolves [OF 2(1)])
    also have "evolves c1 s1 c' s'" by (rule Suc.IH [OF 2(2)])
    finally show ?thesis .
  qed (simp add: evolves_moved)
qed simp

lemma tx_loop_evolves: "tx_loop fuel c s = Inr (c', s') \<Longrightarrow> evolves c s c' s'"
proof (induction fuel arbitrary: c s)
  case (Suc fuel)
  from Suc.prems consider "c' = c" "s' = s"
    | q fl n bs c1 s1 where "conn_send fl n bs (c\<lparr>tx_queue := q\<rparr>) s = Inr (c1, s1)" "tx_loop fuel c1 s1 = Inr (c', s')"
    by (simp split: if_splits prod.splits option.splits) blast
  then show ?case
  proof cases
    case (2 q fl n bs c1 s1)
    have "evolves c s (c\<lparr>tx_queue := q\<rparr>) s" by (simp add: evolves_moved)
    also have "evolves (c\<lparr>tx_queue := q\<rparr>) s c1 s1" by (rule conn_send_evolves [OF 2(1)])
    also have "evolves c1 s1 c' s'" by (rule Suc.IH [OF 2(2)])
    finally show ?thesis .
  qed (simp add: evolves_moved)
qed simp

lemma conn_step_evolves: "conn_step cb c s = Inr (c', s') \<Longrightarrow> evolves c s c' s'"
  unfolding conn_step_def
  by (auto simp del: rx_loop.simps tx_loop.simps split: if_splits
      dest!: rx_loop_evolves tx_loop_evolves conn_send_evolves intro: evolves_trans)

lemma create_connection_table:
  assumes "create_connection remote local st s = Inr (s', h)" "table_ok s"
  shows "table_ok s' \<and> at (connections s) h = None \<and> finished_connections s' = finished_connections s \<and>
    at (connections s') = (at (connections s))(h \<mapsto>
      (connection_init remote local st)\<lparr>c_handle := h, has_callback := tcp_callback s\<rparr>)"
proof -
  let ?c = "connection_init remote local st"
  let ?f = "\<lambda>c. c\<lparr>c_handle := h, has_callback := tcp_callback s\<rparr>"
  from assms(1) obtain p p' n k where p: "emplace_anywhere ?c (connections s) = Inr (p, h)"
      "modify h ?f p = Inr p'" "emplace_anywhere h (new_connections s) = Inr (n, k)"
      "s' = s\<lparr>connections := p', new_connections := n\<rparr>"
    unfolding create_connection_def by auto
  note a = pl.alloc_step [OF _ p(1)] and b = pl.alloc_step [OF _ p(3)]
  have "pool_inv p' \<and> at p' = (at p)(h := Some (?f ?c))"
    using modify_step [of p h ?c ?f] a p(2) assms(2) by (auto simp: table_ok_def)
  then show ?thesis using a b p(4) assms(2) by (auto simp: table_ok_def)
qed

lemma modify_result:
  "pool_inv p \<Longrightarrow> modify i f p = Inr p' \<Longrightarrow>
   \<exists>x. at p i = Some x \<and> pool_inv p' \<and> capacity p' = capacity p \<and> at p' = (at p)(i := Some (f x))"
  using modify_step [of p i _ f] valid_at [of p i] by (cases "at p i") (auto simp: modify_def)

lemma listen_recv_evolves: "listen_recv md s = Inr s' \<Longrightarrow> evolves c s c s'"
proof (cases "has_flag SYN (sm_flags md)")
  case True
  assume "listen_recv md s = Inr s'"
  then obtain s1 idx d d1 p where r: "create_connection \<lparr>ep_ipaddr = sm_src_addr md, ep_port = sm_src_port md\<rparr>
        \<lparr>ep_ipaddr = sm_dest_addr md, ep_port = sm_dest_port md\<rparr> SYN_RCVD s = Inr (s1, idx)"
      "get (connections s1) idx = Inr d"
      "conn_sequence md (Some phantom) (reset_tx 0xDEADBEEF (reset_rx (sm_seq_nbr md) d)) = Inr d1"
      "modify idx (\<lambda>_. d1) (connections s1) = Inr p" "s' = s1\<lparr>connections := p\<rparr>"
    using True by (simp add: listen_recv_def split: prod.splits) blast
  have "table_ok s' \<and> at (connections s) \<subseteq>\<^sub>m at (connections s') \<and> finished_connections s' = finished_connections s"
    if "table_ok s"
  proof -
    note t = create_connection_table [OF r(1) that]
    then have "c_handle d = idx" using r(2) get_at [of "connections s1" idx] by (auto simp: table_ok_def)
    then have h: "c_handle d1 = idx" using conn_sequence_queue [OF r(3)] by (auto simp: reset_tx_def reset_rx_def)
    have p: "pool_inv p" "at p = (at (connections s1))(idx \<mapsto> d1)"
      using t modify_result [OF _ r(4)] by (auto simp: table_ok_def)
    have "at (connections s) \<subseteq>\<^sub>m at p"
      unfolding p(2) map_le_def using t by (metis domIff fun_upd_apply)
    moreover have "table_ok s'" using conjunct1 [OF t] h p by (simp add: table_ok_def r(5))
    ultimately show ?thesis using t r(5) by simp
  qed
  then show ?thesis by (simp add: evolves_def)
qed (simp add: listen_recv_def evolves_moved)

lemma early_recv_evolves: "early_recv md payload c s = Inr (c', s') \<Longrightarrow> evolves c s c' s'"
  by (auto simp: early_recv_defs listen_recv_evolves opened both_closed
      intro: evolves_moved evolves_transition dest!: conn_sequence_queue split: conn_state.splits if_splits)

lemma remote_consumed_evolves: "remote_consumed_all c s = Inr (c', s') \<Longrightarrow> evolves c s c' s'"
  by (auto simp: remote_consumed_defs closing_states_def fin_acked
      intro: evolves_moved evolves_transition evolves_finish split: conn_state.splits)

lemma conn_on_receive_evolves:
  assumes "conn_on_receive cb md payload c s = Inr (c', s')"
  shows "evolves c s c' s'"
proof -
  have acked: "evolves c1 s1 c3 s3"
    if "(if has_flag ACK (sm_flags md)
            then bindR (sq_ack (sm_ack_nbr md) (tx_queue c1)) (\<lambda>q.
                 let c2 = c1\<lparr>tx_queue := q\<rparr>
                 in if sq_write_pos q \<le> sm_ack_nbr md then remote_consumed_all c2 s1 else Inr (c2, s1))
            else Inr (c1, s1)) = Inr (c3, s3)" for c1 s1 c3 s3
    using that
    by (auto simp: Let_def evolves_moved dest!: remote_consumed_evolves split: if_splits
        intro: evolves_trans [OF evolves_moved [OF moved_queues(2) refl]])
  from assms show ?thesis
    unfolding conn_on_receive_def
    by (auto simp del: bindR_Inr dest!: early_recv_evolves acked conn_step_evolves intro: evolves_trans)
qed

subsection \<open>The table as a whole\<close>

definition table_inv :: "'app tcp_stack \<Rightarrow> bool" where
  "table_inv s \<longleftrightarrow> table_ok s \<and>
     (\<forall>h \<in> ran (at (finished_connections s)). \<exists>c. at (connections s) h = Some c \<and> c_state c \<in> closing_states)"

definition conns_move :: "'app tcp_stack \<Rightarrow> 'app tcp_stack \<Rightarrow> bool" where
  "conns_move s s' \<longleftrightarrow>
     (\<forall>i c. at (connections s) i = Some c \<longrightarrow> (\<exists>c'. at (connections s') i = Some c' \<and> moved c c'))"

lemma conns_move_refl [simp]: "conns_move s s"
  by (auto simp: conns_move_def)

lemma conns_move_trans [trans]: "conns_move s t \<Longrightarrow> conns_move t u \<Longrightarrow> conns_move s u"
  unfolding conns_move_def by (meson moved_trans)

lemma with_conn_keeps:
  assumes f: "\<And>c s c' s'. f c s = Inr (c', s') \<Longrightarrow> evolves c s c' s'"
    and w: "with_conn h f s = Inr s'" and inv: "table_inv s"
  shows "table_inv s' \<and> conns_move s s'"
proof -
  have pi: "pool_inv (connections s)" using inv by (simp add: table_inv_def table_ok_def)
  from w obtain c c1 s1 p where r: "get (connections s) h = Inr c" "f c s = Inr (c1, s1)"
      "modify h (\<lambda>_. c1) (connections s1) = Inr p" "s' = s1\<lparr>connections := p\<rparr>"
    by (simp add: with_conn_def split: prod.splits) blast
  have c: "at (connections s) h = Some c" using r(1) get_at [OF pi, of h] by (simp split: option.splits)
  have e: "moved c c1" "table_ok s1" "at (connections s) \<subseteq>\<^sub>m at (connections s1)"
      "ran (at (finished_connections s1)) \<subseteq>
         ran (at (finished_connections s)) \<union> (if c_state c1 \<in> closing_states then {c_handle c1} else {})"
    using f [OF r(2)] inv by (auto simp: evolves_def table_inv_def)
  have h: "c_handle c1 = h" using e(1) c inv by (simp add: moved_def table_inv_def table_ok_def)
  have p: "pool_inv p" "at p = (at (connections s1))(h \<mapsto> c1)"
    using modify_result [OF _ r(3)] e(2) by (auto simp: table_ok_def)
  have old: "\<exists>d'. at p i = Some d' \<and> moved d d'" if "at (connections s) i = Some d" for i d
  proof (cases "i = h")
    case False
    moreover have "at (connections s1) i = Some d" using e(3) that by (metis domI map_le_def)
    ultimately show ?thesis by (simp add: p(2))
  qed (use that c e(1) p(2) in simp)
  have "\<exists>d. at p k = Some d \<and> c_state d \<in> closing_states" if "k \<in> ran (at (finished_connections s1))" for k
  proof (cases "k \<in> ran (at (finished_connections s))")
    case True
    then obtain d where d: "at (connections s) k = Some d" "c_state d \<in> closing_states"
      using inv by (auto simp: table_inv_def)
    then show ?thesis using old [OF d(1)] closing_final [OF d(2)] by (metis moved_def)
  next
    case False
    then have "k = h" "c_state c1 \<in> closing_states" using e(4) that h by (auto split: if_splits)
    then show ?thesis by (simp add: p(2))
  qed
  moreover have "table_ok s'" using e(2) p h by (simp add: table_ok_def r(4))
  ultimately show ?thesis using old by (simp add: table_inv_def conns_move_def r(4))
qed

lemma step_among_keeps:
  "step_among cb p its s = Inr s' \<Longrightarrow> table_inv s \<Longrightarrow> table_inv s' \<and> conns_move s s'"
proof (induction its arbitrary: s)
  case (Cons it its)
  from Cons.prems(1) obtain h s1 where
      "(if valid h (connections s) then with_conn h (conn_step cb) s else Inr s) = Inr s1"
      "step_among cb p its s1 = Inr s'"
    by auto
  then show ?case
    using Cons.IH [of s1] Cons.prems(2) with_conn_keeps [of "conn_step cb" h s s1, OF conn_step_evolves [of cb]]
    by (auto split: if_splits intro: conns_move_trans)
qed simp

lemma destroy_among_keeps:
  "destroy_among p its s = Inr s' \<Longrightarrow> table_ok s \<Longrightarrow> pool_inv p \<Longrightarrow>
   table_ok s' \<and> finished_connections s' = finished_connections s \<and>
   (\<forall>i c. at (connections s) i = Some c \<longrightarrow> i \<notin> ran (at p) \<longrightarrow> at (connections s') i = Some c) \<and>
   (\<forall>i. at (connections s') i = None \<or> at (connections s') i = at (connections s) i)"
proof (induction its arbitrary: s)
  case (Cons it its)
  from Cons.prems(1) obtain h where h: "get p it = Inr h" by auto
  have hp: "h \<in> ran (at p)" using h get_at [OF Cons.prems(3), of it] by (auto simp: ran_def split: option.splits)
  show ?case
  proof (cases "valid h (connections s)")
    case True
    with Cons.prems(1) h obtain cs where cs: "erase h (connections s) = Inr cs"
        "destroy_among p its (s\<lparr>connections := cs\<rparr>) = Inr s'" by auto
    have e: "pool_inv cs" "at cs = (at (connections s))(h := None)"
      using erase_step [OF _ cs(1)] Cons.prems(2) by (auto simp: table_ok_def)
    have ok: "table_ok (s\<lparr>connections := cs\<rparr>)" using Cons.prems(2) e by (simp add: table_ok_def)
    from Cons.IH [OF cs(2) ok Cons.prems(3)] show ?thesis
      using hp by (auto simp: e(2)) (metis (no_types, lifting) fun_upd_apply)+
  qed (use Cons.prems h in auto)
qed simp

lemma step_new_keeps:
  "step_new_connections cb s = Inr s' \<Longrightarrow> table_inv s \<Longrightarrow> table_inv s' \<and> conns_move s s'"
proof -
  assume a: "step_new_connections cb s = Inr s'" "table_inv s"
  then obtain s1 where s1: "step_among cb (new_connections s) (iter_from (new_connections s) (pool_begin (new_connections s))) s = Inr s1"
      "s' = s1\<lparr>new_connections := clear (new_connections s1)\<rparr>"
    by (auto simp: step_new_connections_def Let_def)
  have "table_inv s1 \<and> conns_move s s1" by (rule step_among_keeps [OF s1(1) a(2)])
  then show ?thesis unfolding s1(2) by (simp add: table_inv_def table_ok_def conns_move_def pool_inv_clear)
qed

text \<open>What one received packet does to the connections there were before it.\<close>

definition conns_follow :: "'app tcp_stack \<Rightarrow> 'app tcp_stack \<Rightarrow> bool" where
  "conns_follow s s' \<longleftrightarrow> (\<forall>i c. at (connections s) i = Some c \<longrightarrow>
     (\<exists>c'. moved c c' \<and> (at (connections s') i = Some c' \<or> at (connections s') i = None \<and> c_state c' \<in> closing_states)))"

lemma destroy_finished_keeps:
  assumes "destroy_finished_connections s = Inr s'" "table_inv s"
  shows "table_inv s' \<and> conns_follow s s'"
proof -
  let ?p = "finished_connections s"
  from assms(1) obtain s1 where s1: "destroy_among ?p (iter_from ?p (pool_begin ?p)) s = Inr s1"
      "s' = s1\<lparr>finished_connections := clear (finished_connections s1)\<rparr>"
    by (auto simp: destroy_finished_connections_def Let_def)
  have ok: "table_ok s" "pool_inv ?p" using assms(2) by (auto simp: table_inv_def table_ok_def)
  note d = destroy_among_keeps [OF s1(1) ok]
  have "table_inv s'"
    using d ok(2) unfolding s1(2) by (simp add: table_inv_def table_ok_def pool_inv_clear)
  moreover have "\<exists>c'. moved c c' \<and> (at (connections s') i = Some c' \<or> at (connections s') i = None \<and> c_state c' \<in> closing_states)"
    if "at (connections s) i = Some c" for i c
  proof (cases "i \<in> ran (at ?p)")
    case True
    then have "c_state c \<in> closing_states" using assms(2) that by (auto simp: table_inv_def)
    moreover have "at (connections s1) i = None \<or> at (connections s1) i = Some c" using d that by metis
    ultimately show ?thesis by (intro exI [of _ c]) (auto simp: s1(2))
  qed (use d that s1(2) in auto)
  ultimately show ?thesis by (simp add: conns_follow_def)
qed

lemma tcp_on_receive_keeps:
  assumes r: "tcp_on_receive cb src dest bs s = Inr s'" and inv: "table_inv s"
  shows "table_inv s' \<and> conns_follow s s'"
proof -
  from r consider "s' = s" | md payload h s1 s2 where
      "with_conn h (conn_on_receive cb md payload) s = Inr s1" "step_new_connections cb s1 = Inr s2"
      "destroy_finished_connections s2 = Inr s'"
    by (simp add: tcp_on_receive_def Let_def split: if_splits) blast+
  then show ?thesis
  proof cases
    case 1
    then show ?thesis using inv by (auto simp: conns_follow_def)
  next
    case (2 md payload h s1 s2)
    note a = with_conn_keeps [of "conn_on_receive cb md payload" h s s1, OF conn_on_receive_evolves [of cb md payload] 2(1) inv]
    note b = step_new_keeps [OF 2(2)]
    have i2: "table_inv s2" "conns_move s s2" using a b by (auto intro: conns_move_trans)
    have d: "table_inv s'" "conns_follow s2 s'" using destroy_finished_keeps [OF 2(3) i2(1)] by auto
    have "conns_follow s s'" using i2(2) d(2) unfolding conns_follow_def conns_move_def by (meson moved_trans)
    then show ?thesis using d(1) by simp
  qed
qed

text \<open>
  The states a running stack can be in: from the freshly constructed protocol, any sequence of
  \<open>listen\<close>, \<open>set_callback\<close>, received segments, and steps of the other protocols, which
  leave the TCP state as it is.
\<close>

inductive tcp_reachable :: "'app callback \<Rightarrow> 'app tcp_stack \<Rightarrow> bool" for cb where
  start: "tcp_reachable cb (tcp_stack_init hw local netmask gateway a)"
| listens: "tcp_reachable cb s \<Longrightarrow> tcp_listen local s = Inr s' \<Longrightarrow> tcp_reachable cb s'"
| sets_callback: "tcp_reachable cb s \<Longrightarrow> tcp_reachable cb (tcp_set_callback s)"
| receives: "tcp_reachable cb s \<Longrightarrow> tcp_on_receive cb src dest bs s = Inr s' \<Longrightarrow> tcp_reachable cb s'"
| others: "tcp_reachable cb s \<Longrightarrow> net_stack.more s' = net_stack.more s \<Longrightarrow> tcp_reachable cb s'"

lemma table_inv_init: "table_inv (tcp_stack_init hw local netmask gateway a)"
  by (auto simp: table_inv_def table_ok_def tcp_stack_init_def net_stack.defs)

lemma tcp_listen_keeps:
  assumes "tcp_listen local s = Inr s'" "table_inv s"
  shows "table_inv s'"
proof -
  from assms(1) obtain h where h: "create_connection wildcard_endpoint local LISTEN s = Inr (s', h)"
    by (auto simp: tcp_listen_def)
  from assms(2) have "table_ok s" by (simp add: table_inv_def)
  note t = create_connection_table [OF h this]
  show ?thesis unfolding table_inv_def
    by (intro conjI ballI; (use t in simp); use t assms(2) in \<open>force simp: table_inv_def\<close>)
qed

lemma table_inv_more:
  "net_stack.more s' = net_stack.more s \<Longrightarrow> table_inv s' = table_inv s"
  using more_fields [of s' s] by (simp add: table_inv_def table_ok_def)

lemma reachable_table_inv: "tcp_reachable cb s \<Longrightarrow> table_inv s"
proof (induction rule: tcp_reachable.induct)
  case (sets_callback s)
  then show ?case by (simp add: tcp_set_callback_def table_inv_def table_ok_def)
next
  case (listens s local s')
  then show ?case by (meson tcp_listen_keeps)
next
  case (receives s src dest bs s')
  then show ?case by (meson tcp_on_receive_keeps)
next
  case (others s s')
  then show ?case using table_inv_more [OF others.hyps(2)] by simp
qed (rule table_inv_init)



end
