(* ===== verification/VFS.thy ===== *)
theory VFS
  imports Pool P2_String
begin

text \<open>
  The virtual filesystem of \<open>kernel/filesystem.cc\<close>: the tree of nodes and directory entries,
  mounted drivers, open files shared by reference counting, and the descriptor contexts of the
  processes. A \<open>const char *\<close> is the list of the characters before its NUL. A directory
  entry stores its name in a \<open>p2::string<32>\<close>, represented by its text, of at most 31
  characters.

  A device driver is a structure of function pointers, some of them null, and keeps its own
  state: the type \<open>'d\<close>. The filesystem's own driver, which lists directories, works on the
  state of the filesystem; it is the driver \<open>LocalDriver\<close>. Pointers to devices are indexes
  into the pool of devices, which never shrinks.
\<close>

unbundle bit_operations_syntax

subsection \<open>Constants and data\<close>

definition VFS_DIRECTORY :: byte where "VFS_DIRECTORY = 0x01"
definition VFS_DRIVER :: byte where "VFS_DRIVER = 0x02"
definition VFS_CHAR_DEVICE :: byte where "VFS_CHAR_DEVICE = 0x10 OR VFS_DRIVER"
definition VFS_FILESYSTEM :: byte where "VFS_FILESYSTEM = 0x20 OR VFS_DRIVER OR VFS_DIRECTORY"

definition ENOSUPPORT :: int where "ENOSUPPORT = -100"
definition ENOENT :: int where "ENOENT = -200"
definition ENODIR :: int where "ENODIR = -201"
definition ENODRIVER :: int where "ENODRIVER = -202"
definition ENOSPACE :: int where "ENOSPACE = -203"
definition EINCONSTATE :: int where "EINCONSTATE = -204"

record vfs_node =
  node_type :: byte
  info_node :: nat

record vfs_dirent =
  dirent_name :: string
  dirent_node :: nat
  next_dirent :: nat

record 'd driver_ops =
  op_write :: "(int \<Rightarrow> byte list \<Rightarrow> int \<Rightarrow> 'd \<Rightarrow> (int \<times> 'd) res) option"
  op_read :: "(int \<Rightarrow> int \<Rightarrow> 'd \<Rightarrow> (int \<times> byte list \<times> 'd) res) option"
  op_open :: "(nat \<Rightarrow> string \<Rightarrow> 32 word \<Rightarrow> 'd \<Rightarrow> (int \<times> 'd) res) option"
  op_close :: "(int \<Rightarrow> 'd \<Rightarrow> (int \<times> 'd) res) option"
  op_control :: "(int \<Rightarrow> 32 word \<Rightarrow> 32 word \<Rightarrow> 32 word \<Rightarrow> 'd \<Rightarrow> (int \<times> 'd) res) option"
  op_seek :: "(int \<Rightarrow> int \<Rightarrow> int \<Rightarrow> 'd \<Rightarrow> (int \<times> 'd) res) option"
  op_tell :: "(int \<Rightarrow> 'd \<Rightarrow> (int \<times> int \<times> 'd) res) option"
  op_mkdir :: "(string \<Rightarrow> 'd \<Rightarrow> (int \<times> 'd) res) option"

datatype 'd driver = LocalDriver | DeviceDriver "'d driver_ops"

record 'd vfs_device =
  dev_driver :: "'d driver option"
  dev_opaque :: nat

record opened_file =
  of_device :: nat
  of_local_handle :: int
  of_flags :: "32 word"
  of_ref_count :: int

record locally_opened_file =
  lf_node :: nat
  lf_position :: int

record fd_context =
  descriptors :: "nat pool"

record 'd vfs =
  nodes :: "vfs_node pool"
  directories :: "vfs_dirent pool"
  drivers :: "'d vfs_device pool"
  root_dir :: nat
  contexts :: "fd_context pool"
  opened_files :: "opened_file pool"
  locally_opened_files :: "locally_opened_file pool"
  local_driver_handle :: nat
  devstate :: 'd

subsection \<open>Nodes, entries and drivers\<close>

definition vfs_create_node :: "byte \<Rightarrow> 'd vfs \<Rightarrow> (nat \<times> 'd vfs) res" where
  "vfs_create_node ty s =
     bindR (emplace_anywhere \<lparr>node_type = ty, info_node = END_SENTINEL\<rparr> (nodes s)) (\<lambda>(p, h).
     Inr (h, s\<lparr>nodes := p\<rparr>))"

definition vfs_add_dirent :: "nat \<Rightarrow> string \<Rightarrow> nat \<Rightarrow> 'd vfs \<Rightarrow> 'd vfs res" where
  "vfs_add_dirent dir_node name node s =
     bindR (get (nodes s) dir_node) (\<lambda>parent.
     assertR (node_type parent = VFS_DIRECTORY)
      (bindR (emplace_anywhere
               \<lparr>dirent_name = take 31 name, dirent_node = node, next_dirent = info_node parent\<rparr>
               (directories s)) (\<lambda>(ds, i).
       bindR (modify dir_node (\<lambda>n. n\<lparr>info_node := i\<rparr>) (nodes s)) (\<lambda>ns.
       Inr (s\<lparr>directories := ds, nodes := ns\<rparr>)))))"

definition vfs_set_driver :: "nat \<Rightarrow> 'd driver option \<Rightarrow> nat \<Rightarrow> 'd vfs \<Rightarrow> 'd vfs res" where
  "vfs_set_driver driver_node driver opaque s =
     bindR (get (nodes s) driver_node) (\<lambda>node.
     assertR (node_type node AND VFS_DRIVER \<noteq> 0)
      (bindR (emplace_anywhere \<lparr>dev_driver = driver, dev_opaque = opaque\<rparr> (drivers s)) (\<lambda>(ds, i).
       bindR (modify driver_node (\<lambda>n. n\<lparr>info_node := i\<rparr>) (nodes s)) (\<lambda>ns.
       Inr (s\<lparr>drivers := ds, nodes := ns\<rparr>)))))"

definition vfs_empty :: "'d \<Rightarrow> 'd vfs" where
  "vfs_empty d =
     \<lparr>nodes = fixed_pool 256, directories = fixed_pool 256, drivers = fixed_pool 64, root_dir = 0,
      contexts = fixed_pool 64, opened_files = fixed_pool 64, locally_opened_files = fixed_pool 64,
      local_driver_handle = 0, devstate = d\<rparr>"

definition vfs_init :: "'d vfs \<Rightarrow> 'd vfs res" where
  "vfs_init s =
     bindR (vfs_create_node VFS_DIRECTORY s) (\<lambda>(r, s1).
     let s2 = s1\<lparr>root_dir := r\<rparr> in
     bindR (vfs_create_node VFS_FILESYSTEM s2) (\<lambda>(h, s3).
     vfs_set_driver h (Some LocalDriver) 0 (s3\<lparr>local_driver_handle := h\<rparr>)))"

subsection \<open>Looking up paths\<close>

text \<open>
  The loop over the entries of a directory follows \<open>next_dirent\<close>; the fuel is one more than
  the number of entries the pool can hold.
\<close>

fun dirent_loop :: "nat \<Rightarrow> vfs_dirent pool \<Rightarrow> nat \<Rightarrow> string \<Rightarrow> vfs_dirent option res" where
  "dirent_loop 0 p i name = Inl Diverges"
| "dirent_loop (Suc fuel) p i name =
     (if i = END_SENTINEL then Inr None
      else bindR (get p i) (\<lambda>d.
           if name = dirent_name d then Inr (Some d) else dirent_loop fuel p (next_dirent d) name))"

definition find_dirent :: "'d vfs \<Rightarrow> nat \<Rightarrow> string \<Rightarrow> vfs_dirent option res" where
  "find_dirent s dir_node name =
     bindR (get (nodes s) dir_node) (\<lambda>node.
     assertR (node_type node = VFS_DIRECTORY)
      (dirent_loop (Suc (capacity (directories s))) (directories s) (info_node node) name))"

text \<open>The first segment of a path that starts with a slash, cut to 31 characters, and the rest.\<close>

definition first_segment :: "string \<Rightarrow> string" where
  "first_segment path = take 31 (takeWhile (\<lambda>c. c \<noteq> CHR ''/'') (tl path))"

definition next_segment :: "string \<Rightarrow> string" where
  "next_segment path = dropWhile (\<lambda>c. c \<noteq> CHR ''/'') (tl path)"

lemma next_segment_shorter: "path \<noteq> [] \<Longrightarrow> length (next_segment path) < length path"
  using length_dropWhile_le [of "\<lambda>c. c \<noteq> CHR ''/''" "tl path"]
  by (cases path) (auto simp: next_segment_def)

function vfs_lookup_aux :: "'d vfs \<Rightarrow> nat \<Rightarrow> string \<Rightarrow> nat res" where
  "vfs_lookup_aux s parent path =
     (if path = [] \<or> path = ''/'' then Inr parent
      else if hd path \<noteq> CHR ''/'' then Inr END_SENTINEL
      else bindR (find_dirent s parent (first_segment path)) (\<lambda>d.
           case d of
             Some e \<Rightarrow> vfs_lookup_aux s (dirent_node e) (next_segment path)
           | None \<Rightarrow> Inr END_SENTINEL))"
  by pat_completeness auto
termination vfs_lookup_aux
  by (relation "measure (\<lambda>(s, parent, path). length path)") (auto simp: next_segment_shorter)

declare vfs_lookup_aux.simps [simp del]

definition vfs_lookup :: "string \<Rightarrow> 'd vfs \<Rightarrow> nat res" where
  "vfs_lookup path s = vfs_lookup_aux s (root_dir s) path"

function find_first_driver_aux :: "'d vfs \<Rightarrow> nat \<Rightarrow> string \<Rightarrow> (nat \<times> string) option res" where
  "find_first_driver_aux s parent path =
     bindR (get (nodes s) parent) (\<lambda>node.
     if node_type node AND VFS_DRIVER \<noteq> 0 then Inr (Some (parent, path))
     else if path = [] \<or> path = ''/'' \<or> hd path \<noteq> CHR ''/'' then Inr None
     else bindR (find_dirent s parent (first_segment path)) (\<lambda>d.
          case d of
            Some e \<Rightarrow> find_first_driver_aux s (dirent_node e) (next_segment path)
          | None \<Rightarrow> Inr None))"
  by pat_completeness auto
termination find_first_driver_aux
  by (relation "measure (\<lambda>(s, parent, path). length path)") (auto simp: next_segment_shorter)

declare find_first_driver_aux.simps [simp del]

definition find_first_driver :: "'d vfs \<Rightarrow> nat \<Rightarrow> string \<Rightarrow> (nat \<times> string) res" where
  "find_first_driver s parent path =
     bindR (find_first_driver_aux s parent path) (\<lambda>r.
     case r of Some x \<Rightarrow> Inr x | None \<Rightarrow> Inr (local_driver_handle s, path))"

subsection \<open>The filesystem's own driver\<close>

definition handle16 :: "int \<Rightarrow> nat" where
  "handle16 h = nat (h mod 65536)"

definition DIRENT_SIZE :: nat where
  "DIRENT_SIZE = 64"

text \<open>
  The block an entry is copied into is not initialised: after the name and its NUL it holds
  whatever the stack held, here \<open>junk\<close>, which gives a byte for each entry and offset.
\<close>

definition dirent_block :: "(nat \<Rightarrow> nat \<Rightarrow> byte) \<Rightarrow> nat \<Rightarrow> vfs_dirent \<Rightarrow> byte list" where
  "dirent_block junk i d =
     map (\<lambda>k. if k < length (dirent_name d) then of_char (dirent_name d ! k)
              else if k = length (dirent_name d) then 0 else junk i k) [0..<DIRENT_SIZE]"

text \<open>
  The loop of \<open>read_locally\<close>, with the state of its variables: the entry, the offset of its
  block in the listing, the file position, the length left and the bytes copied so far.
\<close>

fun read_locally_loop ::
  "nat \<Rightarrow> (nat \<Rightarrow> nat \<Rightarrow> byte) \<Rightarrow> vfs_dirent pool \<Rightarrow> nat \<Rightarrow> int \<Rightarrow> int \<Rightarrow> int \<Rightarrow> byte list \<Rightarrow> (int \<times> byte list) res" where
  "read_locally_loop 0 junk p i byte_offset position len acc = Inl Diverges"
| "read_locally_loop (Suc fuel) junk p i byte_offset position len acc =
     (if i \<noteq> END_SENTINEL \<and> 0 < len
      then bindR (get p i) (\<lambda>d.
           if byte_offset \<le> position \<and> position < byte_offset + int DIRENT_SIZE
           then let block_offset = cmod position (int DIRENT_SIZE);
                    copy_length = min (int DIRENT_SIZE - block_offset) len;
                    copied = take (nat copy_length) (drop (nat block_offset) (dirent_block junk i d))
                in read_locally_loop fuel junk p (next_dirent d) (byte_offset + int DIRENT_SIZE)
                     (position + copy_length) (len - copy_length) (acc @ copied)
           else read_locally_loop fuel junk p (next_dirent d) (byte_offset + int DIRENT_SIZE) position len acc)
      else Inr (position, acc))"

definition read_locally ::
  "(nat \<Rightarrow> nat \<Rightarrow> byte) \<Rightarrow> int \<Rightarrow> int \<Rightarrow> 'd vfs \<Rightarrow> (int \<times> byte list \<times> 'd vfs) res" where
  "read_locally junk handle len s =
     bindR (get (locally_opened_files s) (handle16 handle)) (\<lambda>f.
     bindR (get (nodes s) (lf_node f)) (\<lambda>node.
     assertR (node_type node AND VFS_DIRECTORY \<noteq> 0)
      (if info_node node = END_SENTINEL then Inr (0, [], s)
       else bindR (read_locally_loop (Suc (capacity (directories s))) junk (directories s) (info_node node) 0
                    (lf_position f) len []) (\<lambda>(position, data).
            bindR (modify (handle16 handle) (\<lambda>f. f\<lparr>lf_position := position\<rparr>) (locally_opened_files s)) (\<lambda>p.
            Inr (int (length data), data, s\<lparr>locally_opened_files := p\<rparr>))))))"

definition open_locally :: "string \<Rightarrow> 'd vfs \<Rightarrow> (int \<times> 'd vfs) res" where
  "open_locally path s =
     bindR (vfs_lookup path s) (\<lambda>dir_handle.
     if dir_handle = END_SENTINEL then Inr (ENOENT, s)
     else bindR (emplace_anywhere \<lparr>lf_node = dir_handle, lf_position = 0\<rparr> (locally_opened_files s)) (\<lambda>(p, h).
          Inr (int h, s\<lparr>locally_opened_files := p\<rparr>)))"

definition close_locally :: "int \<Rightarrow> 'd vfs \<Rightarrow> (int \<times> 'd vfs) res" where
  "close_locally handle s =
     bindR (erase (handle16 handle) (locally_opened_files s)) (\<lambda>p. Inr (0, s\<lparr>locally_opened_files := p\<rparr>))"

subsection \<open>Calling a driver\<close>

text \<open>A null function pointer is \<open>None\<close>; a call runs on the driver's part of the state.\<close>

definition on_devstate :: "('d \<Rightarrow> (int \<times> 'd) res) \<Rightarrow> 'd vfs \<Rightarrow> (int \<times> 'd vfs) res" where
  "on_devstate f s = bindR (f (devstate s)) (\<lambda>(r, d). Inr (r, s\<lparr>devstate := d\<rparr>))"

definition driver_write :: "'d driver \<Rightarrow> (int \<Rightarrow> byte list \<Rightarrow> int \<Rightarrow> 'd vfs \<Rightarrow> (int \<times> 'd vfs) res) option" where
  "driver_write drv = (case drv of
      LocalDriver \<Rightarrow> None
    | DeviceDriver ops \<Rightarrow> map_option (\<lambda>f h data len. on_devstate (f h data len)) (op_write ops))"

definition driver_read ::
  "(nat \<Rightarrow> nat \<Rightarrow> byte) \<Rightarrow> 'd driver \<Rightarrow> (int \<Rightarrow> int \<Rightarrow> 'd vfs \<Rightarrow> (int \<times> byte list \<times> 'd vfs) res) option" where
  "driver_read junk drv = (case drv of
      LocalDriver \<Rightarrow> Some (read_locally junk)
    | DeviceDriver ops \<Rightarrow> map_option (\<lambda>f h len s.
        bindR (f h len (devstate s)) (\<lambda>(r, data, d). Inr (r, data, s\<lparr>devstate := d\<rparr>))) (op_read ops))"

definition driver_open :: "'d driver \<Rightarrow> (nat \<Rightarrow> string \<Rightarrow> 32 word \<Rightarrow> 'd vfs \<Rightarrow> (int \<times> 'd vfs) res) option" where
  "driver_open drv = (case drv of
      LocalDriver \<Rightarrow> Some (\<lambda>opaque path flags. open_locally path)
    | DeviceDriver ops \<Rightarrow> map_option (\<lambda>f opaque path flags. on_devstate (f opaque path flags)) (op_open ops))"

definition driver_close :: "'d driver \<Rightarrow> (int \<Rightarrow> 'd vfs \<Rightarrow> (int \<times> 'd vfs) res) option" where
  "driver_close drv = (case drv of
      LocalDriver \<Rightarrow> Some close_locally
    | DeviceDriver ops \<Rightarrow> map_option (\<lambda>f h. on_devstate (f h)) (op_close ops))"

definition driver_control ::
  "'d driver \<Rightarrow> (int \<Rightarrow> 32 word \<Rightarrow> 32 word \<Rightarrow> 32 word \<Rightarrow> 'd vfs \<Rightarrow> (int \<times> 'd vfs) res) option" where
  "driver_control drv = (case drv of
      LocalDriver \<Rightarrow> None
    | DeviceDriver ops \<Rightarrow> map_option (\<lambda>f h fn p1 p2. on_devstate (f h fn p1 p2)) (op_control ops))"

definition driver_seek :: "'d driver \<Rightarrow> (int \<Rightarrow> int \<Rightarrow> int \<Rightarrow> 'd vfs \<Rightarrow> (int \<times> 'd vfs) res) option" where
  "driver_seek drv = (case drv of
      LocalDriver \<Rightarrow> None
    | DeviceDriver ops \<Rightarrow> map_option (\<lambda>f h offset relative. on_devstate (f h offset relative)) (op_seek ops))"

definition driver_tell :: "'d driver \<Rightarrow> (int \<Rightarrow> 'd vfs \<Rightarrow> (int \<times> int \<times> 'd vfs) res) option" where
  "driver_tell drv = (case drv of
      LocalDriver \<Rightarrow> None
    | DeviceDriver ops \<Rightarrow> map_option (\<lambda>f h s.
        bindR (f h (devstate s)) (\<lambda>(r, position, d). Inr (r, position, s\<lparr>devstate := d\<rparr>))) (op_tell ops))"

definition driver_mkdir :: "'d driver \<Rightarrow> (string \<Rightarrow> 'd vfs \<Rightarrow> (int \<times> 'd vfs) res) option" where
  "driver_mkdir drv = (case drv of
      LocalDriver \<Rightarrow> None
    | DeviceDriver ops \<Rightarrow> map_option (\<lambda>f path. on_devstate (f path)) (op_mkdir ops))"

text \<open>The driver of an open file; \<open>None\<close> stands for the null pointers the code tests for.\<close>

definition file_driver :: "opened_file \<Rightarrow> 'd vfs \<Rightarrow> 'd driver option" where
  "file_driver f s = Option.bind (at (drivers s) (of_device f)) dev_driver"

subsection \<open>Open files\<close>

definition put_descriptors :: "nat \<Rightarrow> nat pool \<Rightarrow> 'd vfs \<Rightarrow> 'd vfs res" where
  "put_descriptors ctx ds s =
     bindR (modify ctx (\<lambda>c. c\<lparr>descriptors := ds\<rparr>) (contexts s)) (\<lambda>cs. Inr (s\<lparr>contexts := cs\<rparr>))"

definition set_ref_count :: "nat \<Rightarrow> int \<Rightarrow> 'd vfs \<Rightarrow> 'd vfs res" where
  "set_ref_count fh n s =
     bindR (modify fh (\<lambda>f. f\<lparr>of_ref_count := n\<rparr>) (opened_files s)) (\<lambda>p. Inr (s\<lparr>opened_files := p\<rparr>))"

definition vfs_close :: "nat \<Rightarrow> nat \<Rightarrow> 'd vfs \<Rightarrow> (int \<times> 'd vfs) res" where
  "vfs_close ctx fd s =
     bindR (get (contexts s) ctx) (\<lambda>c.
     bindR (get (descriptors c) fd) (\<lambda>fh.
     bindR (get (opened_files s) fh) (\<lambda>file.
     case file_driver file s of
       None \<Rightarrow> Inl Panic
     | Some drv \<Rightarrow>
         bindR (erase fd (descriptors c)) (\<lambda>ds.
         bindR (put_descriptors ctx ds s) (\<lambda>s1.
         bindR (set_ref_count fh (of_ref_count file - 1) s1) (\<lambda>s2.
         if of_ref_count file - 1 = 0
         then bindR (case driver_close drv of
                       Some f \<Rightarrow> f (of_local_handle file) s2
                     | None \<Rightarrow> Inr (0, s2)) (\<lambda>(retval, s3).
              bindR (erase fh (opened_files s3)) (\<lambda>p. Inr (retval, s3\<lparr>opened_files := p\<rparr>)))
         else Inr (0, s2)))))))"

definition fetch_opened_file :: "nat \<Rightarrow> nat \<Rightarrow> 'd vfs \<Rightarrow> (int + opened_file \<times> 'd driver) res" where
  "fetch_opened_file ctx fd s =
     (if \<not> valid ctx (contexts s) then Inr (Inl ENOENT)
      else bindR (get (contexts s) ctx) (\<lambda>c.
           if \<not> valid fd (descriptors c) then Inr (Inl ENOENT)
           else bindR (get (descriptors c) fd) (\<lambda>fh.
                if \<not> valid fh (opened_files s) then Inr (Inl ENOENT)
                else bindR (get (opened_files s) fh) (\<lambda>file.
                     case file_driver file s of
                       None \<Rightarrow> Inr (Inl EINCONSTATE)
                     | Some drv \<Rightarrow> Inr (Inr (file, drv))))))"

definition vfs_read ::
  "(nat \<Rightarrow> nat \<Rightarrow> byte) \<Rightarrow> nat \<Rightarrow> nat \<Rightarrow> int \<Rightarrow> 'd vfs \<Rightarrow> ((int + nat) \<times> byte list \<times> 'd vfs) res" where
  "vfs_read junk ctx fd len s =
     bindR (fetch_opened_file ctx fd s) (\<lambda>r.
     case r of
       Inl e \<Rightarrow> Inr (Inl e, [], s)
     | Inr (file, drv) \<Rightarrow>
         case driver_read junk drv of
           None \<Rightarrow> Inr (Inl ENOSUPPORT, [], s)
         | Some f \<Rightarrow>
             bindR (f (of_local_handle file) len s) (\<lambda>(retval, data, s1).
             Inr (if retval < 0 then Inl retval else Inr (nat retval), data, s1)))"

definition vfs_open :: "nat \<Rightarrow> string \<Rightarrow> 32 word \<Rightarrow> 'd vfs \<Rightarrow> ((int + nat) \<times> 'd vfs) res" where
  "vfs_open ctx filename flags s =
     bindR (get (contexts s) ctx) (\<lambda>_.
     bindR (find_first_driver s (root_dir s) filename) (\<lambda>(node_idx, rest_path).
     bindR (get (nodes s) node_idx) (\<lambda>driver_node.
     assertR (node_type driver_node AND VFS_DRIVER \<noteq> 0 \<and> info_node driver_node \<noteq> END_SENTINEL)
      (bindR (get (drivers s) (info_node driver_node)) (\<lambda>dev.
       case dev_driver dev of
         None \<Rightarrow> Inl Panic
       | Some drv \<Rightarrow>
           case driver_open drv of
             None \<Rightarrow> Inr (Inl ENOSUPPORT, s)
           | Some f \<Rightarrow>
               bindR (f (dev_opaque dev) rest_path flags s) (\<lambda>(h, s1).
               if h < 0 then Inr (Inl h, s1)
               else bindR (emplace_anywhere \<lparr>of_device = info_node driver_node, of_local_handle = h,
                             of_flags = flags, of_ref_count = 1\<rparr> (opened_files s1)) (\<lambda>(p, ofh).
                    bindR (get (contexts s1) ctx) (\<lambda>c.
                    bindR (emplace_anywhere ofh (descriptors c)) (\<lambda>(ds, fd).
                    bindR (put_descriptors ctx ds (s1\<lparr>opened_files := p\<rparr>)) (\<lambda>s2.
                    Inr (Inr fd, s2)))))))))))"

definition vfs_seek :: "nat \<Rightarrow> nat \<Rightarrow> int \<Rightarrow> int \<Rightarrow> 'd vfs \<Rightarrow> (int \<times> 'd vfs) res" where
  "vfs_seek ctx fd offset relative s =
     bindR (fetch_opened_file ctx fd s) (\<lambda>r.
     case r of
       Inl e \<Rightarrow> Inr (e, s)
     | Inr (file, drv) \<Rightarrow>
         case driver_seek drv of
           None \<Rightarrow> Inr (ENOSUPPORT, s)
         | Some f \<Rightarrow> f (of_local_handle file) offset relative s)"

definition vfs_alias_fd :: "nat \<Rightarrow> nat \<Rightarrow> nat \<Rightarrow> nat \<Rightarrow> 'd vfs \<Rightarrow> (int \<times> 'd vfs) res" where
  "vfs_alias_fd src_ctx src_fd dst_ctx dst_fd s =
     bindR (get (contexts s) src_ctx) (\<lambda>source.
     bindR (get (contexts s) dst_ctx) (\<lambda>dest.
     if \<not> valid src_fd (descriptors source) then Inr (ENOENT, s)
     else bindR (get (descriptors source) src_fd) (\<lambda>fh.
          bindR (if valid dst_fd (descriptors dest)
                 then bindR (get (descriptors dest) dst_fd) (\<lambda>g. Inr (g = fh)) else Inr False) (\<lambda>same.
          if same then Inr (0, s)
          else bindR (if valid dst_fd (descriptors dest)
                      then bindR (vfs_close dst_ctx dst_fd s) (\<lambda>(_, s1). Inr s1) else Inr s) (\<lambda>s1.
               bindR (get (contexts s1) src_ctx) (\<lambda>source1.
               bindR (get (descriptors source1) src_fd) (\<lambda>fh1.
               bindR (get (contexts s1) dst_ctx) (\<lambda>dest1.
               bindR (emplace dst_fd fh1 (descriptors dest1)) (\<lambda>ds.
               bindR (put_descriptors dst_ctx ds s1) (\<lambda>s2.
               bindR (get (contexts s2) src_ctx) (\<lambda>source2.
               bindR (get (descriptors source2) src_fd) (\<lambda>fh2.
               bindR (get (opened_files s2) fh2) (\<lambda>file.
               bindR (set_ref_count fh2 (of_ref_count file + 1) s2) (\<lambda>s3.
               Inr (0, s3)))))))))))))))"

subsection \<open>Contexts\<close>

definition vfs_create_context :: "'d vfs \<Rightarrow> ((int + nat) \<times> 'd vfs) res" where
  "vfs_create_context s =
     (if full (contexts s) then Inr (Inl ENOSPACE, s)
      else bindR (emplace_anywhere \<lparr>descriptors = fixed_pool 16\<rparr> (contexts s)) (\<lambda>(p, h).
           Inr (Inr h, s\<lparr>contexts := p\<rparr>)))"

text \<open>
  The loops over the descriptors of a context read its watermark again on every turn; a context
  holds at most 16 descriptors, so 17 turns are enough.
\<close>

fun close_loop :: "nat \<Rightarrow> (opened_file \<Rightarrow> bool) \<Rightarrow> nat \<Rightarrow> nat \<Rightarrow> 'd vfs \<Rightarrow> 'd vfs res" where
  "close_loop 0 sel ctx i s = Inl Diverges"
| "close_loop (Suc fuel) sel ctx i s =
     bindR (get (contexts s) ctx) (\<lambda>c.
     if i < watermark (descriptors c)
     then bindR (if valid i (descriptors c)
                 then bindR (get (descriptors c) i) (\<lambda>fh.
                      bindR (get (opened_files s) fh) (\<lambda>file.
                      if sel file then bindR (vfs_close ctx i s) (\<lambda>(_, s1). Inr s1) else Inr s))
                 else Inr s) (close_loop fuel sel ctx (Suc i))
     else Inr s)"

definition vfs_destroy_context :: "nat \<Rightarrow> 'd vfs \<Rightarrow> 'd vfs res" where
  "vfs_destroy_context ctx s =
     bindR (close_loop 17 (\<lambda>_. True) ctx 0 s) (\<lambda>s1.
     bindR (erase ctx (contexts s1)) (\<lambda>cs. Inr (s1\<lparr>contexts := cs\<rparr>)))"

definition vfs_close_not_matching :: "nat \<Rightarrow> 32 word \<Rightarrow> 'd vfs \<Rightarrow> 'd vfs res" where
  "vfs_close_not_matching ctx flags s = close_loop 17 (\<lambda>file. of_flags file AND flags = 0) ctx 0 s"

fun fork_loop :: "nat \<Rightarrow> nat \<Rightarrow> nat \<Rightarrow> nat \<Rightarrow> 'd vfs \<Rightarrow> 'd vfs res" where
  "fork_loop 0 src dst i s = Inl Diverges"
| "fork_loop (Suc fuel) src dst i s =
     bindR (get (contexts s) src) (\<lambda>c.
     if i < watermark (descriptors c)
     then bindR (if valid i (descriptors c) then bindR (vfs_alias_fd src i dst i s) (\<lambda>(_, s1). Inr s1) else Inr s)
           (fork_loop fuel src dst (Suc i))
     else Inr s)"

definition vfs_fork_context :: "nat \<Rightarrow> 'd vfs \<Rightarrow> ((int + nat) \<times> 'd vfs) res" where
  "vfs_fork_context ctx s =
     bindR (vfs_create_context s) (\<lambda>(r, s1).
     case r of
       Inl e \<Rightarrow> Inr (Inl e, s1)
     | Inr new_context \<Rightarrow> bindR (fork_loop 17 ctx new_context 0 s1) (\<lambda>s2. Inr (Inr new_context, s2)))"

subsection \<open>System calls\<close>

text \<open>
  A system call takes the descriptor context of the calling process and whether the process
  manager found the caller's pointer valid. With an invalid pointer the caller is killed and
  the call does not return to it. Descriptors arrive as \<open>int\<close> and are converted to 16 bits.
\<close>

datatype ('r, 's) syscall_result = Returned 'r 's | Killed

definition syscall_write ::
  "nat \<Rightarrow> bool \<Rightarrow> int \<Rightarrow> byte list \<Rightarrow> int \<Rightarrow> 'd vfs \<Rightarrow> (int, 'd vfs) syscall_result res" where
  "syscall_write ctx ptr_ok fd data len s =
     (if \<not> ptr_ok then Inr Killed
      else bindR (fetch_opened_file ctx (handle16 fd) s) (\<lambda>r.
           case r of
             Inl e \<Rightarrow> Inr (Returned e s)
           | Inr (file, drv) \<Rightarrow>
               case driver_write drv of
                 None \<Rightarrow> Inr (Returned ENOSUPPORT s)
               | Some f \<Rightarrow> bindR (f (of_local_handle file) data len s) (\<lambda>(n, s1). Inr (Returned n s1))))"

definition syscall_read ::
  "(nat \<Rightarrow> nat \<Rightarrow> byte) \<Rightarrow> nat \<Rightarrow> bool \<Rightarrow> int \<Rightarrow> int \<Rightarrow> 'd vfs \<Rightarrow> (int \<times> byte list, 'd vfs) syscall_result res" where
  "syscall_read junk ctx buf_ok fd len s =
     (if \<not> buf_ok then Inr Killed
      else bindR (vfs_read junk ctx (handle16 fd) len s) (\<lambda>(r, data, s1).
           Inr (Returned (case r of Inl e \<Rightarrow> e | Inr n \<Rightarrow> s32 (int n), data) s1)))"

definition syscall_open :: "nat \<Rightarrow> bool \<Rightarrow> string \<Rightarrow> 32 word \<Rightarrow> 'd vfs \<Rightarrow> (int, 'd vfs) syscall_result res" where
  "syscall_open ctx ptr_ok filename flags s =
     (if \<not> ptr_ok then Inr Killed
      else bindR (vfs_open ctx filename flags s) (\<lambda>(r, s1).
           case r of
             Inr fd \<Rightarrow> Inr (Returned (int fd) s1)
           | Inl e \<Rightarrow> assertR (e < 0) (Inr (Returned e s1))))"

definition syscall_mkdir :: "bool \<Rightarrow> string \<Rightarrow> 'd vfs \<Rightarrow> (int, 'd vfs) syscall_result res" where
  "syscall_mkdir ptr_ok path s =
     (if \<not> ptr_ok then Inr Killed
      else bindR (find_first_driver s (root_dir s) path) (\<lambda>(node_idx, rest_path).
           bindR (get (nodes s) node_idx) (\<lambda>driver_node.
           assertR (node_type driver_node AND VFS_DRIVER \<noteq> 0 \<and> info_node driver_node \<noteq> END_SENTINEL)
            (bindR (get (drivers s) (info_node driver_node)) (\<lambda>dev.
             case dev_driver dev of
               None \<Rightarrow> Inl Panic
             | Some drv \<Rightarrow>
                 case driver_mkdir drv of
                   None \<Rightarrow> Inr (Returned ENOSUPPORT s)
                 | Some f \<Rightarrow> bindR (f rest_path s) (\<lambda>(r, s1). Inr (Returned r s1)))))))"

definition syscall_close :: "nat \<Rightarrow> int \<Rightarrow> 'd vfs \<Rightarrow> (int \<times> 'd vfs) res" where
  "syscall_close ctx fd s = vfs_close ctx (handle16 fd) s"

definition syscall_seek :: "nat \<Rightarrow> int \<Rightarrow> int \<Rightarrow> int \<Rightarrow> 'd vfs \<Rightarrow> (int \<times> 'd vfs) res" where
  "syscall_seek ctx fd offset relative s = vfs_seek ctx (handle16 fd) offset relative s"

text \<open>\<open>position_null\<close>: the pointer to the position is null.\<close>

definition syscall_tell ::
  "nat \<Rightarrow> bool \<Rightarrow> bool \<Rightarrow> int \<Rightarrow> 'd vfs \<Rightarrow> (int \<times> int option, 'd vfs) syscall_result res" where
  "syscall_tell ctx position_null ptr_ok fd s =
     assertR (\<not> position_null)
      (if \<not> ptr_ok then Inr Killed
       else bindR (fetch_opened_file ctx (handle16 fd) s) (\<lambda>r.
            case r of
              Inl e \<Rightarrow> Inr (Returned (e, None) s)
            | Inr (file, drv) \<Rightarrow>
                case driver_tell drv of
                  None \<Rightarrow> Inr (Returned (ENOSUPPORT, None) s)
                | Some f \<Rightarrow> bindR (f (of_local_handle file) s) (\<lambda>(r, position, s1).
                    Inr (Returned (r, Some position) s1))))"

definition syscall_control ::
  "nat \<Rightarrow> int \<Rightarrow> 32 word \<Rightarrow> 32 word \<Rightarrow> 32 word \<Rightarrow> 'd vfs \<Rightarrow> (int \<times> 'd vfs) res" where
  "syscall_control ctx fd func param1 param2 s =
     bindR (fetch_opened_file ctx (handle16 fd) s) (\<lambda>r.
     case r of
       Inl e \<Rightarrow> Inr (e, s)
     | Inr (file, drv) \<Rightarrow>
         case driver_control drv of
           None \<Rightarrow> Inr (ENOSUPPORT, s)
         | Some f \<Rightarrow> f (of_local_handle file) func param1 param2 s)"

definition syscall_dup2 :: "nat \<Rightarrow> int \<Rightarrow> int \<Rightarrow> 'd vfs \<Rightarrow> (int \<times> 'd vfs) res" where
  "syscall_dup2 ctx fd alias_fd s = vfs_alias_fd ctx (handle16 fd) ctx (handle16 alias_fd) s"

end
