(* ===== verification/VFS_Tree.thy ===== *)
theory VFS_Tree
  imports VFS
begin

text \<open>
  The directory tree of the virtual filesystem: an abstract tree of names, the refinement of the
  linked directory entries to it, and the listing of a directory through the filesystem's own
  driver.
\<close>

subsection \<open>Chains of entries\<close>

fun chain :: "vfs_dirent pool \<Rightarrow> nat \<Rightarrow> (nat \<times> vfs_dirent) list \<Rightarrow> bool" where
  "chain p i [] \<longleftrightarrow> i = END_SENTINEL"
| "chain p i ((j, d) # ds) \<longleftrightarrow> j = i \<and> i \<noteq> END_SENTINEL \<and> at p i = Some d \<and> chain p (next_dirent d) ds"

lemma chain_unique: "chain p i ds \<Longrightarrow> chain p i es \<Longrightarrow> ds = es"
proof (induction ds arbitrary: i es)
  case Nil
  then show ?case by (cases es) auto
next
  case (Cons x ds)
  then show ?case by (cases x; cases es) auto
qed

lemma chain_suffix: "chain p i ds \<Longrightarrow> (j, d) \<in> set ds \<Longrightarrow> \<exists>es. chain p j ((j, d) # es) \<and> length es < length ds"
proof (induction ds arbitrary: i)
  case (Cons x ds)
  obtain e where x: "x = (i, e)" "chain p (next_dirent e) ds" using Cons.prems(1) by (cases x) auto
  show ?case
  proof (cases "(j, d) = x")
    case True
    then show ?thesis using Cons.prems(1) x(1) by (intro exI [of _ ds]) simp
  next
    case False
    then have "(j, d) \<in> set ds" using Cons.prems(2) by simp
    from Cons.IH [OF x(2) this] show ?thesis by (auto intro: less_SucI)
  qed
qed simp

lemma chain_distinct: "chain p i ds \<Longrightarrow> distinct (map fst ds)"
proof (induction ds arbitrary: i)
  case (Cons x ds)
  obtain d where x: "x = (i, d)" "chain p (next_dirent d) ds" using Cons.prems by (cases x) auto
  have "(i, e) \<notin> set ds" for e
  proof
    assume "(i, e) \<in> set ds"
    then obtain es where es: "chain p i ((i, e) # es)" "length es < length ds" using chain_suffix [OF x(2)] by blast
    then show False using chain_unique [OF es(1) Cons.prems] x(1) by simp
  qed
  then show ?case using x Cons.IH [OF x(2)] by force
qed simp

lemma chain_at: "chain p i ds \<Longrightarrow> (j, d) \<in> set ds \<Longrightarrow> at p j = Some d"
  by (induction ds arbitrary: i) auto

lemma chain_length:
  assumes "pool_inv p" "chain p i ds"
  shows "length ds \<le> capacity p"
proof -
  have "set (map fst ds) \<subseteq> {..<capacity p}"
  proof
    fix j assume "j \<in> set (map fst ds)"
    then obtain d where "(j, d) \<in> set ds" by auto
    then show "j \<in> {..<capacity p}" using at_bound [OF assms(1) chain_at [OF assms(2)]] by simp
  qed
  then have "card (set (map fst ds)) \<le> card {..<capacity p}" by (intro card_mono) simp_all
  then show ?thesis using distinct_card [OF chain_distinct [OF assms(2)]] by simp
qed

lemma chain_cong:
  "chain p i ds \<Longrightarrow> \<forall>x \<in> set ds. at q (fst x) = at p (fst x) \<Longrightarrow> chain q i ds"
  by (induction ds arbitrary: i) auto

lemma dirent_loop_chain:
  "pool_inv p \<Longrightarrow> chain p i ds \<Longrightarrow> length ds < fuel \<Longrightarrow>
   dirent_loop fuel p i name = Inr (find (\<lambda>d. name = dirent_name d) (map snd ds))"
proof (induction ds arbitrary: i fuel)
  case Nil
  then show ?case by (cases fuel) auto
next
  case (Cons x ds)
  then show ?case by (cases fuel; cases x) (auto simp: get_at)
qed

subsection \<open>The abstract tree\<close>

fun entries :: "nat \<Rightarrow> vfs_dirent pool \<Rightarrow> nat \<Rightarrow> (nat \<times> vfs_dirent) list" where
  "entries 0 p i = []"
| "entries (Suc fuel) p i = (case at p i of None \<Rightarrow> [] | Some d \<Rightarrow> (i, d) # entries fuel p (next_dirent d))"

definition named :: "(nat \<times> vfs_dirent) list \<Rightarrow> (string \<rightharpoonup> nat)" where
  "named ds = map_of (map (\<lambda>(i, d). (dirent_name d, dirent_node d)) ds)"

text \<open>A directory is the map from the names in it to nodes; the other nodes are \<open>None\<close>.\<close>

definition vtree :: "'d vfs \<Rightarrow> nat \<Rightarrow> (string \<rightharpoonup> nat) option" where
  "vtree s n = (case at (nodes s) n of
      Some nd \<Rightarrow> if node_type nd = VFS_DIRECTORY
                 then Some (named (entries (capacity (directories s)) (directories s) (info_node nd))) else None
    | None \<Rightarrow> None)"

definition tree_ok :: "'d vfs \<Rightarrow> bool" where
  "tree_ok s \<longleftrightarrow> pool_inv (nodes s) \<and> pool_inv (directories s) \<and>
     (\<forall>n nd. at (nodes s) n = Some nd \<longrightarrow> node_type nd = VFS_DIRECTORY \<longrightarrow>
        (\<exists>ds. chain (directories s) (info_node nd) ds))"

text \<open>Walking down the tree; a step into a node that is not a directory fails an assertion.\<close>

fun walk :: "(nat \<Rightarrow> (string \<rightharpoonup> nat) option) \<Rightarrow> nat \<Rightarrow> string list \<Rightarrow> nat res" where
  "walk t n [] = Inr n"
| "walk t n (seg # segs) = (case t n of
      None \<Rightarrow> Inl Panic
    | Some m \<Rightarrow> (case m (take 31 seg) of None \<Rightarrow> Inr END_SENTINEL | Some k \<Rightarrow> walk t k segs))"

definition path_of :: "string list \<Rightarrow> string" where
  "path_of segs = concat (map (\<lambda>seg. CHR ''/'' # seg) segs)"

definition segment_ok :: "string \<Rightarrow> bool" where
  "segment_ok seg \<longleftrightarrow> seg \<noteq> [] \<and> CHR ''/'' \<notin> set seg"

lemma at_sentinel: "pool_inv p \<Longrightarrow> at p END_SENTINEL = None"
  using at_bound [of p END_SENTINEL] by (fastforce simp: pool_inv_def pool_rep_def capacity_def)

lemma entries_chain:
  "pool_inv p \<Longrightarrow> chain p i ds \<Longrightarrow> length ds \<le> fuel \<Longrightarrow> entries fuel p i = ds"
proof (induction ds arbitrary: i fuel)
  case Nil
  then show ?case by (cases fuel) (auto simp: at_sentinel)
next
  case (Cons x ds)
  then show ?case by (cases fuel; cases x) auto
qed

lemma find_named: "map_option dirent_node (find (\<lambda>d. name = dirent_name d) (map snd ds)) = named ds name"
  by (induction ds) (auto simp: named_def)

lemma find_dirent_vtree:
  assumes "tree_ok s"
  shows "bindR (find_dirent s n name) (\<lambda>d. Inr (map_option dirent_node d)) =
    (case vtree s n of None \<Rightarrow> Inl Panic | Some m \<Rightarrow> Inr (m name))"
proof (cases "at (nodes s) n")
  case None
  then show ?thesis using assms by (simp add: find_dirent_def vtree_def get_at tree_ok_def)
next
  case (Some nd)
  have p: "pool_inv (nodes s)" "pool_inv (directories s)" using assms by (auto simp: tree_ok_def)
  show ?thesis
  proof (cases "node_type nd = VFS_DIRECTORY")
    case True
    then obtain ds where ds: "chain (directories s) (info_node nd) ds" using assms Some by (auto simp: tree_ok_def)
    note len = chain_length [OF p(2) ds]
    have "find_dirent s n name = Inr (find (\<lambda>d. name = dirent_name d) (map snd ds))"
      using dirent_loop_chain [OF p(2) ds, of "Suc (capacity (directories s))"] len True Some p(1)
      by (simp add: find_dirent_def get_at)
    then show ?thesis
      using True Some entries_chain [OF p(2) ds len] by (simp add: vtree_def find_named)
  qed (use Some p in \<open>simp add: find_dirent_def vtree_def get_at\<close>)
qed

lemma path_of_simps: "path_of [] = []" "path_of (seg # segs) = CHR ''/'' # seg @ path_of segs"
  by (simp_all add: path_of_def)

lemma path_of_cases: "path_of segs = [] \<or> hd (path_of segs) = CHR ''/''"
  by (cases segs) (simp_all add: path_of_simps)

lemma path_slash: "segment_ok seg \<Longrightarrow> rest = [] \<or> hd rest = CHR ''/'' \<Longrightarrow>
    takeWhile (\<lambda>c. c \<noteq> CHR ''/'') (seg @ rest) = seg \<and> dropWhile (\<lambda>c. c \<noteq> CHR ''/'') (seg @ rest) = rest"
  by (cases rest) (auto simp: segment_ok_def takeWhile_tail dropWhile_append)

lemma vfs_lookup_aux_walk:
  assumes "tree_ok s" "\<forall>seg \<in> set segs. segment_ok seg" "tail = [] \<or> tail = ''/''"
  shows "vfs_lookup_aux s n (path_of segs @ tail) = walk (vtree s) n segs"
  using assms(2)
proof (induction segs arbitrary: n)
  case Nil
  then show ?case using assms(3) by (auto simp: path_of_simps vfs_lookup_aux.simps)
next
  case (Cons seg segs)
  let ?rest = "path_of segs @ tail"
  have r: "?rest = [] \<or> hd ?rest = CHR ''/''" using path_of_cases [of segs] assms(3) by (auto simp: hd_append)
  have seg: "segment_ok seg" using Cons.prems by simp
  note sp = path_slash [OF seg r]
  have f: "first_segment (path_of (seg # segs) @ tail) = take 31 seg" "next_segment (path_of (seg # segs) @ tail) = ?rest"
    using sp by (simp_all add: first_segment_def next_segment_def path_of_simps)
  have "vfs_lookup_aux s n (path_of (seg # segs) @ tail) =
      bindR (find_dirent s n (take 31 seg)) (\<lambda>d. case d of Some e \<Rightarrow> vfs_lookup_aux s (dirent_node e) ?rest | None \<Rightarrow> Inr END_SENTINEL)"
    using seg by (subst vfs_lookup_aux.simps) (simp add: f del: append.simps, simp add: path_of_simps segment_ok_def)
  then show ?case
    using find_dirent_vtree [OF assms(1), of n "take 31 seg"] Cons
    by (cases "find_dirent s n (take 31 seg)") (auto split: option.splits)
qed

subsection \<open>Growing the tree\<close>

lemma entries_of_node:
  assumes "tree_ok s" "at (nodes s) n = Some nd" "node_type nd = VFS_DIRECTORY"
  shows "chain (directories s) (info_node nd) (entries (capacity (directories s)) (directories s) (info_node nd))"
proof -
  obtain ds where ds: "chain (directories s) (info_node nd) ds" using assms by (auto simp: tree_ok_def)
  have p: "pool_inv (directories s)" using assms(1) by (simp add: tree_ok_def)
  show ?thesis using entries_chain [OF p ds chain_length [OF p ds]] ds by simp
qed

lemma chain_fresh: "chain p i ds \<Longrightarrow> at p j = None \<Longrightarrow> at q = (at p)(j := x) \<Longrightarrow> chain q i ds"
  using chain_at [of p i ds j] by (auto elim!: chain_cong) blast

lemma vfs_create_node_tree:
  assumes "tree_ok s" "vfs_create_node ty s = Inr (h, s')"
  shows "tree_ok s' \<and> at (nodes s) h = None \<and>
    vtree s' = (vtree s)(h := if ty = VFS_DIRECTORY then Some Map.empty else None)"
proof -
  from assms(2) obtain p where p: "emplace_anywhere \<lparr>node_type = ty, info_node = END_SENTINEL\<rparr> (nodes s) = Inr (p, h)"
      "s' = s\<lparr>nodes := p\<rparr>" by (auto simp: vfs_create_node_def)
  have ok: "pool_inv (nodes s)" "pool_inv (directories s)" using assms(1) by (auto simp: tree_ok_def)
  note e = pl.alloc_step [OF ok(1) p(1)]
  have "entries f (directories s) END_SENTINEL = []" for f by (cases f) (simp_all add: at_sentinel ok(2))
  then have "vtree s' k = ((vtree s)(h := if ty = VFS_DIRECTORY then Some Map.empty else None)) k" for k
    using e p(2) by (cases "at (nodes s) k") (auto simp: vtree_def named_def)
  then have "vtree s' = (vtree s)(h := if ty = VFS_DIRECTORY then Some Map.empty else None)" by blast
  moreover have "tree_ok s'"
    using assms(1) e p(2) by (auto simp: tree_ok_def split: if_splits intro: exI [of _ "[]"])
  ultimately show ?thesis using e by simp
qed

lemma vfs_add_dirent_tree:
  assumes "tree_ok s" "vfs_add_dirent d name n s = Inr s'"
  shows "tree_ok s' \<and> (\<exists>m. vtree s d = Some m \<and> vtree s' = (vtree s)(d := Some (m(take 31 name \<mapsto> n))))"
proof -
  have ok: "pool_inv (nodes s)" "pool_inv (directories s)" using assms(1) by (auto simp: tree_ok_def)
  from assms(2) obtain parent ds i ns where r: "get (nodes s) d = Inr parent" "node_type parent = VFS_DIRECTORY"
      "emplace_anywhere \<lparr>dirent_name = take 31 name, dirent_node = n, next_dirent = info_node parent\<rparr> (directories s) = Inr (ds, i)"
      "modify d (\<lambda>n. n\<lparr>info_node := i\<rparr>) (nodes s) = Inr ns" "s' = s\<lparr>directories := ds, nodes := ns\<rparr>"
    by (auto simp: vfs_add_dirent_def)
  have at: "at (nodes s) d = Some parent" using r(1) by (auto simp: get_at [OF ok(1)] split: option.splits)
  let ?e = "\<lparr>dirent_name = take 31 name, dirent_node = n, next_dirent = info_node parent\<rparr>"
  have e: "pool_inv ds" "capacity ds = capacity (directories s)" "at (directories s) i = None"
      "at ds = (at (directories s))(i \<mapsto> ?e)" using pl.alloc_step [OF ok(2) r(3)] by auto
  have ns: "pool_inv ns" "at ns = (at (nodes s))(d \<mapsto> parent\<lparr>info_node := i\<rparr>)"
    using modify_step [OF ok(1) at, of "\<lambda>n. n\<lparr>info_node := i\<rparr>"] r(4) by auto
  let ?old = "\<lambda>nd. entries (capacity (directories s)) (directories s) (info_node nd)"
  have keep: "chain ds (info_node nd) (?old nd)" if "at (nodes s) k = Some nd" "node_type nd = VFS_DIRECTORY" for k nd
    by (rule chain_fresh [OF entries_of_node [OF assms(1) that] e(3,4)])
  have i: "i \<noteq> END_SENTINEL" using e(1,4) at_sentinel [OF e(1)] by auto
  have new: "chain ds i ((i, ?e) # ?old parent)" using keep [OF at r(2)] i e(4) by simp
  have ent: "entries (capacity ds) ds j = xs" if "chain ds j xs" for j xs
    using entries_chain [OF e(1) that chain_length [OF e(1) that]] .
  have "tree_ok s'"
    unfolding tree_ok_def r(5) using ns e(1) exI [of "chain ds i", OF new] keep by (auto split: if_splits)
  moreover have "vtree s d = Some (named (?old parent))" using at r(2) by (simp add: vtree_def)
  moreover have "vtree s' k = ((vtree s)(d := Some ((named (?old parent))(take 31 name \<mapsto> n)))) k" for k
  proof (cases "k = d")
    case True
    then show ?thesis using ns(2) r(2) ent [OF new] by (simp add: vtree_def r(5) named_def)
  next
    case False
    then show ?thesis using ns(2) ent [OF keep] by (auto simp: vtree_def r(5) split: option.splits)
  qed
  ultimately show ?thesis by (auto simp: fun_eq_iff)
qed

subsection \<open>Listing a directory\<close>

definition blocks :: "(nat \<Rightarrow> nat \<Rightarrow> byte) \<Rightarrow> (nat \<times> vfs_dirent) list \<Rightarrow> byte list" where
  "blocks junk ds = concat (map (\<lambda>(i, d). dirent_block junk i d) ds)"

definition listing :: "(nat \<Rightarrow> nat \<Rightarrow> byte) \<Rightarrow> nat \<Rightarrow> 'd vfs \<Rightarrow> byte list" where
  "listing junk n s = (case at (nodes s) n of
      None \<Rightarrow> [] | Some nd \<Rightarrow> blocks junk (entries (capacity (directories s)) (directories s) (info_node nd)))"

lemma length_dirent_block [simp]: "length (dirent_block junk i d) = 64"
  by (simp add: dirent_block_def DIRENT_SIZE_def)

lemma blocks_simps: "blocks junk [] = []" "blocks junk ((i, d) # ds) = dirent_block junk i d @ blocks junk ds"
  by (simp_all add: blocks_def)

lemma read_locally_loop_ok:
  assumes "pool_inv p"
  shows "chain p i ds \<Longrightarrow> length ds < fuel \<Longrightarrow> bo = 64 * int k \<Longrightarrow> bo \<le> pos \<or> len \<le> 0 \<Longrightarrow>
    read_locally_loop fuel junk p i bo pos len acc =
      (let out = take (nat len) (drop (nat (pos - bo)) (blocks junk ds)) in Inr (pos + int (length out), acc @ out))"
proof (induction ds arbitrary: i fuel bo k pos len acc)
  case Nil
  then show ?case by (cases fuel) (auto simp: blocks_simps)
next
  case (Cons x ds)
  obtain d f where x: "x = (i, d)" "at p i = Some d" "chain p (next_dirent d) ds" "i \<noteq> END_SENTINEL" and f: "fuel = Suc f"
    using Cons.prems(1,2) by (cases x; cases fuel) auto
  have g: "get p i = Inr d" using x(2) by (simp add: get_at [OF assms])
  note IH = Cons.IH [OF x(3), of f "bo + 64" "Suc k"]
  consider "len \<le> 0" | "0 < len" "bo \<le> pos" "pos < bo + 64" | "0 < len" "bo + 64 \<le> pos" using Cons.prems(4) by linarith
  then show ?case
  proof cases
    case 1
    then show ?thesis by (simp add: f)
  next
    case 2
    define o' where "o' = nat (pos - bo)"
    have o: "int o' = pos - bo" "o' < 64" using 2 by (auto simp: o'_def)
    have "pos = int o' + 64 * int k" using o(1) Cons.prems(3) by simp
    then have o3: "cmod pos 64 = int o'" using o(2) by (simp add: cmod_def)
    define c where "c = min (64 - int o') len"
    have c: "0 < c" "c \<le> len" "nat c \<le> 64 - o'" using o 2(1) by (auto simp: c_def)
    have "bo + 64 \<le> pos + c \<or> len - c \<le> 0" using o by (auto simp: c_def)
    then have "read_locally_loop fuel junk p i bo pos len acc =
        (let out = take (nat (len - c)) (drop (nat (pos + c - (bo + 64))) (blocks junk ds))
         in Inr (pos + c + int (length out), (acc @ take (nat c) (drop o' (dirent_block junk i d))) @ out))"
      using IH [of "pos + c" "len - c"] 2 g x(4) o3 Cons.prems(2,3)
      by (simp add: f DIRENT_SIZE_def Let_def c_def)
    also have "\<dots> = (let out = take (nat len) (drop o' (blocks junk (x # ds))) in Inr (pos + int (length out), acc @ out))"
    proof (cases "len \<le> 64 - int o'")
      case True
      then have "c = len" by (simp add: c_def)
      then show ?thesis using True o 2(1) by (simp add: Let_def blocks_simps x(1))
    next
      case False
      then have "c = 64 - int o'" "nat (pos + c - (bo + 64)) = 0" "nat (len - c) = nat len - (64 - o')" "nat c = 64 - o'"
        using o by (auto simp: c_def)
      then show ?thesis using False o(2) by (simp add: Let_def blocks_simps x(1))
    qed
    finally show ?thesis by (simp add: o'_def)
  next
    case 3
    have "nat (pos - bo) = 64 + nat (pos - (bo + 64))" using 3 by simp
    then show ?thesis using IH [of pos len acc] 3 g x(4) Cons.prems(2,3)
      by (simp add: f DIRENT_SIZE_def Let_def blocks_simps x(1))
  qed
qed

subsection \<open>Properties\<close>

text \<open>
  \<^bold>\<open>C11.\<close> The virtual filesystem refines a tree of names. Looking up a path, with or without
  a final slash, walks the abstract tree one segment at a time (each cut to 31 characters),
  gives the sentinel where a name is missing and fails an assertion on stepping into a node
  that is not a directory; \<open>vfs_add_dirent\<close> adds one binding to one directory, shadowing an
  older one of that name, and \<open>vfs_create_node\<close> adds one empty node under a new handle.
\<close>

theorem vfs_tree_refines:
  assumes "tree_ok s"
  shows "(\<forall>segs. list_all segment_ok segs \<longrightarrow>
       vfs_lookup (path_of segs) s = walk (vtree s) (root_dir s) segs \<and>
       vfs_lookup (path_of segs @ ''/'') s = walk (vtree s) (root_dir s) segs) \<and>
     (\<forall>d name n s'. vfs_add_dirent d name n s = Inr s' \<longrightarrow> tree_ok s' \<and>
       (\<exists>m. vtree s d = Some m \<and> vtree s' = (vtree s)(d := Some (m(take 31 name \<mapsto> n))))) \<and>
     (\<forall>ty h s'. vfs_create_node ty s = Inr (h, s') \<longrightarrow> tree_ok s' \<and> at (nodes s) h = None \<and>
       vtree s' = (vtree s)(h := if ty = VFS_DIRECTORY then Some Map.empty else None))"
proof (intro conjI allI impI)
  fix segs :: "string list"
  assume "list_all segment_ok segs"
  then have "\<forall>seg \<in> set segs. segment_ok seg" by (simp add: list_all_iff)
  note w = vfs_lookup_aux_walk [OF assms this]
  show "vfs_lookup (path_of segs) s = walk (vtree s) (root_dir s) segs" using w [of "[]"] by (simp add: vfs_lookup_def)
  show "vfs_lookup (path_of segs @ ''/'') s = walk (vtree s) (root_dir s) segs" using w by (simp add: vfs_lookup_def)
qed (use assms vfs_add_dirent_tree vfs_create_node_tree in blast)+

lemma tree_ok_empty: "tree_ok (vfs_empty d)"
  by (simp add: tree_ok_def vfs_empty_def)

lemma vfs_create_first:
  obtains h s where "vfs_create_node ty (vfs_empty d) = Inr (h, s)" "directories s = fixed_pool 256"
    "at (nodes s) = [h \<mapsto> \<lparr>node_type = ty, info_node = END_SENTINEL\<rparr>]"
proof -
  let ?n = "\<lparr>node_type = ty, info_node = END_SENTINEL\<rparr>"
  obtain p h where p: "emplace_anywhere ?n (fixed_pool 256) = Inr (p, h)"
    using pl.alloc_total [of "fixed_pool 256" ?n] by auto
  then show thesis using that [of h "vfs_empty d\<lparr>nodes := p\<rparr>"] pl.alloc_step [OF _ p]
    by (auto simp: vfs_create_node_def vfs_empty_def)
qed

lemma vfs_add_first:
  assumes "tree_ok s" "directories s = fixed_pool 256" "at (nodes s) h = Some nd" "node_type nd = VFS_DIRECTORY"
  obtains s' i where "vfs_add_dirent h name n s = Inr s'" "at (nodes s') h = Some (nd\<lparr>info_node := i\<rparr>)"
    "at (directories s') = [i \<mapsto> \<lparr>dirent_name = take 31 name, dirent_node = n, next_dirent = info_node nd\<rparr>]"
    "capacity (directories s') = 256"
proof -
  have ok: "pool_inv (nodes s)" using assms(1) by (simp add: tree_ok_def)
  let ?e = "\<lparr>dirent_name = take 31 name, dirent_node = n, next_dirent = info_node nd\<rparr>"
  obtain ds i where ds: "emplace_anywhere ?e (directories s) = Inr (ds, i)"
    using pl.alloc_total [of "directories s" ?e] assms(2) by auto
  obtain ns where ns: "modify h (\<lambda>n. n\<lparr>info_node := i\<rparr>) (nodes s) = Inr ns" "at ns = (at (nodes s))(h \<mapsto> nd\<lparr>info_node := i\<rparr>)"
    using modify_step [OF ok assms(3), of "\<lambda>n. n\<lparr>info_node := i\<rparr>"] by blast
  show thesis
    using assms(2,3,4) ds ns pl.alloc_step [OF _ ds]
    by (intro that [of "s\<lparr>directories := ds, nodes := ns\<rparr>" i]) (auto simp: vfs_add_dirent_def get_at [OF ok])
qed

theorem vfs_tree_refines_witness:
  "\<exists>h s s'. vfs_create_node VFS_DIRECTORY (vfs_empty ()) = Inr (h, s) \<and> vfs_add_dirent h ''dev'' 7 s = Inr s' \<and>
     vtree s' h = Some [''dev'' \<mapsto> 7] \<and>
     vfs_lookup (path_of [''dev''] @ ''/'') s' = walk (vtree s') (root_dir s') [''dev'']"
proof -
  obtain h s where s: "vfs_create_node VFS_DIRECTORY (vfs_empty ()) = Inr (h, s)" "directories s = fixed_pool 256"
    "at (nodes s) = [h \<mapsto> \<lparr>node_type = VFS_DIRECTORY, info_node = END_SENTINEL\<rparr>]" by (rule vfs_create_first)
  have 1: "tree_ok s" "vtree s h = Some Map.empty"
    using vfs_tree_refines [OF tree_ok_empty, of "()"] s(1) by auto
  have "at (nodes s) h = Some \<lparr>node_type = VFS_DIRECTORY, info_node = END_SENTINEL\<rparr>" using s(3) by simp
  then obtain s' where s': "vfs_add_dirent h ''dev'' 7 s = Inr s'" by (rule vfs_add_first [OF 1(1) s(2)]) simp_all
  have "tree_ok s' \<and> (\<exists>m. vtree s h = Some m \<and> vtree s' = (vtree s)(h := Some (m(take 31 ''dev'' \<mapsto> 7))))"
    using vfs_tree_refines [OF 1(1)] s' by blast
  then have 2: "tree_ok s'" "vtree s' h = Some [''dev'' \<mapsto> 7]" using 1(2) by auto
  have "list_all segment_ok [''dev'']" by (simp add: segment_ok_def)
  then show ?thesis using vfs_tree_refines [OF 2(1)] 2(2) s(1) s' by blast
qed

text \<open>
  \<^bold>\<open>C14.\<close> Reading an open directory streams its listing, the 64-byte blocks of its entries one
  after the other: wherever the position is and however many bytes are asked for, a read returns
  the next bytes of the listing, as many as there are, advances the position by their number
  and changes nothing else.
\<close>

theorem directory_listing_streams:
  assumes "tree_ok s" "pool_inv (locally_opened_files s)" "at (locally_opened_files s) h = Some f" "0 \<le> lf_position f"
    "at (nodes s) (lf_node f) = Some nd" "node_type nd = VFS_DIRECTORY"
  shows "\<exists>p. read_locally junk (int h) len s =
       (let out = take (nat len) (drop (nat (lf_position f)) (listing junk (lf_node f) s))
        in Inr (int (length out), out, s\<lparr>locally_opened_files := p\<rparr>)) \<and>
     at p = (at (locally_opened_files s))
       (h \<mapsto> f\<lparr>lf_position := lf_position f + int (length (take (nat len) (drop (nat (lf_position f)) (listing junk (lf_node f) s))))\<rparr>)"
proof -
  let ?ds = "entries (capacity (directories s)) (directories s) (info_node nd)"
  let ?out = "take (nat len) (drop (nat (lf_position f)) (listing junk (lf_node f) s))"
  have ok: "pool_inv (nodes s)" "pool_inv (directories s)" using assms(1) by (auto simp: tree_ok_def)
  have h: "handle16 (int h) = h"
    using at_bound [OF assms(2,3)] assms(2) by (simp add: handle16_def pool_inv_def pool_rep_def capacity_def END_SENTINEL_def)
  have l: "listing junk (lf_node f) s = blocks junk ?ds" using assms(5) by (simp add: listing_def)
  have ch: "chain (directories s) (info_node nd) ?ds" by (rule entries_of_node [OF assms(1,5,6)])
  have dir: "node_type nd AND VFS_DIRECTORY \<noteq> 0" using assms(6) by (simp add: VFS_DIRECTORY_def)
  let ?g = "\<lambda>f. f\<lparr>lf_position := lf_position f + int (length ?out)\<rparr>"
  show ?thesis
  proof (cases "info_node nd = END_SENTINEL")
    case True
    then have "?ds = []" using ch by (cases ?ds) auto
    then have o: "listing junk (lf_node f) s = []" by (simp add: l blocks_simps)
    have "at (locally_opened_files s) = (at (locally_opened_files s))(h \<mapsto> f\<lparr>lf_position := lf_position f + 0\<rparr>)"
      using assms(3) by (auto simp: fun_eq_iff)
    then show ?thesis using True o assms(3,5) dir h
      by (intro exI [of _ "locally_opened_files s"]) (simp add: read_locally_def get_at assms(2) ok(1) Let_def)
  next
    case False
    obtain p where p: "modify h (\<lambda>g. g\<lparr>lf_position := lf_position f + int (length ?out)\<rparr>) (locally_opened_files s) = Inr p"
      "at p = (at (locally_opened_files s))(h \<mapsto> f\<lparr>lf_position := lf_position f + int (length ?out)\<rparr>)"
      using modify_step [OF assms(2,3), of "\<lambda>g. g\<lparr>lf_position := lf_position f + int (length ?out)\<rparr>"] by auto
    have loop: "read_locally_loop (Suc (capacity (directories s))) junk (directories s) (info_node nd) 0 (lf_position f) len [] =
        Inr (lf_position f + int (length ?out), ?out)"
      using read_locally_loop_ok [OF ok(2) ch, of "Suc (capacity (directories s))" 0 0 "lf_position f" len junk "[]"]
        chain_length [OF ok(2) ch] assms(4) by (simp add: Let_def l)
    show ?thesis
      using False assms(3,5) dir h p by (intro exI [of _ p]) (simp add: read_locally_def get_at assms(2) ok(1) Let_def loop
          del: read_locally_loop.simps length_take length_drop)
  qed
qed

theorem directory_listing_streams_witness:
  "\<exists>h s s' p. vfs_create_node VFS_DIRECTORY (vfs_empty ()) = Inr (h, s) \<and> vfs_add_dirent h ''dev'' 7 s = Inr s' \<and>
     read_locally (\<lambda>_ _. 0) (int 0) 10
       (s'\<lparr>locally_opened_files := \<lparr>pdata = [\<lparr>next_free = END_SENTINEL, prev_free = END_SENTINEL, nvalue = Some \<lparr>lf_node = h, lf_position = 61\<rparr>\<rparr>],
          watermark = 1, free_list_head = END_SENTINEL, free_list_tail = END_SENTINEL, pcount = 1\<rparr>\<rparr>) =
       Inr (3, [0, 0, 0], s'\<lparr>locally_opened_files := p\<rparr>)"
proof -
  let ?nd = "\<lparr>node_type = VFS_DIRECTORY, info_node = END_SENTINEL\<rparr>" and ?f = "\<lambda>h. \<lparr>lf_node = h, lf_position = 61\<rparr>"
  let ?p = "\<lambda>h. \<lparr>pdata = [\<lparr>next_free = END_SENTINEL, prev_free = END_SENTINEL, nvalue = Some (?f h)\<rparr>],
          watermark = 1, free_list_head = END_SENTINEL, free_list_tail = END_SENTINEL, pcount = 1\<rparr>"
  obtain h s where s: "vfs_create_node VFS_DIRECTORY (vfs_empty ()) = Inr (h, s)" "directories s = fixed_pool 256"
    "at (nodes s) = [h \<mapsto> ?nd]" by (rule vfs_create_first)
  have ok: "tree_ok s" using vfs_create_node_tree [OF tree_ok_empty s(1)] by simp
  have "at (nodes s) h = Some ?nd" using s(3) by simp
  then obtain s' i where s': "vfs_add_dirent h ''dev'' 7 s = Inr s'" "at (nodes s') h = Some (?nd\<lparr>info_node := i\<rparr>)"
    "at (directories s') = [i \<mapsto> \<lparr>dirent_name = take 31 ''dev'', dirent_node = 7, next_dirent = info_node ?nd\<rparr>]"
    "capacity (directories s') = 256"
    by (rule vfs_add_first [OF ok s(2)]) simp
  let ?s = "s'\<lparr>locally_opened_files := ?p h\<rparr>"
  have ok': "tree_ok s'" using vfs_add_dirent_tree [OF ok s'(1)] by simp
  then have ok2: "tree_ok ?s" by (simp add: tree_ok_def)
  have i: "i \<noteq> END_SENTINEL" using s'(3) at_sentinel [of "directories s'"] ok' by (auto simp: tree_ok_def)
  have inv: "pool_inv (?p h)" by (auto simp: pool_inv_def pool_rep_def END_SENTINEL_def intro!: exI [of _ "[]"])
  have at: "at (?p h) 0 = Some (?f h)" by (simp add: at_def valid_def END_SENTINEL_def)
  have "entries (Suc (Suc 254)) (directories s') i = [(i, \<lparr>dirent_name = ''dev'', dirent_node = 7, next_dirent = END_SENTINEL\<rparr>)]"
    using s'(3) i by (simp only: entries.simps) simp
  then have l: "drop 61 (listing (\<lambda>_ _. 0) h ?s) = [0, 0, 0]"
    using s'(2,4) by (simp add: listing_def blocks_simps dirent_block_def DIRENT_SIZE_def upt_rec)
  show ?thesis
    using directory_listing_streams [of ?s 0 "?f h" "?nd\<lparr>info_node := i\<rparr>" "\<lambda>_ _. 0" 10] ok2 inv at s(1) s'(1,2) l
    by (auto simp: Let_def simp del: length_take length_drop)
qed

end
