(* ===== verification/VFS_Files.thy ===== *)
theory VFS_Files
  imports VFS
begin

text \<open>
  Open files and descriptors of the virtual filesystem: the reference counts agree with the
  descriptors that exist, the handles of the filesystem's own driver are exactly those the open
  files own, a file is closed when and only when its last descriptor goes, and \<open>fork\<close> copies
  the descriptors of a context.
\<close>

subsection \<open>Descriptors as one map\<close>

definition fdmap :: "'d vfs \<Rightarrow> nat \<times> nat \<Rightarrow> nat option" where
  "fdmap s = (\<lambda>(ctx, fd). Option.bind (at (contexts s) ctx) (\<lambda>c. at (descriptors c) fd))"

definition users :: "'d vfs \<Rightarrow> nat \<Rightarrow> (nat \<times> nat) set" where
  "users s fh = {k. fdmap s k = Some fh}"

definition contexts_ok :: "'d vfs \<Rightarrow> bool" where
  "contexts_ok s \<longleftrightarrow> pool_inv (contexts s) \<and>
     (\<forall>ctx c. at (contexts s) ctx = Some c \<longrightarrow> pool_inv (descriptors c) \<and> capacity (descriptors c) = 16)"

definition counts_ok :: "'d vfs \<Rightarrow> bool" where
  "counts_ok s \<longleftrightarrow> pool_inv (opened_files s) \<and> (\<forall>fh. case at (opened_files s) fh of
      None \<Rightarrow> users s fh = {}
    | Some f \<Rightarrow> users s fh \<noteq> {} \<and> of_ref_count f = int (card (users s fh)) \<and> file_driver f s \<noteq> None)"

text \<open>The handle an open file owns in the pool of the filesystem's own driver.\<close>

definition owned :: "'d vfs \<Rightarrow> nat \<Rightarrow> int option" where
  "owned s fh = (case at (opened_files s) fh of
      Some f \<Rightarrow> if file_driver f s = Some LocalDriver then Some (of_local_handle f) else None
    | None \<Rightarrow> None)"

definition locals_ok :: "'d vfs \<Rightarrow> bool" where
  "locals_ok s \<longleftrightarrow> pool_inv (locally_opened_files s) \<and>
     inj_on (owned s) (dom (owned s)) \<and> ran (owned s) = int ` dom (at (locally_opened_files s))"

definition files_ok :: "'d vfs \<Rightarrow> bool" where
  "files_ok s \<longleftrightarrow> contexts_ok s \<and> pool_inv (drivers s) \<and> counts_ok s \<and> locals_ok s"

lemma users_finite: "contexts_ok s \<Longrightarrow> finite (users s fh)"
proof -
  assume ok: "contexts_ok s"
  have "users s fh \<subseteq> {..<capacity (contexts s)} \<times> {..<16}"
  proof
    fix k assume "k \<in> users s fh"
    then obtain ctx fd c where k: "k = (ctx, fd)" "at (contexts s) ctx = Some c" "at (descriptors c) fd = Some fh"
      by (cases k) (auto simp: users_def fdmap_def bind_eq_Some_conv)
    then show "k \<in> {..<capacity (contexts s)} \<times> {..<16}"
      using ok at_bound [of "contexts s" ctx c] at_bound [of "descriptors c" fd fh] by (auto simp: contexts_ok_def)
  qed
  then show ?thesis by (rule finite_subset) simp
qed

lemma fdmap_Some:
  "fdmap s (ctx, fd) = Some fh \<longleftrightarrow> (\<exists>c. at (contexts s) ctx = Some c \<and> at (descriptors c) fd = Some fh)"
  by (auto simp: fdmap_def bind_eq_Some_conv)

lemma users_upd:
  "fdmap s' = (fdmap s)(k := v) \<Longrightarrow> users s' fh = (if v = Some fh then insert k (users s fh) else users s fh - {k})"
  by (auto simp: users_def)

lemma put_descriptors_result:
  assumes "contexts_ok s" "put_descriptors ctx ds s = Inr s'" "pool_inv ds" "capacity ds = 16"
    "at (contexts s) ctx = Some c" "at ds = (at (descriptors c))(fd := v)"
  shows "contexts_ok s'" "fdmap s' = (fdmap s)((ctx, fd) := v)" "dom (at (contexts s')) = dom (at (contexts s))"
    "\<exists>cs. s' = s\<lparr>contexts := cs\<rparr>"
proof -
  have pi: "pool_inv (contexts s)" using assms(1) by (simp add: contexts_ok_def)
  obtain cs where cs: "pool_inv cs" "at cs = (at (contexts s))(ctx \<mapsto> c\<lparr>descriptors := ds\<rparr>)" "s' = s\<lparr>contexts := cs\<rparr>"
    using modify_step [OF pi assms(5), of "\<lambda>c. c\<lparr>descriptors := ds\<rparr>"] assms(2) by (auto simp: put_descriptors_def)
  show "contexts_ok s'" using assms(1,3,4) cs by (simp add: contexts_ok_def)
  show "dom (at (contexts s')) = dom (at (contexts s))" using cs assms(5) by auto
  show "fdmap s' = (fdmap s)((ctx, fd) := v)" using cs assms(5,6) by (auto simp: fdmap_def fun_eq_iff)
  show "\<exists>cs. s' = s\<lparr>contexts := cs\<rparr>" using cs(3) by blast
qed

lemma put_descriptors_total:
  assumes "contexts_ok s" "at (contexts s) ctx = Some c"
  shows "\<exists>s'. put_descriptors ctx ds s = Inr s'"
  using modify_step [of "contexts s" ctx c "\<lambda>c. c\<lparr>descriptors := ds\<rparr>"] assms by (auto simp: put_descriptors_def contexts_ok_def)

lemma set_ref_count_result:
  assumes "pool_inv (opened_files s)" "at (opened_files s) fh = Some f"
  shows "\<exists>p. set_ref_count fh n s = Inr (s\<lparr>opened_files := p\<rparr>) \<and> pool_inv p \<and>
    at p = (at (opened_files s))(fh \<mapsto> f\<lparr>of_ref_count := n\<rparr>)"
  using modify_step [OF assms, of "\<lambda>f. f\<lparr>of_ref_count := n\<rparr>"] by (auto simp: set_ref_count_def)

lemma fdmap_simps [simp]:
  "fdmap (s\<lparr>opened_files := p\<rparr>) = fdmap s" "fdmap (s\<lparr>devstate := d\<rparr>) = fdmap s"
  "fdmap (s\<lparr>locally_opened_files := l\<rparr>) = fdmap s"
  by (simp_all add: fdmap_def)

lemma contexts_ok_simps [simp]:
  "contexts_ok (s\<lparr>opened_files := p\<rparr>) = contexts_ok s" "contexts_ok (s\<lparr>devstate := d\<rparr>) = contexts_ok s"
  "contexts_ok (s\<lparr>locally_opened_files := l\<rparr>) = contexts_ok s"
  by (simp_all add: contexts_ok_def)

lemma file_driver_cong: "drivers s' = drivers s \<Longrightarrow> file_driver f s' = file_driver f s"
  by (simp add: file_driver_def)

lemma file_driver_ref_count [simp]: "file_driver (f\<lparr>of_ref_count := n\<rparr>) s = file_driver f s"
  by (simp add: file_driver_def)

lemma file_driver_simps [simp]:
  "file_driver f (s\<lparr>opened_files := p\<rparr>) = file_driver f s" "file_driver f (s\<lparr>devstate := d\<rparr>) = file_driver f s"
  "file_driver f (s\<lparr>locally_opened_files := l\<rparr>) = file_driver f s" "file_driver f (s\<lparr>contexts := cs\<rparr>) = file_driver f s"
  by (simp_all add: file_driver_def)

subsection \<open>Closing a descriptor\<close>

lemma files_ok_file:
  assumes "files_ok s" "fdmap s k = Some fh"
  obtains f drv where "at (opened_files s) fh = Some f" "file_driver f s = Some drv"
    "of_ref_count f = int (card (users s fh))" "k \<in> users s fh"
proof -
  have k: "k \<in> users s fh" using assms(2) by (simp add: users_def)
  then show thesis using assms(1) that by (fastforce simp: files_ok_def counts_ok_def split: option.splits dest: spec [of _ fh])
qed

lemma vfs_close_eq:
  assumes ok: "files_ok s" and k: "fdmap s (ctx, fd) = Some fh"
    and f: "at (opened_files s) fh = Some f" "file_driver f s = Some drv"
  shows "\<exists>cs p. let s2 = s\<lparr>contexts := cs, opened_files := p\<rparr> in
    vfs_close ctx fd s =
      (if of_ref_count f = 1
       then bindR (case driver_close drv of Some g \<Rightarrow> g (of_local_handle f) s2 | None \<Rightarrow> Inr (0, s2)) (\<lambda>(r, s3).
            bindR (erase fh (opened_files s3)) (\<lambda>q. Inr (r, s3\<lparr>opened_files := q\<rparr>)))
       else Inr (0, s2)) \<and>
    contexts_ok s2 \<and> fdmap s2 = (fdmap s)((ctx, fd) := None) \<and> dom (at cs) = dom (at (contexts s)) \<and>
    pool_inv p \<and> at p = (at (opened_files s))(fh \<mapsto> f\<lparr>of_ref_count := of_ref_count f - 1\<rparr>)"
proof -
  have c_ok: "contexts_ok s" and pf: "pool_inv (opened_files s)" and pc: "pool_inv (contexts s)"
    using ok by (auto simp: files_ok_def counts_ok_def contexts_ok_def)
  obtain c where c: "at (contexts s) ctx = Some c" "at (descriptors c) fd = Some fh" using k by (auto simp: fdmap_Some)
  have d_ok: "pool_inv (descriptors c)" "capacity (descriptors c) = 16" using c_ok c(1) by (auto simp: contexts_ok_def)
  obtain ds where ds: "erase fd (descriptors c) = Inr ds" using erase_total [OF d_ok(1)] c(2) by auto
  have ds': "pool_inv ds" "capacity ds = 16" "at ds = (at (descriptors c))(fd := None)"
    using erase_step [OF d_ok(1) ds] d_ok(2) by auto
  obtain s1 where s1: "put_descriptors ctx ds s = Inr s1" using put_descriptors_total [OF c_ok c(1)] by blast
  note put = put_descriptors_result [OF c_ok s1 ds'(1,2) c(1) ds'(3)]
  obtain cs where cs: "s1 = s\<lparr>contexts := cs\<rparr>" using put(4) by blast
  have f1: "at (opened_files s1) fh = Some f" "pool_inv (opened_files s1)" using f(1) pf cs by simp_all
  obtain p where p: "set_ref_count fh (of_ref_count f - 1) s1 = Inr (s1\<lparr>opened_files := p\<rparr>)" "pool_inv p"
      "at p = (at (opened_files s1))(fh \<mapsto> f\<lparr>of_ref_count := of_ref_count f - 1\<rparr>)"
    using set_ref_count_result [OF f1(2,1)] by blast
  have "vfs_close ctx fd s = bindR (set_ref_count fh (of_ref_count f - 1) s1) (\<lambda>s2.
      if of_ref_count f - 1 = 0
      then bindR (case driver_close drv of Some g \<Rightarrow> g (of_local_handle f) s2 | None \<Rightarrow> Inr (0, s2)) (\<lambda>(r, s3).
           bindR (erase fh (opened_files s3)) (\<lambda>q. Inr (r, s3\<lparr>opened_files := q\<rparr>)))
      else Inr (0, s2))"
    using c f ds s1 by (simp add: vfs_close_def get_at pc pf d_ok(1))
  then show ?thesis
    using p put cs by (intro exI [of _ cs] exI [of _ p]) (auto simp: Let_def)
qed

lemma driver_close_frame:
  assumes "driver_close drv = Some g" "g h s = Inr (r, s')"
  shows "drv = LocalDriver \<and> (\<exists>l. s' = s\<lparr>locally_opened_files := l\<rparr> \<and> erase (handle16 h) (locally_opened_files s) = Inr l) \<or>
    drv \<noteq> LocalDriver \<and> (\<exists>d. s' = s\<lparr>devstate := d\<rparr>)"
  using assms by (cases drv) (auto simp: driver_close_def close_locally_def on_devstate_def)

lemma handle16_small: "pool_inv p \<Longrightarrow> at p i = Some x \<Longrightarrow> handle16 (int i) = i"
  using at_bound [of p i x] by (simp add: handle16_def pool_inv_def pool_rep_def capacity_def END_SENTINEL_def)

lemma counts_ok_close:
  assumes "counts_ok s" "contexts_ok s" "fdmap s k = Some fh" "at (opened_files s) fh = Some f"
    "fdmap s' = (fdmap s)(k := None)" "drivers s' = drivers s" "pool_inv (opened_files s')"
    "at (opened_files s') = (at (opened_files s))
       (fh := if of_ref_count f = 1 then None else Some (f\<lparr>of_ref_count := of_ref_count f - 1\<rparr>))"
  shows "counts_ok s'"
proof -
  have k: "k \<in> users s fh" using assms(3) by (simp add: users_def)
  have fin: "finite (users s fh)" by (rule users_finite [OF assms(2)])
  have f: "of_ref_count f = int (card (users s fh))" "file_driver f s \<noteq> None"
    using assms(1,4) by (auto simp: counts_ok_def split: option.splits dest: spec [of _ fh])
  have u: "users s' fh = users s fh - {k}" "g \<noteq> fh \<Longrightarrow> users s' g = users s g" for g
    using users_upd [OF assms(5)] assms(3) by (auto simp: users_def)
  have c: "card (users s' fh) = card (users s fh) - 1" using k fin by (simp add: u(1))
  have one: "of_ref_count f = 1 \<longleftrightarrow> users s' fh = {}"
    using k fin f(1) c by (metis card_gt_0_iff card_eq_0_iff empty_iff finite_Diff of_nat_1 of_nat_eq_iff u(1) One_nat_def
      Suc_pred diff_Suc_1 zero_less_iff_neq_zero)
  have pos: "0 < card (users s fh)" using k fin by (auto simp: card_gt_0_iff)
  show ?thesis unfolding counts_ok_def
  proof (intro conjI allI)
    fix g
    show "case at (opened_files s') g of None \<Rightarrow> users s' g = {}
      | Some f \<Rightarrow> users s' g \<noteq> {} \<and> of_ref_count f = int (card (users s' g)) \<and> file_driver f s' \<noteq> None"
    proof (cases "g = fh")
      case True
      then show ?thesis using assms(8) f one c pos file_driver_cong [OF assms(6)] by auto
    next
      case False
      then show ?thesis using assms(1,8) u(2) file_driver_cong [OF assms(6)]
        by (auto simp: counts_ok_def split: option.splits dest: spec [of _ g])
    qed
  qed (rule assms(7))
qed

lemma owned_upd:
  assumes "at (opened_files s') = (at (opened_files s))(fh := v)" "drivers s' = drivers s"
  shows "owned s' = (owned s)(fh := case v of
      Some f \<Rightarrow> if file_driver f s = Some LocalDriver then Some (of_local_handle f) else None | None \<Rightarrow> None)"
  using assms file_driver_cong [OF assms(2)] by (auto simp: owned_def fun_eq_iff split: option.splits)

lemma owned_live:
  assumes "locals_ok s" "owned s fh = Some h"
  obtains i lf where "h = int i" "at (locally_opened_files s) i = Some lf" "handle16 h = i"
proof -
  have "h \<in> int ` dom (at (locally_opened_files s))" using assms by (auto simp: locals_ok_def ran_def)
  then show thesis using that handle16_small [of "locally_opened_files s"] assms(1) by (auto simp: locals_ok_def)
qed

lemma locals_ok_drop:
  assumes "locals_ok s" "owned s fh = Some (int i)" "owned s' = (owned s)(fh := None)"
    "pool_inv (locally_opened_files s')" "at (locally_opened_files s') = (at (locally_opened_files s))(i := None)"
  shows "locals_ok s'"
proof -
  have inj: "inj_on (owned s) (dom (owned s))" and ran: "ran (owned s) = int ` dom (at (locally_opened_files s))"
    using assms(1) by (auto simp: locals_ok_def)
  have "ran (owned s') = ran (owned s) - {int i}"
  proof -
    have "owned s a = Some (int i) \<Longrightarrow> a = fh" for a using inj assms(2) by (auto simp: inj_on_def dom_def)
    then have "(\<exists>a. (if a = fh then None else owned s a) = Some x) \<longleftrightarrow> (\<exists>a. owned s a = Some x) \<and> x \<noteq> int i" for x
      using assms(2) by (metis option.distinct(1) option.inject)
    then show ?thesis unfolding ran_def assms(3) fun_upd_apply by blast
  qed
  moreover have "int ` dom (at (locally_opened_files s')) = int ` dom (at (locally_opened_files s)) - {int i}"
    using assms(5) by auto
  moreover have "inj_on (owned s') (dom (owned s'))" using inj assms(3) by (auto simp: inj_on_def dom_def)
  ultimately show ?thesis using ran assms(4) by (simp add: locals_ok_def)
qed

lemma locals_ok_cong:
  "locals_ok s \<Longrightarrow> owned s' = owned s \<Longrightarrow> locally_opened_files s' = locally_opened_files s \<Longrightarrow> locals_ok s'"
  by (simp add: locals_ok_def)

lemma vfs_close_fd:
  assumes "files_ok s" "vfs_close ctx fd s = Inr x"
  obtains fh where "fdmap s (ctx, fd) = Some fh"
proof -
  obtain c fh where c: "get (contexts s) ctx = Inr c" "get (descriptors c) fd = Inr fh" using assms(2) by (auto simp: vfs_close_def)
  have pc: "contexts_ok s" using assms(1) by (simp add: files_ok_def)
  have "at (contexts s) ctx = Some c" using c(1) pc by (simp add: get_at contexts_ok_def split: option.splits)
  moreover from this have "at (descriptors c) fd = Some fh" using c(2) pc by (auto simp: get_at contexts_ok_def split: option.splits)
  ultimately show thesis using that by (auto simp: fdmap_Some)
qed

lemma vfs_close_keeps:
  assumes ok: "files_ok s" and r: "vfs_close ctx fd s = Inr (r, s')"
  shows "files_ok s' \<and> fdmap s (ctx, fd) \<noteq> None \<and> fdmap s' = (fdmap s)((ctx, fd) := None) \<and>
    dom (at (contexts s')) = dom (at (contexts s)) \<and> drivers s' = drivers s"
proof -
  obtain fh where k: "fdmap s (ctx, fd) = Some fh" by (rule vfs_close_fd [OF ok r])
  obtain f drv where f: "at (opened_files s) fh = Some f" "file_driver f s = Some drv" by (rule files_ok_file [OF ok k])
  have parts: "contexts_ok s" "counts_ok s" "locals_ok s" "pool_inv (drivers s)" using ok by (auto simp: files_ok_def)
  obtain cs p where e: "let s2 = s\<lparr>contexts := cs, opened_files := p\<rparr> in
      vfs_close ctx fd s =
        (if of_ref_count f = 1
         then bindR (case driver_close drv of Some g \<Rightarrow> g (of_local_handle f) s2 | None \<Rightarrow> Inr (0, s2)) (\<lambda>(r, s3).
              bindR (erase fh (opened_files s3)) (\<lambda>q. Inr (r, s3\<lparr>opened_files := q\<rparr>)))
         else Inr (0, s2)) \<and>
      contexts_ok s2 \<and> fdmap s2 = (fdmap s)((ctx, fd) := None) \<and> dom (at cs) = dom (at (contexts s)) \<and>
      pool_inv p \<and> at p = (at (opened_files s))(fh \<mapsto> f\<lparr>of_ref_count := of_ref_count f - 1\<rparr>)"
    using vfs_close_eq [OF ok k f] by blast
  define s2 where "s2 = s\<lparr>contexts := cs, opened_files := p\<rparr>"
  have e': "contexts_ok s2" "fdmap s2 = (fdmap s)((ctx, fd) := None)" "dom (at (contexts s2)) = dom (at (contexts s))"
      "pool_inv p" "at p = (at (opened_files s))(fh \<mapsto> f\<lparr>of_ref_count := of_ref_count f - 1\<rparr>)"
      "locally_opened_files s2 = locally_opened_files s" "drivers s2 = drivers s" "opened_files s2 = p"
    using e by (simp_all add: s2_def Let_def)
  show ?thesis
  proof (cases "of_ref_count f = 1")
    case False
    then have s': "s' = s2" using r e by (simp add: s2_def Let_def)
    have "counts_ok s2"
      by (rule counts_ok_close [OF parts(2,1) k f(1)]) (use False e' in simp_all)
    moreover have "owned s2 = owned s" using owned_upd [of s2 s fh] e' f by (auto simp: owned_def fun_eq_iff)
    ultimately show ?thesis
      using s' k e' parts locals_ok_cong [OF parts(3), of s2] by (simp add: files_ok_def)
  next
    case True
    have "bindR (case driver_close drv of Some g \<Rightarrow> g (of_local_handle f) s2 | None \<Rightarrow> Inr (0, s2)) (\<lambda>(r, s3).
        bindR (erase fh (opened_files s3)) (\<lambda>q. Inr (r, s3\<lparr>opened_files := q\<rparr>))) = vfs_close ctx fd s"
      unfolding s2_def using e True by (simp add: Let_def)
    then obtain s3 q where s3: "(case driver_close drv of Some g \<Rightarrow> g (of_local_handle f) s2 | None \<Rightarrow> Inr (0, s2)) = Inr (r, s3)"
        "erase fh (opened_files s3) = Inr q" "s' = s3\<lparr>opened_files := q\<rparr>"
      unfolding r by (auto simp del: fun_upd_apply)
    have s3': "drv = LocalDriver \<and> (\<exists>l. s3 = s2\<lparr>locally_opened_files := l\<rparr> \<and> erase (handle16 (of_local_handle f)) (locally_opened_files s) = Inr l) \<or>
        drv \<noteq> LocalDriver \<and> (\<exists>d. s3 = s2\<lparr>devstate := d\<rparr>)"
    proof (cases "driver_close drv")
      case None
      then have "drv \<noteq> LocalDriver" by (auto simp: driver_close_def)
      moreover have "s3 = s2\<lparr>devstate := devstate s2\<rparr>" using s3(1) None by simp
      ultimately show ?thesis by blast
    next
      case (Some g)
      then show ?thesis using driver_close_frame [OF Some, of "of_local_handle f" s2 r s3] s3(1) e'(6) by simp
    qed
    then have frame: "contexts s3 = contexts s2" "opened_files s3 = p" "drivers s3 = drivers s" using e' by auto
    have q: "pool_inv q" "at q = (at (opened_files s))(fh := None)"
      using erase_step [of p fh q] s3(2) frame e' by auto
    have fd: "fdmap s' = (fdmap s)((ctx, fd) := None)" using frame(1) e'(2) s3(3) by (simp add: fdmap_def)
    have cnt: "counts_ok s'"
      by (rule counts_ok_close [OF parts(2,1) k f(1) fd]) (use True frame q s3(3) in simp_all)
    have own: "owned s' = (owned s)(fh := None)" using owned_upd [of s' s fh None] q frame s3(3) by simp
    have "locals_ok s'"
      using s3'
    proof (elim disjE conjE exE)
      fix l assume l: "drv = LocalDriver" "s3 = s2\<lparr>locally_opened_files := l\<rparr>" "erase (handle16 (of_local_handle f)) (locally_opened_files s) = Inr l"
      have o: "owned s fh = Some (of_local_handle f)" using f l(1) by (simp add: owned_def)
      obtain i lf where i: "of_local_handle f = int i" "handle16 (of_local_handle f) = i" by (rule owned_live [OF parts(3) o])
      have "pool_inv l \<and> at l = (at (locally_opened_files s))(i := None)"
        using erase_step [of "locally_opened_files s" i l] l(3) i(2) parts(3) by (simp add: locals_ok_def)
      then show ?thesis using locals_ok_drop [OF parts(3) _ own, of i] o i(1) l(2) s3(3) by simp
    next
      fix d assume d: "drv \<noteq> LocalDriver" "s3 = s2\<lparr>devstate := d\<rparr>"
      have "owned s' = owned s" using own f d(1) by (auto simp: owned_def fun_eq_iff)
      then show ?thesis using locals_ok_cong [OF parts(3), of s'] d(2) s3(3) e'(6) by simp
    qed
    then show ?thesis
      using k fd cnt frame e' s3(3) parts by (simp add: files_ok_def contexts_ok_def)
  qed
qed

subsection \<open>Opening a file\<close>

lemma open_locally_result:
  assumes "open_locally path s = Inr (h, s')" "pool_inv (locally_opened_files s)"
  shows "h < 0 \<and> s' = s \<or> (\<exists>i l. h = int i \<and> s' = s\<lparr>locally_opened_files := l\<rparr> \<and> pool_inv l \<and>
    at (locally_opened_files s) i = None \<and> dom (at l) = insert i (dom (at (locally_opened_files s))))"
proof -
  from assms(1) obtain n where n: "vfs_lookup path s = Inr n"
    "(if n = END_SENTINEL then Inr (ENOENT, s)
      else bindR (emplace_anywhere \<lparr>lf_node = n, lf_position = 0\<rparr> (locally_opened_files s)) (\<lambda>(p, h).
        Inr (int h, s\<lparr>locally_opened_files := p\<rparr>))) = Inr (h, s')"
    by (auto simp: open_locally_def)
  show ?thesis
  proof (cases "n = END_SENTINEL")
    case True
    then show ?thesis using n(2) by (simp add: ENOENT_def)
  next
    case False
    then obtain l i where l: "emplace_anywhere \<lparr>lf_node = n, lf_position = 0\<rparr> (locally_opened_files s) = Inr (l, i)"
        "h = int i" "s' = s\<lparr>locally_opened_files := l\<rparr>" using n(2) by auto
    then show ?thesis using pl.alloc_step [OF assms(2) l(1)] by auto
  qed
qed

lemma driver_open_frame:
  assumes "driver_open drv = Some g" "g opaque path flags s = Inr (h, s')"
  shows "drv = LocalDriver \<and> open_locally path s = Inr (h, s') \<or> drv \<noteq> LocalDriver \<and> (\<exists>d. s' = s\<lparr>devstate := d\<rparr>)"
  using assms by (cases drv) (auto simp: driver_open_def on_devstate_def)

lemma files_ok_devstate [simp]: "files_ok (s\<lparr>devstate := d\<rparr>) = files_ok s"
  by (simp add: files_ok_def counts_ok_def locals_ok_def users_def owned_def [abs_def] cong: option.case_cong)

lemma counts_ok_open:
  assumes "counts_ok s" "at (opened_files s) fh = None" "fdmap s k = None" "of_ref_count f = 1" "file_driver f s \<noteq> None"
    "fdmap s' = (fdmap s)(k := Some fh)" "drivers s' = drivers s" "pool_inv (opened_files s')"
    "at (opened_files s') = (at (opened_files s))(fh := Some f)"
  shows "counts_ok s'"
  unfolding counts_ok_def
proof (intro conjI allI)
  fix g
  have e: "users s fh = {}" using assms(1,2) by (auto simp: counts_ok_def split: option.splits dest: spec [of _ fh])
  have u: "users s' g = (if g = fh then {k} else users s g)"
    using users_upd [OF assms(6), of g] e assms(3) by (auto simp: users_def)
  show "case at (opened_files s') g of None \<Rightarrow> users s' g = {}
      | Some f \<Rightarrow> users s' g \<noteq> {} \<and> of_ref_count f = int (card (users s' g)) \<and> file_driver f s' \<noteq> None"
  proof (cases "g = fh")
    case True
    then show ?thesis using assms(4,5,9) u file_driver_cong [OF assms(7)] by simp
  next
    case False
    then show ?thesis using assms(1,9) u file_driver_cong [OF assms(7)]
      by (auto simp: counts_ok_def split: option.splits dest: spec [of _ g])
  qed
qed (rule assms(8))

lemma locals_ok_add:
  assumes "locals_ok s" "owned s fh = None" "owned s' = (owned s)(fh \<mapsto> int i)"
    "pool_inv (locally_opened_files s')" "at (locally_opened_files s) i = None"
    "dom (at (locally_opened_files s')) = insert i (dom (at (locally_opened_files s)))"
  shows "locals_ok s'"
proof -
  have inj: "inj_on (owned s) (dom (owned s))" and ran: "ran (owned s) = int ` dom (at (locally_opened_files s))"
    using assms(1) by (auto simp: locals_ok_def)
  have i: "int i \<notin> ran (owned s)" using ran assms(5) by auto
  have "ran (owned s') = insert (int i) (ran (owned s))" using assms(2,3) by (simp add: ran_map_upd)
  moreover have "inj_on (owned s') (dom (owned s'))"
    using inj i assms(3) by (auto simp: inj_on_def ran_def dom_def)
  ultimately show ?thesis using ran assms(4,6) by (simp add: locals_ok_def)
qed

lemma vfs_open_cases:
  assumes "vfs_open ctx filename flags s = Inr (r, s')"
  obtains (unchanged) e where "r = Inl e" "s' = s"
  | (failed) e drv g opaque rest where "r = Inl e" "e < 0" "driver_open drv = Some g" "g opaque rest flags s = Inr (e, s')"
  | (opened) dev drv g opaque rest h s1 p ofh c ds fd where "at (drivers s) dev \<noteq> None"
      "Option.bind (at (drivers s) dev) dev_driver = Some drv" "driver_open drv = Some g"
      "g opaque rest flags s = Inr (h, s1)" "0 \<le> h"
      "emplace_anywhere \<lparr>of_device = dev, of_local_handle = h, of_flags = flags, of_ref_count = 1\<rparr> (opened_files s1) = Inr (p, ofh)"
      "get (contexts s1) ctx = Inr c" "emplace_anywhere ofh (descriptors c) = Inr (ds, fd)"
      "put_descriptors ctx ds (s1\<lparr>opened_files := p\<rparr>) = Inr s'" "r = Inr fd"
proof -
  from assms obtain node_idx rest node dev where a: "find_first_driver s (root_dir s) filename = Inr (node_idx, rest)"
      "get (nodes s) node_idx = Inr node" "get (drivers s) (info_node node) = Inr dev"
      "(case dev_driver dev of None \<Rightarrow> Inl Panic
        | Some drv \<Rightarrow> case driver_open drv of None \<Rightarrow> Inr (Inl ENOSUPPORT, s)
          | Some f \<Rightarrow> bindR (f (dev_opaque dev) rest flags s) (\<lambda>(h, s1).
               if h < 0 then Inr (Inl h, s1)
               else bindR (emplace_anywhere \<lparr>of_device = info_node node, of_local_handle = h,
                             of_flags = flags, of_ref_count = 1\<rparr> (opened_files s1)) (\<lambda>(p, ofh).
                    bindR (get (contexts s1) ctx) (\<lambda>c.
                    bindR (emplace_anywhere ofh (descriptors c)) (\<lambda>(ds, fd).
                    bindR (put_descriptors ctx ds (s1\<lparr>opened_files := p\<rparr>)) (\<lambda>s2. Inr (Inr fd, s2))))))) = Inr (r, s')"
    unfolding vfs_open_def by auto
  have dev: "at (drivers s) (info_node node) = Some dev"
    using a(3) by (auto simp: get_def at_def split: option.splits)
  from a(4) obtain drv where drv: "dev_driver dev = Some drv" by (auto split: option.splits)
  show thesis
  proof (cases "driver_open drv")
    case None
    then show thesis using a(4) drv by (intro unchanged) auto
  next
    case (Some g)
    then obtain h s1 where g: "g (dev_opaque dev) rest flags s = Inr (h, s1)"
        "(if h < 0 then Inr (Inl h, s1)
          else bindR (emplace_anywhere \<lparr>of_device = info_node node, of_local_handle = h,
                             of_flags = flags, of_ref_count = 1\<rparr> (opened_files s1)) (\<lambda>(p, ofh).
                    bindR (get (contexts s1) ctx) (\<lambda>c.
                    bindR (emplace_anywhere ofh (descriptors c)) (\<lambda>(ds, fd).
                    bindR (put_descriptors ctx ds (s1\<lparr>opened_files := p\<rparr>)) (\<lambda>s2. Inr (Inr fd, s2)))))) = Inr (r, s')"
      using a(4) drv by auto
    show thesis
    proof (cases "h < 0")
      case True
      then show thesis using failed [OF _ _ Some] g by auto
    next
      case False
      then obtain p ofh c ds fd where x: "emplace_anywhere \<lparr>of_device = info_node node, of_local_handle = h,
            of_flags = flags, of_ref_count = 1\<rparr> (opened_files s1) = Inr (p, ofh)" "get (contexts s1) ctx = Inr c"
          "emplace_anywhere ofh (descriptors c) = Inr (ds, fd)"
          "put_descriptors ctx ds (s1\<lparr>opened_files := p\<rparr>) = Inr s'" "r = Inr fd"
        using g(2) by auto
      show thesis
        by (rule opened [of "info_node node" drv g "dev_opaque dev" rest h s1 p ofh c ds fd])
           (use x dev drv False Some g(1) in simp_all)
    qed
  qed
qed

lemma vfs_open_keeps:
  assumes ok: "files_ok s" and r: "vfs_open ctx filename flags s = Inr (r, s')"
  shows "files_ok s' \<and> drivers s' = drivers s \<and> dom (at (contexts s')) = dom (at (contexts s)) \<and>
    (case r of Inl e \<Rightarrow> fdmap s' = fdmap s
     | Inr fd \<Rightarrow> \<exists>fh. fdmap s (ctx, fd) = None \<and> at (opened_files s) fh = None \<and> fdmap s' = (fdmap s)((ctx, fd) \<mapsto> fh))"
  using r
proof (cases rule: vfs_open_cases)
  case (unchanged e)
  then show ?thesis using ok by simp
next
  case (failed e drv g opaque rest)
  have "pool_inv (locally_opened_files s)" using ok by (simp add: files_ok_def locals_ok_def)
  then have "\<exists>d. s' = s\<lparr>devstate := d\<rparr>"
    using driver_open_frame [OF failed(3,4)] open_locally_result [of rest s e s'] failed(2)
    by (auto intro: exI [of _ "devstate s"])
  then show ?thesis using ok failed(1) by auto
next
  case (opened dev drv g opaque rest h s1 p ofh c ds fd)
  let ?f = "\<lparr>of_device = dev, of_local_handle = h, of_flags = flags, of_ref_count = 1\<rparr>"
  have parts: "contexts_ok s" "counts_ok s" "locals_ok s" "pool_inv (drivers s)" "pool_inv (opened_files s)"
      "pool_inv (locally_opened_files s)" using ok by (auto simp: files_ok_def counts_ok_def locals_ok_def)
  have fr: "drv = LocalDriver \<and> (\<exists>i l. h = int i \<and> s1 = s\<lparr>locally_opened_files := l\<rparr> \<and> pool_inv l \<and>
        at (locally_opened_files s) i = None \<and> dom (at l) = insert i (dom (at (locally_opened_files s)))) \<or>
      drv \<noteq> LocalDriver \<and> (\<exists>d. s1 = s\<lparr>devstate := d\<rparr>)"
    using driver_open_frame [OF opened(3,4)] open_locally_result [OF _ parts(6), of rest h s1] opened(5) by auto
  then have s1: "contexts s1 = contexts s" "opened_files s1 = opened_files s" "drivers s1 = drivers s" by auto
  have p: "pool_inv p" "at (opened_files s) ofh = None" "at p = (at (opened_files s))(ofh \<mapsto> ?f)"
    using pl.alloc_step [of "opened_files s1", OF _ opened(6)] parts(5) s1 by auto
  have c: "at (contexts s) ctx = Some c"
    using opened(7) parts(1) s1(1) by (auto simp: get_at contexts_ok_def split: option.splits)
  have cd: "pool_inv (descriptors c)" "capacity (descriptors c) = 16" using parts(1) c by (auto simp: contexts_ok_def)
  have ds: "pool_inv ds" "capacity ds = 16" "at (descriptors c) fd = None" "at ds = (at (descriptors c))(fd \<mapsto> ofh)"
    using pl.alloc_step [OF cd(1) opened(8)] cd(2) by auto
  let ?s = "s1\<lparr>opened_files := p\<rparr>"
  have co: "contexts_ok ?s" "at (contexts ?s) ctx = Some c" using parts(1) s1(1) c by (simp_all add: contexts_ok_def)
  note put = put_descriptors_result [OF co(1) opened(9) ds(1,2) co(2) ds(4)]
  obtain cs where cs: "s' = ?s\<lparr>contexts := cs\<rparr>" using put(4) by blast
  have fdm: "fdmap s' = (fdmap s)((ctx, fd) \<mapsto> ofh)" using put(2) s1(1) by (simp add: fdmap_def)
  have new: "fdmap s (ctx, fd) = None" using c ds(3) by (simp add: fdmap_def)
  have drv: "file_driver ?f s = Some drv" using opened(2) by (simp add: file_driver_def)
  have cnt: "counts_ok s'"
    by (rule counts_ok_open [OF parts(2) p(2) new _ _ fdm, of ?f]) (use drv s1 p cs in simp_all)
  have own: "owned s' = (owned s)(ofh := if drv = LocalDriver then Some h else None)"
    using owned_upd [of s' s ofh "Some ?f"] drv p(3) s1(3) cs by simp
  have none: "owned s ofh = None" using p(2) by (simp add: owned_def)
  have "locals_ok s'"
    using fr
  proof (elim disjE conjE exE)
    fix i l
    assume l: "drv = LocalDriver" "h = int i" "s1 = s\<lparr>locally_opened_files := l\<rparr>" "pool_inv l"
        "at (locally_opened_files s) i = None" "dom (at l) = insert i (dom (at (locally_opened_files s)))"
    show ?thesis by (rule locals_ok_add [OF parts(3) none]) (use own l cs in simp_all)
  next
    fix d
    assume d: "drv \<noteq> LocalDriver" "s1 = s\<lparr>devstate := d\<rparr>"
    have "owned s' = owned s" using own none d(1) by (auto simp: fun_eq_iff)
    then show ?thesis using locals_ok_cong [OF parts(3), of s'] cs d(2) by simp
  qed
  then show ?thesis using put(1,3) cnt cs s1 parts(4) fdm new p(2) opened(10) by (auto simp: files_ok_def)
qed

subsection \<open>Sharing a file\<close>

lemma counts_ok_share:
  assumes "counts_ok s" "contexts_ok s" "at (opened_files s) fh = Some f" "fdmap s k = None"
    "fdmap s' = (fdmap s)(k \<mapsto> fh)" "drivers s' = drivers s" "pool_inv (opened_files s')"
    "at (opened_files s') = (at (opened_files s))(fh \<mapsto> f\<lparr>of_ref_count := of_ref_count f + 1\<rparr>)"
  shows "counts_ok s'"
  unfolding counts_ok_def
proof (intro conjI allI)
  fix g
  have f: "of_ref_count f = int (card (users s fh))" "file_driver f s \<noteq> None"
    using assms(1,3) by (auto simp: counts_ok_def split: option.splits dest: spec [of _ fh])
  have k: "k \<notin> users s fh" using assms(4) by (simp add: users_def)
  have u: "users s' g = (if g = fh then insert k (users s g) else users s g)"
    using users_upd [OF assms(5), of g] assms(4) by (auto simp: users_def)
  show "case at (opened_files s') g of None \<Rightarrow> users s' g = {}
      | Some f \<Rightarrow> users s' g \<noteq> {} \<and> of_ref_count f = int (card (users s' g)) \<and> file_driver f s' \<noteq> None"
  proof (cases "g = fh")
    case True
    then show ?thesis using assms(8) u f k users_finite [OF assms(2), of fh] file_driver_cong [OF assms(6)] by simp
  next
    case False
    then show ?thesis using assms(1,8) u file_driver_cong [OF assms(6)]
      by (auto simp: counts_ok_def split: option.splits dest: spec [of _ g])
  qed
qed (rule assms(7))

lemma get_fd:
  assumes "contexts_ok s" "get (contexts s) ctx = Inr c"
  shows "at (contexts s) ctx = Some c" "pool_inv (descriptors c)" "capacity (descriptors c) = 16"
    "get (descriptors c) fd = Inr fh \<longleftrightarrow> fdmap s (ctx, fd) = Some fh"
    "valid fd (descriptors c) \<longleftrightarrow> fdmap s (ctx, fd) \<noteq> None"
proof -
  show 1: "at (contexts s) ctx = Some c" using assms by (auto simp: get_at contexts_ok_def split: option.splits)
  then show 2: "pool_inv (descriptors c)" "capacity (descriptors c) = 16" using assms(1) by (auto simp: contexts_ok_def)
  show "get (descriptors c) fd = Inr fh \<longleftrightarrow> fdmap s (ctx, fd) = Some fh"
    using 1 by (auto simp: get_at 2 fdmap_def split: option.splits)
  show "valid fd (descriptors c) \<longleftrightarrow> fdmap s (ctx, fd) \<noteq> None"
    using 1 by (simp add: valid_at 2 fdmap_def)
qed

text \<open>The last part of \<open>vfs_alias_fd\<close>, once the destination is free.\<close>

lemma share_fd:
  assumes ok: "files_ok s" and src: "fdmap s (src, sfd) = Some fh" and free: "fdmap s (dst, dfd) = None"
    and g: "get (contexts s) dst = Inr dest" "emplace dfd fh (descriptors dest) = Inr ds" "put_descriptors dst ds s = Inr s2"
    and f: "get (opened_files s2) fh = Inr fl" "set_ref_count fh (of_ref_count fl + 1) s2 = Inr s3"
  shows "files_ok s3 \<and> fdmap s3 = (fdmap s)((dst, dfd) \<mapsto> fh) \<and> dom (at (contexts s3)) = dom (at (contexts s)) \<and> drivers s3 = drivers s"
proof -
  have parts: "contexts_ok s" "counts_ok s" "locals_ok s" "pool_inv (drivers s)" "pool_inv (opened_files s)"
    using ok by (auto simp: files_ok_def counts_ok_def)
  note d = get_fd [OF parts(1) g(1)]
  have ds: "pool_inv ds" "capacity ds = 16" "at ds = (at (descriptors dest))(dfd \<mapsto> fh)"
    using pl.put_step [OF d(2) g(2)] d(3) by auto
  note put = put_descriptors_result [OF parts(1) g(3) ds(1,2) d(1) ds(3)]
  obtain cs where cs: "s2 = s\<lparr>contexts := cs\<rparr>" using put(4) by blast
  have fl: "at (opened_files s) fh = Some fl" using f(1) cs parts(5) by (auto simp: get_at split: option.splits)
  obtain p where p: "s3 = s2\<lparr>opened_files := p\<rparr>" "pool_inv p"
      "at p = (at (opened_files s))(fh \<mapsto> fl\<lparr>of_ref_count := of_ref_count fl + 1\<rparr>)"
    using set_ref_count_result [of s2 fh fl "of_ref_count fl + 1"] f(2) cs parts(5) fl by auto
  have fdm: "fdmap s3 = (fdmap s)((dst, dfd) \<mapsto> fh)" using put(2) p(1) by simp
  have "counts_ok s3"
    by (rule counts_ok_share [OF parts(2,1) fl free fdm]) (use p cs in simp_all)
  moreover have "owned s3 = owned s"
    using owned_upd [of s3 s fh] p cs fl by (auto simp: owned_def fun_eq_iff)
  ultimately show ?thesis
    using put(1,3) fdm p cs parts locals_ok_cong [OF parts(3), of s3] by (simp add: files_ok_def)
qed

lemma vfs_alias_fd_keeps:
  assumes ok: "files_ok s" and r: "vfs_alias_fd src sfd dst dfd s = Inr (r, s')"
  shows "files_ok s' \<and> dom (at (contexts s')) = dom (at (contexts s)) \<and> drivers s' = drivers s \<and>
    fdmap s' = (case fdmap s (src, sfd) of None \<Rightarrow> fdmap s | Some fh \<Rightarrow> (fdmap s)((dst, dfd) \<mapsto> fh))"
proof -
  have c_ok: "contexts_ok s" using ok by (simp add: files_ok_def)
  from r obtain source dest where sd: "get (contexts s) src = Inr source" "get (contexts s) dst = Inr dest"
    by (auto simp: vfs_alias_fd_def)
  note gs = get_fd [OF c_ok sd(1)] and gd = get_fd [OF c_ok sd(2)]
  show ?thesis
  proof (cases "fdmap s (src, sfd)")
    case None
    then have "s' = s" using r sd gs(5) by (simp add: vfs_alias_fd_def)
    then show ?thesis using ok None by simp
  next
    case (Some fh)
    then have src: "get (descriptors source) sfd = Inr fh" "valid sfd (descriptors source)" using gs(4,5) by auto
    show ?thesis
    proof (cases "fdmap s (dst, dfd) = Some fh")
      case True
      then have "get (descriptors dest) dfd = Inr fh" "valid dfd (descriptors dest)" using gd(4,5) by auto
      then have "s' = s" using r sd src by (simp add: vfs_alias_fd_def)
      then show ?thesis using ok True Some by (auto simp: fun_eq_iff)
    next
      case False
      have same: "(if valid dfd (descriptors dest) then bindR (get (descriptors dest) dfd) (\<lambda>g. Inr (g = fh)) else Inr False) = Inr False"
        using False gd(4,5) by (cases "fdmap s (dst, dfd)") auto
      from r [unfolded vfs_alias_fd_def sd] obtain s1 source1 dest1 fh1 ds s2 source2 fh2 fl s3 where
        st: "(if valid dfd (descriptors dest) then bindR (vfs_close dst dfd s) (\<lambda>(_, s1). Inr s1) else Inr s) = Inr s1"
          "get (contexts s1) src = Inr source1" "get (descriptors source1) sfd = Inr fh1" "get (contexts s1) dst = Inr dest1"
          "emplace dfd fh1 (descriptors dest1) = Inr ds" "put_descriptors dst ds s1 = Inr s2" "get (contexts s2) src = Inr source2"
          "get (descriptors source2) sfd = Inr fh2" "get (opened_files s2) fh2 = Inr fl"
          "set_ref_count fh2 (of_ref_count fl + 1) s2 = Inr s3" "s' = s3"
        using src by (simp add: same) blast
      have "files_ok s1 \<and> fdmap s1 = (fdmap s)((dst, dfd) := None) \<and> dom (at (contexts s1)) = dom (at (contexts s)) \<and> drivers s1 = drivers s"
      proof (cases "valid dfd (descriptors dest)")
        case True
        then obtain a where "vfs_close dst dfd s = Inr (a, s1)" using st(1) by auto
        from vfs_close_keeps [OF ok this] show ?thesis by simp
      next
        case False
        then have "s1 = s" "fdmap s (dst, dfd) = None" using st(1) gd(5) by auto
        then show ?thesis using ok by (simp add: fun_upd_idem)
      qed
      then have s1: "files_ok s1" "fdmap s1 = (fdmap s)((dst, dfd) := None)" "dom (at (contexts s1)) = dom (at (contexts s))"
          "drivers s1 = drivers s" by auto
      have c1: "contexts_ok s1" using s1(1) by (simp add: files_ok_def)
      have neq: "(dst, dfd) \<noteq> (src, sfd)" using False Some by auto
      have fh1: "fh1 = fh" using get_fd(4) [OF c1 st(2)] st(3) s1(2) Some neq by (auto split: if_splits)
      note d1 = get_fd [OF c1 st(4)]
      have ds: "pool_inv ds" "capacity ds = 16" "at ds = (at (descriptors dest1))(dfd \<mapsto> fh)"
        using pl.put_step [OF d1(2) st(5)] d1(3) fh1 by auto
      note put = put_descriptors_result [OF c1 st(6) ds(1,2) d1(1) ds(3)]
      have fh2: "fh2 = fh" using get_fd(4) [OF put(1) st(7)] st(8) put(2) s1(2) Some neq by (auto split: if_splits)
      have src1: "fdmap s1 (src, sfd) = Some fh" "fdmap s1 (dst, dfd) = None" using s1(2) Some neq by auto
      show ?thesis
        using share_fd [OF s1(1) src1 st(4) _ st(6)] st(5,9,10,11) fh1 fh2 s1 Some by simp
    qed
  qed
qed

subsection \<open>Contexts\<close>

lemma vfs_create_context_keeps:
  assumes ok: "files_ok s" and r: "vfs_create_context s = Inr (r, s')"
  shows "files_ok s' \<and> fdmap s' = fdmap s \<and> drivers s' = drivers s \<and>
    (case r of Inl e \<Rightarrow> s' = s
     | Inr h \<Rightarrow> at (contexts s) h = None \<and> dom (at (contexts s')) = insert h (dom (at (contexts s))) \<and> (\<forall>fd. fdmap s (h, fd) = None))"
proof (cases "full (contexts s)")
  case True
  then show ?thesis using ok r by (auto simp: vfs_create_context_def)
next
  case False
  then obtain p h where p: "emplace_anywhere \<lparr>descriptors = fixed_pool 16\<rparr> (contexts s) = Inr (p, h)" "r = Inr h" "s' = s\<lparr>contexts := p\<rparr>"
    using r by (auto simp: vfs_create_context_def)
  have c_ok: "contexts_ok s" "pool_inv (contexts s)" using ok by (auto simp: files_ok_def contexts_ok_def)
  have e: "pool_inv p" "at (contexts s) h = None" "at p = (at (contexts s))(h \<mapsto> \<lparr>descriptors = fixed_pool 16\<rparr>)"
    using pl.alloc_step [OF c_ok(2) p(1)] by auto
  have fdm: "fdmap s' = fdmap s" using e p(3) by (auto simp: fdmap_def fun_eq_iff)
  have "contexts_ok s'" using c_ok e p(3) by (simp add: contexts_ok_def)
  moreover have "counts_ok s'" using ok p(3) fdm by (simp add: files_ok_def counts_ok_def users_def cong: option.case_cong)
  moreover have "owned s' = owned s" using p(3) by (simp add: owned_def fun_eq_iff cong: option.case_cong)
  then have "locals_ok s'" using ok p(3) locals_ok_cong [of s s'] by (simp add: files_ok_def)
  ultimately show ?thesis using ok fdm p e by (auto simp: files_ok_def fdmap_def)
qed

definition same_but :: "nat \<Rightarrow> 'd vfs \<Rightarrow> 'd vfs \<Rightarrow> bool" where
  "same_but ctx s s' \<longleftrightarrow> dom (at (contexts s')) = dom (at (contexts s)) \<and> drivers s' = drivers s \<and>
     (\<forall>c fd. c \<noteq> ctx \<longrightarrow> fdmap s' (c, fd) = fdmap s (c, fd))"

lemma same_but_refl [simp]: "same_but ctx s s"
  by (simp add: same_but_def)

lemma same_but_trans: "same_but ctx s t \<Longrightarrow> same_but ctx t u \<Longrightarrow> same_but ctx s u"
  by (simp add: same_but_def)

lemma close_loop_keeps:
  "files_ok s \<Longrightarrow> close_loop fuel sel ctx i s = Inr s' \<Longrightarrow>
   files_ok s' \<and> same_but ctx s s' \<and> (\<forall>fd. fdmap s' (ctx, fd) = None \<or> fdmap s' (ctx, fd) = fdmap s (ctx, fd)) \<and>
   ((\<forall>f. sel f) \<longrightarrow> (\<forall>fd \<ge> i. fdmap s' (ctx, fd) = None))"
proof (induction fuel arbitrary: i s)
  case (Suc fuel)
  have c_ok: "contexts_ok s" using Suc.prems(1) by (simp add: files_ok_def)
  from Suc.prems(2) obtain c where c: "get (contexts s) ctx = Inr c" by auto
  note g = get_fd [OF c_ok c]
  show ?case
  proof (cases "i < watermark (descriptors c)")
    case False
    then have s': "s' = s" using Suc.prems(2) c by simp
    have "fdmap s (ctx, fd) = None" if "i \<le> fd" for fd
      using g(5) [of fd] False that by (auto simp: valid_def)
    then show ?thesis using s' Suc.prems(1) by simp
  next
    case True
    then obtain s1 where s1: "(if valid i (descriptors c)
                 then bindR (get (descriptors c) i) (\<lambda>fh.
                      bindR (get (opened_files s) fh) (\<lambda>fl.
                      if sel fl then bindR (vfs_close ctx i s) (\<lambda>(_, s1). Inr s1) else Inr s))
                 else Inr s) = Inr s1" "close_loop fuel sel ctx (Suc i) s1 = Inr s'"
      using Suc.prems(2) c by auto
    have step: "files_ok s1 \<and> same_but ctx s s1 \<and> (fdmap s1 = fdmap s \<and> (fdmap s (ctx, i) = None \<or> \<not> (\<forall>f. sel f)) \<or>
        fdmap s1 = (fdmap s)((ctx, i) := None))"
    proof (cases "\<exists>r. vfs_close ctx i s = Inr (r, s1)")
      case True
      then obtain r where "vfs_close ctx i s = Inr (r, s1)" by blast
      from vfs_close_keeps [OF Suc.prems(1) this] show ?thesis by (simp add: same_but_def)
    next
      case False
      then have "s1 = s" "fdmap s (ctx, i) = None \<or> \<not> (\<forall>f. sel f)"
        using s1(1) g(5) [of i] by (auto split: if_splits)
      then show ?thesis using Suc.prems(1) by simp
    qed
    from Suc.IH [OF conjunct1 [OF step] s1(2)] have
      ih: "files_ok s'" "same_but ctx s1 s'" "\<forall>fd. fdmap s' (ctx, fd) = None \<or> fdmap s' (ctx, fd) = fdmap s1 (ctx, fd)"
        "(\<forall>f. sel f) \<longrightarrow> (\<forall>fd \<ge> Suc i. fdmap s' (ctx, fd) = None)" by auto
    have "fdmap s' (ctx, fd) = None" if "\<forall>f. sel f" "i \<le> fd" for fd
    proof (cases "fd = i")
      case True
      then have "fdmap s1 (ctx, fd) = None" using step that(1) by (auto simp: fun_eq_iff)
      then show ?thesis using ih(3) by metis
    qed (use ih(4) that in auto)
    moreover have "fdmap s' (ctx, fd) = None \<or> fdmap s' (ctx, fd) = fdmap s (ctx, fd)" for fd
      using ih(3) step by (metis fun_upd_apply)
    ultimately show ?thesis using ih(1) same_but_trans [OF _ ih(2)] step by blast
  qed
qed simp

lemma vfs_close_not_matching_keeps:
  "files_ok s \<Longrightarrow> vfs_close_not_matching ctx flags s = Inr s' \<Longrightarrow> files_ok s' \<and> same_but ctx s s'"
  unfolding vfs_close_not_matching_def using close_loop_keeps by blast

lemma vfs_destroy_context_keeps:
  assumes ok: "files_ok s" and r: "vfs_destroy_context ctx s = Inr s'"
  shows "files_ok s' \<and> drivers s' = drivers s \<and> at (contexts s) ctx \<noteq> None \<and>
    dom (at (contexts s')) = dom (at (contexts s)) - {ctx} \<and> fdmap s' = (\<lambda>(c, fd). if c = ctx then None else fdmap s (c, fd))"
proof -
  from r obtain s1 cs where s1: "close_loop 17 (\<lambda>_. True) ctx 0 s = Inr s1" "erase ctx (contexts s1) = Inr cs" "s' = s1\<lparr>contexts := cs\<rparr>"
    by (auto simp: vfs_destroy_context_def)
  have l: "files_ok s1" "same_but ctx s s1" "\<And>fd. fdmap s1 (ctx, fd) = None"
    using close_loop_keeps [OF ok s1(1)] by auto
  have c: "contexts_ok s1" "pool_inv (contexts s1)" using l(1) by (auto simp: files_ok_def contexts_ok_def)
  have e: "pool_inv cs" "at (contexts s1) ctx \<noteq> None" "at cs = (at (contexts s1))(ctx := None)"
    using erase_step [OF c(2) s1(2)] by auto
  have fdm: "fdmap s' = fdmap s1"
  proof
    fix k
    show "fdmap s' k = fdmap s1 k" using e(3) l(3) s1(3) by (cases k) (auto simp: fdmap_def)
  qed
  have dom: "dom (at (contexts s1)) = dom (at (contexts s))" using l(2) by (simp add: same_but_def)
  have "contexts_ok s'" using c e s1(3) by (simp add: contexts_ok_def)
  moreover have "counts_ok s'" using l(1) s1(3) fdm by (simp add: files_ok_def counts_ok_def users_def cong: option.case_cong)
  moreover have "owned s' = owned s1" using s1(3) by (simp add: owned_def fun_eq_iff cong: option.case_cong)
  then have "locals_ok s'" using l(1) s1(3) locals_ok_cong [of s1 s'] by (simp add: files_ok_def)
  ultimately have "files_ok s'" using l(1) s1(3) by (simp add: files_ok_def)
  moreover have "fdmap s' = (\<lambda>(c, fd). if c = ctx then None else fdmap s (c, fd))"
    using fdm l(2,3) by (auto simp: same_but_def fun_eq_iff)
  ultimately show ?thesis using l(2) e s1(3) dom by (auto simp: same_but_def)
qed

subsection \<open>Forking a context\<close>

lemma vfs_alias_fd_total:
  assumes ok: "files_ok s" and c: "at (contexts s) src \<noteq> None" "at (contexts s) dst \<noteq> None"
    and free: "fdmap s (dst, dfd) = None" and d: "dfd < 16"
  shows "\<exists>x. vfs_alias_fd src sfd dst dfd s = Inr x"
proof -
  have c_ok: "contexts_ok s" and pc: "pool_inv (contexts s)" and pf: "pool_inv (opened_files s)"
    using ok by (auto simp: files_ok_def counts_ok_def contexts_ok_def)
  obtain source dest where sd: "get (contexts s) src = Inr source" "get (contexts s) dst = Inr dest" using c by (auto simp: get_at pc)
  note gs = get_fd [OF c_ok sd(1)] and gd = get_fd [OF c_ok sd(2)]
  have nv: "\<not> valid dfd (descriptors dest)" using gd(5) free by simp
  show ?thesis
  proof (cases "fdmap s (src, sfd)")
    case None
    then show ?thesis using sd gs(5) by (simp add: vfs_alias_fd_def)
  next
    case (Some fh)
    then have src: "get (descriptors source) sfd = Inr fh" "valid sfd (descriptors source)" using gs(4,5) by auto
    obtain ds where ds: "emplace dfd fh (descriptors dest) = Inr ds" using pl.put_total [OF gd(2)] gd(3) d by metis
    have ds': "pool_inv ds" "capacity ds = 16" "at ds = (at (descriptors dest))(dfd \<mapsto> fh)"
      using pl.put_step [OF gd(2) ds] gd(3) by auto
    obtain s2 where s2: "put_descriptors dst ds s = Inr s2" using put_descriptors_total [OF c_ok gd(1)] by blast
    note put = put_descriptors_result [OF c_ok s2 ds'(1,2) gd(1) ds'(3)]
    obtain cs where cs: "s2 = s\<lparr>contexts := cs\<rparr>" using put(4) by blast
    have "at (contexts s2) src \<noteq> None" using put(3) c(1) by (auto simp: dom_def)
    then obtain source2 where s2c: "get (contexts s2) src = Inr source2"
      using put(1) by (auto simp: get_at contexts_ok_def)
    have "fdmap s2 (src, sfd) = Some fh" using put(2) Some free by auto
    then have fh2: "get (descriptors source2) sfd = Inr fh" using get_fd(4) [OF put(1) s2c] by simp
    obtain f drv where f: "at (opened_files s) fh = Some f" by (rule files_ok_file [OF ok Some])
    then have gf: "get (opened_files s2) fh = Inr f" using cs pf by (simp add: get_at)
    obtain s3 where "set_ref_count fh (of_ref_count f + 1) s2 = Inr s3"
      using set_ref_count_result [of s2 fh f] cs pf f by auto
    then show ?thesis using sd src nv ds s2 s2c fh2 gf by (simp add: vfs_alias_fd_def)
  qed
qed

lemma fork_loop_keeps:
  "files_ok s \<Longrightarrow> src \<noteq> dst \<Longrightarrow> at (contexts s) src \<noteq> None \<Longrightarrow> at (contexts s) dst \<noteq> None \<Longrightarrow>
   \<forall>fd \<ge> i. fdmap s (dst, fd) = None \<Longrightarrow> i \<le> 16 \<Longrightarrow> 16 - i < fuel \<Longrightarrow>
   \<exists>s'. fork_loop fuel src dst i s = Inr s' \<and> files_ok s' \<and> same_but dst s s' \<and>
     (\<forall>fd. fdmap s' (dst, fd) = (if i \<le> fd then fdmap s (src, fd) else fdmap s (dst, fd)))"
proof (induction fuel arbitrary: i s)
  case (Suc fuel)
  have c_ok: "contexts_ok s" and pc: "pool_inv (contexts s)" using Suc.prems(1) by (auto simp: files_ok_def contexts_ok_def)
  obtain c where c: "get (contexts s) src = Inr c" using Suc.prems(3) by (auto simp: get_at pc)
  note g = get_fd [OF c_ok c]
  show ?case
  proof (cases "i < watermark (descriptors c)")
    case False
    have "fdmap s (src, fd) = None" if "i \<le> fd" for fd using g(5) [of fd] False that by (auto simp: valid_def)
    then show ?thesis using False Suc.prems(1,5) c by (auto simp: not_le)
  next
    case True
    have i16: "i < 16" using True g(2,3) by (auto simp: pool_inv_def pool_rep_def capacity_def)
    obtain s1 where s1: "(if valid i (descriptors c) then bindR (vfs_alias_fd src i dst i s) (\<lambda>(_, s1). Inr s1) else Inr s) = Inr s1"
        "files_ok s1" "dom (at (contexts s1)) = dom (at (contexts s))" "drivers s1 = drivers s"
        "fdmap s1 = (fdmap s)((dst, i) := fdmap s (src, i))"
    proof (cases "fdmap s (src, i)")
      case None
      then show thesis using that [of s] g(5) [of i] Suc.prems(1,5) by (simp add: fun_upd_idem)
    next
      case (Some fh)
      obtain r s1 where a: "vfs_alias_fd src i dst i s = Inr (r, s1)"
        using vfs_alias_fd_total [OF Suc.prems(1,3,4), of i i] Suc.prems(5) i16 by auto
      then show thesis using that [of s1] g(5) [of i] Some vfs_alias_fd_keeps [OF Suc.prems(1) a] by simp
    qed
    have "at (contexts s1) src \<noteq> None" "at (contexts s1) dst \<noteq> None" using s1(3) Suc.prems(3,4) by (auto simp: dom_def)
    moreover have "15 - i < fuel" using Suc.prems(7) i16 by linarith
    ultimately obtain s' where s': "fork_loop fuel src dst (Suc i) s1 = Inr s'" "files_ok s'"
        "same_but dst s1 s'" "\<forall>fd. fdmap s' (dst, fd) = (if Suc i \<le> fd then fdmap s1 (src, fd) else fdmap s1 (dst, fd))"
      using Suc.IH [OF s1(2) Suc.prems(2), of "Suc i"] Suc.prems(5) s1(5) i16 by auto
    have "same_but dst s s1" using s1(3,4,5) by (simp add: same_but_def)
    then have "same_but dst s s'" using same_but_trans s'(3) by blast
    moreover have "fdmap s' (dst, fd) = (if i \<le> fd then fdmap s (src, fd) else fdmap s (dst, fd))" for fd
      using s'(4) s1(5) Suc.prems(2) by (cases "fd = i") auto
    ultimately show ?thesis using True s1(1) s'(1,2) c by (intro exI [of _ s']) simp
  qed
qed simp

lemma vfs_fork_context_ok:
  assumes ok: "files_ok s" and c: "at (contexts s) ctx \<noteq> None"
  shows "\<exists>r s'. vfs_fork_context ctx s = Inr (r, s') \<and> files_ok s' \<and> drivers s' = drivers s \<and>
    (case r of
       Inl e \<Rightarrow> full (contexts s) \<and> e = ENOSPACE \<and> s' = s
     | Inr n \<Rightarrow> at (contexts s) n = None \<and> dom (at (contexts s')) = insert n (dom (at (contexts s))) \<and>
         fdmap s' = (\<lambda>(c, fd). if c = n then fdmap s (ctx, fd) else fdmap s (c, fd)))"
proof (cases "full (contexts s)")
  case True
  then show ?thesis using ok by (simp add: vfs_fork_context_def vfs_create_context_def)
next
  case False
  have pc: "pool_inv (contexts s)" using ok by (simp add: files_ok_def contexts_ok_def)
  then obtain p n where "emplace_anywhere \<lparr>descriptors = fixed_pool 16\<rparr> (contexts s) = Inr (p, n)"
    using pl.alloc_total [OF pc] full_iff [OF pc] False by fastforce
  then obtain s1 where s1: "vfs_create_context s = Inr (Inr n, s1)" using False by (simp add: vfs_create_context_def)
  note k = vfs_create_context_keeps [OF ok s1]
  have d: "at (contexts s1) ctx \<noteq> None" "at (contexts s1) n \<noteq> None" "ctx \<noteq> n" using k c by (auto simp: dom_def)
  obtain s2 where s2: "fork_loop 17 ctx n 0 s1 = Inr s2" "files_ok s2" "same_but n s1 s2" "\<forall>fd. fdmap s2 (n, fd) = fdmap s1 (ctx, fd)"
    using fork_loop_keeps [of s1 ctx n 0 17] k d by auto
  have "fdmap s2 = (\<lambda>(c, fd). if c = n then fdmap s (ctx, fd) else fdmap s (c, fd))"
    using s2(3,4) k by (auto simp: same_but_def fun_eq_iff)
  then show ?thesis using s1 s2 k by (auto simp: vfs_fork_context_def same_but_def)
qed

subsection \<open>Closing returns\<close>

text \<open>
  What the filesystem relies on from the device drivers: their \<open>close\<close>, where they have one,
  returns.
\<close>

definition closers_return :: "'d vfs \<Rightarrow> bool" where
  "closers_return s \<longleftrightarrow> (\<forall>i dev ops g h d. at (drivers s) i = Some dev \<longrightarrow> dev_driver dev = Some (DeviceDriver ops) \<longrightarrow>
     op_close ops = Some g \<longrightarrow> (\<exists>r d'. g h d = Inr (r, d')))"

lemma driver_close_total:
  assumes "closers_return s" "file_driver f s = Some drv" "driver_close drv = Some g"
    "drv = LocalDriver \<longrightarrow> pool_inv (locally_opened_files s2) \<and> at (locally_opened_files s2) (handle16 h) \<noteq> None"
  shows "\<exists>r s3. g h s2 = Inr (r, s3)"
proof (cases drv)
  case LocalDriver
  then show ?thesis using assms(3,4) erase_total [of "locally_opened_files s2" "handle16 h"]
    by (auto simp: driver_close_def close_locally_def)
next
  case (DeviceDriver ops)
  then obtain k where k: "op_close ops = Some k" "g = (\<lambda>h. on_devstate (k h))" using assms(3) by (auto simp: driver_close_def)
  obtain dev where dev: "at (drivers s) (of_device f) = Some dev" "dev_driver dev = Some (DeviceDriver ops)"
    using assms(2) DeviceDriver by (auto simp: file_driver_def bind_eq_Some_conv)
  obtain r d' where "k h (devstate s2) = Inr (r, d')" using assms(1) dev k(1) unfolding closers_return_def by blast
  then show ?thesis by (simp add: k(2) on_devstate_def)
qed

lemma vfs_close_outcome:
  assumes ok: "files_ok s" and t: "closers_return s" and k: "fdmap s (ctx, fd) = Some fh"
    and f: "at (opened_files s) fh = Some f" "file_driver f s = Some drv"
  shows "\<exists>r s'. vfs_close ctx fd s = Inr (r, s') \<and> files_ok s' \<and> fdmap s' = (fdmap s)((ctx, fd) := None) \<and>
    (if users s fh = {(ctx, fd)}
     then at (opened_files s') = (at (opened_files s))(fh := None) \<and>
       (case driver_close drv of
          None \<Rightarrow> r = 0 \<and> devstate s' = devstate s \<and> locally_opened_files s' = locally_opened_files s
        | Some g \<Rightarrow> \<exists>s2 s3. g (of_local_handle f) s2 = Inr (r, s3) \<and> devstate s2 = devstate s \<and>
            locally_opened_files s2 = locally_opened_files s \<and> devstate s' = devstate s3 \<and>
            locally_opened_files s' = locally_opened_files s3)
     else r = 0 \<and> at (opened_files s') = (at (opened_files s))(fh \<mapsto> f\<lparr>of_ref_count := of_ref_count f - 1\<rparr>) \<and>
       devstate s' = devstate s \<and> locally_opened_files s' = locally_opened_files s)"
proof -
  have parts: "contexts_ok s" "counts_ok s" "locals_ok s" using ok by (auto simp: files_ok_def)
  have u: "of_ref_count f = int (card (users s fh))" "(ctx, fd) \<in> users s fh"
    using parts(2) f(1) k by (auto simp: counts_ok_def users_def split: option.splits dest: spec [of _ fh])
  have one: "of_ref_count f = 1 \<longleftrightarrow> users s fh = {(ctx, fd)}" using u by (auto simp: card_1_singleton_iff)
  obtain cs p where e: "let s2 = s\<lparr>contexts := cs, opened_files := p\<rparr> in
      vfs_close ctx fd s =
        (if of_ref_count f = 1
         then bindR (case driver_close drv of Some g \<Rightarrow> g (of_local_handle f) s2 | None \<Rightarrow> Inr (0, s2)) (\<lambda>(r, s3).
              bindR (erase fh (opened_files s3)) (\<lambda>q. Inr (r, s3\<lparr>opened_files := q\<rparr>)))
         else Inr (0, s2)) \<and>
      contexts_ok s2 \<and> fdmap s2 = (fdmap s)((ctx, fd) := None) \<and> dom (at cs) = dom (at (contexts s)) \<and>
      pool_inv p \<and> at p = (at (opened_files s))(fh \<mapsto> f\<lparr>of_ref_count := of_ref_count f - 1\<rparr>)"
    using vfs_close_eq [OF ok k f] by blast
  define s2 where "s2 = s\<lparr>contexts := cs, opened_files := p\<rparr>"
  show ?thesis
  proof (cases "users s fh = {(ctx, fd)}")
    case False
    then have "vfs_close ctx fd s = Inr (0, s2)" using e one by (simp add: s2_def Let_def)
    then show ?thesis using False vfs_close_keeps [OF ok, of ctx fd 0 s2] e by (simp add: s2_def Let_def)
  next
    case True
    have "drv = LocalDriver \<longrightarrow> pool_inv (locally_opened_files s2) \<and> at (locally_opened_files s2) (handle16 (of_local_handle f)) \<noteq> None"
    proof
      assume "drv = LocalDriver"
      then have "owned s fh = Some (of_local_handle f)" using f by (simp add: owned_def)
      then obtain i lf where "at (locally_opened_files s) i = Some lf" "handle16 (of_local_handle f) = i"
        by (rule owned_live [OF parts(3)])
      then show "pool_inv (locally_opened_files s2) \<and> at (locally_opened_files s2) (handle16 (of_local_handle f)) \<noteq> None"
        using parts(3) by (auto simp: s2_def locals_ok_def)
    qed
    then obtain r s3 where c: "(case driver_close drv of Some g \<Rightarrow> g (of_local_handle f) s2 | None \<Rightarrow> Inr (0, s2)) = Inr (r, s3)"
      using driver_close_total [OF t f(2)] by (cases "driver_close drv") force+
    have o3: "opened_files s3 = p"
      using c driver_close_frame [of drv _ "of_local_handle f" s2 r s3] by (cases "driver_close drv") (auto simp: s2_def)
    obtain q where q: "erase fh p = Inr q" using erase_total [of p fh] e by (auto simp: Let_def)
    have aq: "at q = (at (opened_files s))(fh := None)" using erase_step [OF _ q] e by (auto simp: Let_def)
    have cl: "vfs_close ctx fd s = Inr (r, s3\<lparr>opened_files := q\<rparr>)"
      using e True one c q o3 unfolding s2_def [symmetric] by (simp add: Let_def)
    have "case driver_close drv of
          None \<Rightarrow> r = 0 \<and> devstate s3 = devstate s \<and> locally_opened_files s3 = locally_opened_files s
        | Some g \<Rightarrow> \<exists>s2 s3'. g (of_local_handle f) s2 = Inr (r, s3') \<and> devstate s2 = devstate s \<and>
            locally_opened_files s2 = locally_opened_files s \<and> devstate s3 = devstate s3' \<and>
            locally_opened_files s3 = locally_opened_files s3'"
    proof (cases "driver_close drv")
      case None
      then show ?thesis using c by (auto simp: s2_def)
    next
      case (Some g)
      moreover have "devstate s2 = devstate s" "locally_opened_files s2 = locally_opened_files s" by (simp_all add: s2_def)
      ultimately show ?thesis using c by (simp only: option.case) blast
    qed
    then show ?thesis
      using True cl aq vfs_close_keeps [OF ok cl] by (intro exI [of _ r] exI [of _ "s3\<lparr>opened_files := q\<rparr>"]) (simp cong: option.case_cong)
  qed
qed

lemma close_loop_total:
  "files_ok s \<Longrightarrow> closers_return s \<Longrightarrow> at (contexts s) ctx \<noteq> None \<Longrightarrow> i \<le> 16 \<Longrightarrow> 16 - i < fuel \<Longrightarrow>
   \<exists>s'. close_loop fuel sel ctx i s = Inr s'"
proof (induction fuel arbitrary: i s)
  case (Suc fuel)
  have c_ok: "contexts_ok s" and pc: "pool_inv (contexts s)" and pf: "pool_inv (opened_files s)"
    using Suc.prems(1) by (auto simp: files_ok_def contexts_ok_def counts_ok_def)
  obtain c where c: "get (contexts s) ctx = Inr c" using Suc.prems(3) by (auto simp: get_at pc)
  note g = get_fd [OF c_ok c]
  show ?case
  proof (cases "i < watermark (descriptors c)")
    case True
    have i16: "i < 16" using True g(2,3) by (auto simp: pool_inv_def pool_rep_def capacity_def)
    have fuel: "15 - i < fuel" using Suc.prems(5) i16 by linarith
    have go: "\<exists>s'. close_loop fuel sel ctx (Suc i) s1 = Inr s'"
      if "files_ok s1" "drivers s1 = drivers s" "dom (at (contexts s1)) = dom (at (contexts s))" for s1
    proof (rule Suc.IH [OF that(1)])
      show "closers_return s1" using Suc.prems(2) that(2) by (simp add: closers_return_def)
      show "at (contexts s1) ctx \<noteq> None" using Suc.prems(3) that(3) by (auto simp: dom_def)
    qed (use i16 fuel in auto)
    show ?thesis
    proof (cases "fdmap s (ctx, i)")
      case None
      then show ?thesis using True c g(5) go [OF Suc.prems(1)] by simp
    next
      case (Some fh)
      then have v: "valid i (descriptors c)" "get (descriptors c) i = Inr fh" using g(4,5) by auto
      obtain f drv where f: "at (opened_files s) fh = Some f" "file_driver f s = Some drv" by (rule files_ok_file [OF Suc.prems(1) Some])
      obtain r s1 where s1: "vfs_close ctx i s = Inr (r, s1)" using vfs_close_outcome [OF Suc.prems(1,2) Some f] by blast
      have "\<exists>s'. close_loop fuel sel ctx (Suc i) s1 = Inr s'" using go vfs_close_keeps [OF Suc.prems(1) s1] by blast
      then show ?thesis using True c v f(1) s1 go [OF Suc.prems(1)] by (simp add: get_at pf)
    qed
  qed (use c in simp)
qed simp

lemma vfs_destroy_context_total:
  assumes "files_ok s" "closers_return s" "at (contexts s) ctx \<noteq> None"
  shows "\<exists>s'. vfs_destroy_context ctx s = Inr s'"
proof -
  obtain s1 where s1: "close_loop 17 (\<lambda>_. True) ctx 0 s = Inr s1" using close_loop_total [OF assms, of 0 17 "\<lambda>_. True"] by auto
  have k: "files_ok s1" "at (contexts s1) ctx \<noteq> None"
    using close_loop_keeps [OF assms(1) s1] assms(3) by (auto simp: same_but_def dom_def)
  then obtain cs where "erase ctx (contexts s1) = Inr cs" using erase_total [of "contexts s1" ctx] by (auto simp: files_ok_def contexts_ok_def)
  then show ?thesis using s1 by (simp add: vfs_destroy_context_def)
qed

subsection \<open>Properties\<close>

text \<open>
  The states of a running filesystem: after \<open>vfs_init\<close>, any sequence of its operations. Reading
  moves the position of a directory handle, and the drivers change their own state.
\<close>

inductive vfs_reachable :: "'d vfs \<Rightarrow> bool" where
  start: "vfs_init (vfs_empty d) = Inr s \<Longrightarrow> vfs_reachable s"
| create_node: "vfs_reachable s \<Longrightarrow> vfs_create_node ty s = Inr (h, s') \<Longrightarrow> vfs_reachable s'"
| add_dirent: "vfs_reachable s \<Longrightarrow> vfs_add_dirent n name m s = Inr s' \<Longrightarrow> vfs_reachable s'"
| set_driver: "vfs_reachable s \<Longrightarrow> vfs_set_driver n drv opaque s = Inr s' \<Longrightarrow> vfs_reachable s'"
| create_context: "vfs_reachable s \<Longrightarrow> vfs_create_context s = Inr (r, s') \<Longrightarrow> vfs_reachable s'"
| fork_context: "vfs_reachable s \<Longrightarrow> vfs_fork_context ctx s = Inr (r, s') \<Longrightarrow> vfs_reachable s'"
| destroy_context: "vfs_reachable s \<Longrightarrow> vfs_destroy_context ctx s = Inr s' \<Longrightarrow> vfs_reachable s'"
| open_file: "vfs_reachable s \<Longrightarrow> vfs_open ctx path flags s = Inr (res, s') \<Longrightarrow> vfs_reachable s'"
| close_file: "vfs_reachable s \<Longrightarrow> vfs_close ctx fd s = Inr (n, s') \<Longrightarrow> vfs_reachable s'"
| close_not_matching: "vfs_reachable s \<Longrightarrow> vfs_close_not_matching ctx flags s = Inr s' \<Longrightarrow> vfs_reachable s'"
| alias_fd: "vfs_reachable s \<Longrightarrow> vfs_alias_fd src sfd dst dfd s = Inr (n, s') \<Longrightarrow> vfs_reachable s'"
| read_directory: "vfs_reachable s \<Longrightarrow> read_locally junk h len s = Inr (n, data, s') \<Longrightarrow> vfs_reachable s'"
| device: "vfs_reachable s \<Longrightarrow> vfs_reachable (s\<lparr>devstate := d\<rparr>)"

lemma files_ok_tree:
  assumes "files_ok s" "contexts s' = contexts s" "opened_files s' = opened_files s"
    "dom (at (locally_opened_files s')) = dom (at (locally_opened_files s))" "pool_inv (locally_opened_files s')"
    "at (drivers s) \<subseteq>\<^sub>m at (drivers s')" "pool_inv (drivers s')"
  shows "files_ok s'"
proof -
  have fdm: "fdmap s' = fdmap s" using assms(2) by (simp add: fdmap_def)
  have drv: "file_driver f s' = file_driver f s" if nn: "file_driver f s \<noteq> None" for f
  proof -
    obtain dev where dev: "at (drivers s) (of_device f) = Some dev" 
      using nn by (cases "at (drivers s) (of_device f)") (auto simp: file_driver_def)
    then have "at (drivers s') (of_device f) = Some dev" using assms(6) by (metis domI map_le_def)
    then show ?thesis using dev by (simp add: file_driver_def)
  qed
  have cnt: "case at (opened_files s) fh of None \<Rightarrow> users s fh = {}
      | Some f \<Rightarrow> users s fh \<noteq> {} \<and> of_ref_count f = int (card (users s fh)) \<and> file_driver f s \<noteq> None" for fh
    using assms(1) by (simp add: files_ok_def counts_ok_def)
  have fd: "file_driver f s' = file_driver f s" if "at (opened_files s) fh = Some f" for fh f
    using drv [of f] cnt [of fh] that by simp
  have us: "users s' fh = users s fh" for fh using fdm by (simp add: users_def)
  have "counts_ok s'" unfolding counts_ok_def assms(3) us
  proof (intro conjI allI)
    fix fh
    show "case at (opened_files s) fh of None \<Rightarrow> users s fh = {}
      | Some f \<Rightarrow> users s fh \<noteq> {} \<and> of_ref_count f = int (card (users s fh)) \<and> file_driver f s' \<noteq> None"
      using cnt [of fh] fd [of fh] by (cases "at (opened_files s) fh") auto
  qed (use assms(1) in \<open>simp add: files_ok_def counts_ok_def\<close>)
  moreover have "owned s' fh = owned s fh" for fh
    using assms(3) fd [of fh] by (cases "at (opened_files s) fh") (simp_all add: owned_def)
  then have "owned s' = owned s" by blast
  ultimately show ?thesis using assms by (simp add: files_ok_def locals_ok_def contexts_ok_def)
qed

lemma files_ok_unchanged:
  assumes "files_ok s" "contexts s' = contexts s" "opened_files s' = opened_files s"
    "locally_opened_files s' = locally_opened_files s" "drivers s' = drivers s"
  shows "files_ok s'"
  by (rule files_ok_tree [OF assms(1)]) (use assms in \<open>auto simp: files_ok_def locals_ok_def\<close>)

lemma vfs_set_driver_files:
  assumes "files_ok s" "vfs_set_driver n drv opaque s = Inr s'"
  shows "files_ok s'"
proof -
  from assms(2) obtain ds i ns where r: "emplace_anywhere \<lparr>dev_driver = drv, dev_opaque = opaque\<rparr> (drivers s) = Inr (ds, i)"
      "s' = s\<lparr>drivers := ds, nodes := ns\<rparr>" by (auto simp: vfs_set_driver_def)
  have p: "pool_inv (drivers s)" using assms(1) by (simp add: files_ok_def)
  note e = pl.alloc_step [OF p r(1)]
  have "at (drivers s) \<subseteq>\<^sub>m at ds" using e by (auto simp: map_le_def)
  then show ?thesis
    using files_ok_tree [OF assms(1), of s'] e r(2) assms(1) by (simp add: files_ok_def locals_ok_def)
qed

lemma read_locally_files:
  assumes "files_ok s" "read_locally junk h len s = Inr (n, data, s')"
  shows "files_ok s'"
proof -
  have pl: "pool_inv (locally_opened_files s)" "pool_inv (drivers s)" using assms(1) by (auto simp: files_ok_def locals_ok_def)
  from assms(2) consider "s' = s"
    | pos p where "modify (handle16 h) (\<lambda>f. f\<lparr>lf_position := pos\<rparr>) (locally_opened_files s) = Inr p" "s' = s\<lparr>locally_opened_files := p\<rparr>"
    by (auto simp: read_locally_def simp del: read_locally_loop.simps split: if_splits)
  then show ?thesis
  proof cases
    case (2 pos p)
    have "at (locally_opened_files s) (handle16 h) \<noteq> None" using 2(1) valid_at [OF pl(1)] by (auto simp: modify_def)
    then obtain f where f: "at (locally_opened_files s) (handle16 h) = Some f" by blast
    have "pool_inv p \<and> at p = (at (locally_opened_files s))(handle16 h \<mapsto> f\<lparr>lf_position := pos\<rparr>)"
      using modify_step [OF pl(1) f, of "\<lambda>f. f\<lparr>lf_position := pos\<rparr>"] 2(1) by auto
    then show ?thesis using files_ok_tree [OF assms(1), of s'] 2(2) pl f by (simp add: insert_absorb domI)
  qed (use assms(1) in simp)
qed

lemma files_ok_empty: "files_ok (vfs_empty d)"
proof -
  have "owned (vfs_empty d) = Map.empty" by (auto simp: owned_def vfs_empty_def)
  then show ?thesis
    by (simp add: files_ok_def contexts_ok_def counts_ok_def locals_ok_def) (simp add: vfs_empty_def users_def fdmap_def)
qed

lemma vfs_create_node_files: "files_ok s \<Longrightarrow> vfs_create_node ty s = Inr (h, s') \<Longrightarrow> files_ok s'"
  by (auto simp: vfs_create_node_def elim!: files_ok_unchanged)

lemma vfs_init_files:
  assumes "vfs_init (vfs_empty d) = Inr s"
  shows "files_ok s"
proof -
  from assms obtain r s1 h s3 where i: "vfs_create_node VFS_DIRECTORY (vfs_empty d) = Inr (r, s1)"
      "vfs_create_node VFS_FILESYSTEM (s1\<lparr>root_dir := r\<rparr>) = Inr (h, s3)"
      "vfs_set_driver h (Some LocalDriver) 0 (s3\<lparr>local_driver_handle := h\<rparr>) = Inr s"
    by (auto simp: vfs_init_def Let_def)
  have "files_ok (s1\<lparr>root_dir := r\<rparr>)" using vfs_create_node_files [OF files_ok_empty i(1)] by (rule files_ok_unchanged) simp_all
  from vfs_create_node_files [OF this i(2)] have "files_ok (s3\<lparr>local_driver_handle := h\<rparr>)" by (rule files_ok_unchanged) simp_all
  then show ?thesis by (rule vfs_set_driver_files [OF _ i(3)])
qed

lemma fork_loop_files: "files_ok s \<Longrightarrow> fork_loop fuel src dst i s = Inr s' \<Longrightarrow> files_ok s'"
proof (induction fuel arbitrary: i s)
  case (Suc fuel)
  from Suc.prems(2) consider "s' = s" | "fork_loop fuel src dst (Suc i) s = Inr s'"
    | r s1 where "vfs_alias_fd src i dst i s = Inr (r, s1)" "fork_loop fuel src dst (Suc i) s1 = Inr s'"
    by (auto split: if_splits)
  then show ?case using Suc vfs_alias_fd_keeps by cases blast+
qed simp

lemma vfs_fork_files:
  assumes "files_ok s" "vfs_fork_context ctx s = Inr (r, s')"
  shows "files_ok s'"
proof -
  from assms(2) obtain r1 s1 where s1: "vfs_create_context s = Inr (r1, s1)" by (auto simp: vfs_fork_context_def)
  have "files_ok s1" using vfs_create_context_keeps [OF assms(1) s1] by simp
  then show ?thesis using assms(2) s1 fork_loop_files by (cases r1) (auto simp: vfs_fork_context_def)
qed

lemma reachable_files_ok: "vfs_reachable s \<Longrightarrow> files_ok s"
proof (induction rule: vfs_reachable.induct)
  case (add_dirent s n name m s')
  then show ?case by (auto simp: vfs_add_dirent_def elim!: files_ok_unchanged)
qed (auto simp: vfs_init_files dest: vfs_create_node_files vfs_set_driver_files vfs_create_context_keeps vfs_fork_files
    vfs_destroy_context_keeps vfs_open_keeps vfs_close_keeps vfs_close_not_matching_keeps vfs_alias_fd_keeps read_locally_files)

lemma vfs_init_result:
  obtains s r h dv where "vfs_init (vfs_empty d) = Inr s" "root_dir s = r" "local_driver_handle s = h" "r \<noteq> h"
    "pool_inv (nodes s)" "at (nodes s) = [r \<mapsto> \<lparr>node_type = VFS_DIRECTORY, info_node = END_SENTINEL\<rparr>,
       h \<mapsto> \<lparr>node_type = VFS_FILESYSTEM, info_node = dv\<rparr>]" "capacity (nodes s) = 256"
    "at (drivers s) = [dv \<mapsto> \<lparr>dev_driver = Some LocalDriver, dev_opaque = 0\<rparr>]"
    "contexts s = fixed_pool 64" "opened_files s = fixed_pool 64" "locally_opened_files s = fixed_pool 64"
proof -
  let ?n = "\<lambda>ty. \<lparr>node_type = ty, info_node = END_SENTINEL\<rparr>"
  obtain p r where p: "emplace_anywhere (?n VFS_DIRECTORY) (fixed_pool 256) = Inr (p, r)"
    using pl.alloc_total [of "fixed_pool 256" "?n VFS_DIRECTORY"] by auto
  have p': "pool_inv p" "capacity p = 256" "at p = [r \<mapsto> ?n VFS_DIRECTORY]" using pl.alloc_step [OF _ p] by auto
  obtain q h where q: "emplace_anywhere (?n VFS_FILESYSTEM) p = Inr (q, h)"
    using pl.alloc_total [OF p'(1), of "?n VFS_FILESYSTEM"] p' by auto
  have q': "pool_inv q" "capacity q = 256" "at q = [r \<mapsto> ?n VFS_DIRECTORY, h \<mapsto> ?n VFS_FILESYSTEM]" "r \<noteq> h"
    using pl.alloc_step [OF p'(1) q] p' by auto
  obtain ds dv where ds: "emplace_anywhere \<lparr>dev_driver = Some LocalDriver, dev_opaque = 0\<rparr> (fixed_pool 64 :: 'a vfs_device pool) = Inr (ds, dv)"
    using pl.alloc_total [of "fixed_pool 64 :: 'a vfs_device pool"] by fastforce
  have h: "at q h = Some (?n VFS_FILESYSTEM)" using q' by simp
  obtain ns where ns: "modify h (\<lambda>n. n\<lparr>info_node := dv\<rparr>) q = Inr ns" "pool_inv ns" "capacity ns = 256"
      "at ns = (at q)(h \<mapsto> (?n VFS_FILESYSTEM)\<lparr>info_node := dv\<rparr>)"
    using modify_step [OF q'(1) h, of "\<lambda>n. n\<lparr>info_node := dv\<rparr>"] q'(2) by auto
  have "node_type (?n VFS_FILESYSTEM) AND VFS_DRIVER \<noteq> 0" by (simp add: VFS_FILESYSTEM_def VFS_DRIVER_def VFS_DIRECTORY_def)
  then have i: "vfs_init (vfs_empty d) = Inr (vfs_empty d\<lparr>root_dir := r, local_driver_handle := h, drivers := ds, nodes := ns\<rparr>)"
    using p q ds ns(1) h by (simp add: vfs_init_def vfs_create_node_def vfs_set_driver_def vfs_empty_def get_at [OF q'(1)] Let_def)
  have "at ds = [dv \<mapsto> \<lparr>dev_driver = Some LocalDriver, dev_opaque = 0\<rparr>]" using pl.alloc_step [OF _ ds] by auto
  then show thesis using that [OF i] ns q' by (simp add: vfs_empty_def fun_upd_twist)
qed

lemma open_root:
  obtains s ctx s1 fd s2 fh where "vfs_init (vfs_empty d) = Inr s" "vfs_create_context s = Inr (Inr ctx, s1)"
    "vfs_open ctx ''/'' 0 s1 = Inr (Inr fd, s2)" "fdmap s2 = [(ctx, fd) \<mapsto> fh]"
    "dom (at (contexts s2)) = {ctx}" "\<not> full (contexts s2)" "closers_return s2"
proof -
  obtain s r h dv where i: "vfs_init (vfs_empty d) = Inr s" "root_dir s = r" "local_driver_handle s = h" "r \<noteq> h"
    "pool_inv (nodes s)" "at (nodes s) = [r \<mapsto> \<lparr>node_type = VFS_DIRECTORY, info_node = END_SENTINEL\<rparr>,
       h \<mapsto> \<lparr>node_type = VFS_FILESYSTEM, info_node = dv\<rparr>]" "capacity (nodes s) = 256"
    "at (drivers s) = [dv \<mapsto> \<lparr>dev_driver = Some LocalDriver, dev_opaque = 0\<rparr>]"
    "contexts s = fixed_pool 64" "opened_files s = fixed_pool 64" "locally_opened_files s = fixed_pool 64"
    by (rule vfs_init_result)
  have ok: "files_ok s" by (rule vfs_init_files [OF i(1)])
  have pd: "pool_inv (drivers s)" using ok by (simp add: files_ok_def)
  let ?c = "\<lparr>descriptors = fixed_pool 16\<rparr>"
  obtain p ctx where p: "emplace_anywhere ?c (fixed_pool 64) = Inr (p, ctx)"
    using pl.alloc_total [of "fixed_pool 64" ?c] by auto
  have p': "pool_inv p" "at p = [ctx \<mapsto> ?c]" "capacity p = 64" using pl.alloc_step [OF _ p] by auto
  let ?s1 = "s\<lparr>contexts := p\<rparr>"
  have s1: "vfs_create_context s = Inr (Inr ctx, ?s1)" using p i(9) by (simp add: vfs_create_context_def)
  have r: "r \<noteq> END_SENTINEL" using at_bound [OF i(5), of r] i(4,6,7) by (auto simp: END_SENTINEL_def)
  have dv: "dv \<noteq> END_SENTINEL"
    using at_bound [OF pd, of dv] i(8) pd by (fastforce simp: pool_inv_def pool_rep_def capacity_def)
  let ?l = "\<lparr>lf_node = r, lf_position = 0\<rparr>"
  obtain l lh where l: "emplace_anywhere ?l (fixed_pool 64) = Inr (l, lh)" using pl.alloc_total [of "fixed_pool 64" ?l] by auto
  let ?f = "\<lparr>of_device = dv, of_local_handle = int lh, of_flags = 0, of_ref_count = 1\<rparr>"
  obtain q ofh where q: "emplace_anywhere ?f (fixed_pool 64) = Inr (q, ofh)" using pl.alloc_total [of "fixed_pool 64" ?f] by auto
  obtain ds fd where ds: "emplace_anywhere ofh (fixed_pool 16) = Inr (ds, fd)" using pl.alloc_total [of "fixed_pool 16" ofh] by auto
  let ?s3 = "?s1\<lparr>locally_opened_files := l, opened_files := q\<rparr>"
  have c1: "contexts_ok ?s1" using p' by (simp add: contexts_ok_def)
  then have "contexts_ok ?s3" by simp
  then obtain s2 where s2: "put_descriptors ctx ds ?s3 = Inr s2" using put_descriptors_total [of ?s3 ctx ?c ds] p' by auto
  have ffd: "find_first_driver ?s1 r ''/'' = Inr (h, ''/'')"
    using i(3,4,5,6) by (simp add: find_first_driver_def find_first_driver_aux.simps get_at VFS_DIRECTORY_def VFS_DRIVER_def)
  have "node_type \<lparr>node_type = VFS_FILESYSTEM, info_node = dv\<rparr> AND VFS_DRIVER \<noteq> 0"
    by (simp add: VFS_FILESYSTEM_def VFS_DRIVER_def VFS_DIRECTORY_def)
  then have op: "vfs_open ctx ''/'' 0 ?s1 = Inr (Inr fd, s2)"
    using ffd dv i l q ds s2 p' r
    by (simp add: vfs_open_def get_at pd driver_open_def open_locally_def vfs_lookup_def vfs_lookup_aux.simps)
  note k = vfs_open_keeps [OF conjunct1 [OF vfs_create_context_keeps [OF ok s1]] op]
  have "fdmap ?s1 = Map.empty" using p' by (auto simp: fdmap_def fun_eq_iff split: option.splits)
  then obtain fh where "fdmap s2 = [(ctx, fd) \<mapsto> fh]" using k by auto
  moreover have d: "dom (at (contexts s2)) = {ctx}" using k p' by auto
  moreover have "\<not> full (contexts s2)"
  proof -
    have "at p ctx = Some ?c" using p'(2) by simp
    then have "pool_inv (contexts s2)" "capacity (contexts s2) = 64"
      using modify_step [OF p'(1), of ctx ?c "\<lambda>c. c\<lparr>descriptors := ds\<rparr>"] s2 p'(3) by (auto simp: put_descriptors_def)
    then show ?thesis using d by (simp add: full_iff)
  qed
  moreover have "closers_return s2" using k i(8) by (auto simp: closers_return_def)
  ultimately show thesis using that i(1) s1 op by blast
qed

text \<open>
  \<^bold>\<open>C2.\<close> In every state the filesystem can reach, an open file exists exactly while some
  descriptor of some process refers to it, its reference count is the number of those
  descriptors, its driver is there, and the directory handles in use are exactly those the open
  files own, each owned once: nothing is leaked and nothing is closed too early.
\<close>

theorem vfs_reference_counts:
  assumes "vfs_reachable s"
  shows "(\<forall>fh. case at (opened_files s) fh of
        None \<Rightarrow> users s fh = {}
      | Some f \<Rightarrow> users s fh \<noteq> {} \<and> of_ref_count f = int (card (users s fh)) \<and> file_driver f s \<noteq> None) \<and>
    inj_on (owned s) (dom (owned s)) \<and> ran (owned s) = int ` dom (at (locally_opened_files s))"
  using reachable_files_ok [OF assms] by (simp add: files_ok_def counts_ok_def locals_ok_def)

theorem vfs_reference_counts_witness:
  "\<exists>s ctx s1 fd s2 fh f. vfs_init (vfs_empty ()) = Inr s \<and> vfs_create_context s = Inr (Inr ctx, s1) \<and>
     vfs_open ctx ''/'' 0 s1 = Inr (Inr fd, s2) \<and> at (opened_files s2) fh = Some f \<and> of_ref_count f = 1"
proof -
  obtain s ctx s1 fd s2 fh where o: "vfs_init (vfs_empty ()) = Inr s" "vfs_create_context s = Inr (Inr ctx, s1)"
    "vfs_open ctx ''/'' 0 s1 = Inr (Inr fd, s2)" "fdmap s2 = [(ctx, fd) \<mapsto> fh]" by (rule open_root)
  have "vfs_reachable s2" using o(1-3) by (meson start create_context open_file)
  moreover have "users s2 fh = {(ctx, fd)}" using o(4) by (auto simp: users_def split: if_splits)
  ultimately have "\<exists>f. at (opened_files s2) fh = Some f \<and> of_ref_count f = 1"
    using vfs_reference_counts [of s2] by (cases "at (opened_files s2) fh") (auto dest!: spec [of _ fh])
  then show ?thesis using o by blast
qed





end
