(* ===== verification/Process.thy ===== *)
theory Process
  imports Pool
begin

text \<open>
  The scheduler of \<open>kernel/process.cc\<close>: the table of processes, the doubly linked lists of the
  running and the suspended ones, choosing and switching, blocking, timeouts, killing and
  waiting.

  A context switch is the change of \<open>current_pid\<close>; what the switching code does after it
  happens when its process is chosen again. An operation that continues after a switch has a
  second definition for that part. The address space and the descriptor context of a process
  are handles of the memory manager and of the filesystem. The links of a fresh process are not
  initialised; \<open>process_init\<close> takes the values the memory held.
\<close>

subsection \<open>Data\<close>

definition ETIMEOUT :: int where "ETIMEOUT = -207"

record process =
  space_handle :: nat
  file_context :: nat
  proc_flags :: nat
  suspended :: bool
  terminating :: bool
  exit_status :: int
  unblock_status :: int
  prev_process :: nat
  next_process :: nat
  waiting_process :: "nat option"
  last_tick :: nat
  suspension_timeout :: int

record sched =
  processes :: "process pool"
  current_pid :: nat
  running_head :: nat
  suspended_head :: nat
  idle_process :: nat
  tick_count :: nat

definition process_init :: "nat \<Rightarrow> nat \<Rightarrow> nat \<Rightarrow> nat \<Rightarrow> nat \<Rightarrow> process" where
  "process_init space context flags prev0 next0 =
     \<lparr>space_handle = space, file_context = context, proc_flags = flags, suspended = False, terminating = False,
      exit_status = 0, unblock_status = 0, prev_process = prev0, next_process = next0, waiting_process = None,
      last_tick = 0, suspension_timeout = -1\<rparr>"

definition sched_init :: sched where
  "sched_init = \<lparr>processes = fixed_pool 128, current_pid = END_SENTINEL, running_head = END_SENTINEL,
     suspended_head = END_SENTINEL, idle_process = END_SENTINEL, tick_count = 0\<rparr>"

subsection \<open>The linked lists\<close>

text \<open>Both take the head of a list and give the table and the new head.\<close>

definition enqueue_front :: "nat \<Rightarrow> nat \<Rightarrow> process pool \<Rightarrow> (process pool \<times> nat) res" where
  "enqueue_front pid head ps =
     bindR (if head \<noteq> END_SENTINEL then modify head (\<lambda>p. p\<lparr>prev_process := pid\<rparr>) ps else Inr ps) (\<lambda>ps1.
     bindR (modify pid (\<lambda>p. p\<lparr>next_process := head, prev_process := END_SENTINEL\<rparr>) ps1) (\<lambda>ps2.
     Inr (ps2, pid)))"

definition dequeue :: "nat \<Rightarrow> nat \<Rightarrow> process pool \<Rightarrow> (process pool \<times> nat) res" where
  "dequeue pid head ps =
     bindR (get ps pid) (\<lambda>proc.
     bindR (if prev_process proc \<noteq> END_SENTINEL
            then modify (prev_process proc) (\<lambda>p. p\<lparr>next_process := next_process proc\<rparr>) ps else Inr ps) (\<lambda>ps1.
     bindR (get ps1 pid) (\<lambda>proc1.
     bindR (if next_process proc1 \<noteq> END_SENTINEL
            then modify (next_process proc1) (\<lambda>p. p\<lparr>prev_process := prev_process proc1\<rparr>) ps1 else Inr ps1) (\<lambda>ps2.
     bindR (get ps2 pid) (\<lambda>proc2.
     Inr (ps2, if head = pid then next_process proc2 else head))))))"

definition proc_enqueue :: "nat \<Rightarrow> sched \<Rightarrow> sched res" where
  "proc_enqueue pid s =
     bindR (enqueue_front pid (running_head s) (processes s)) (\<lambda>(ps, h).
     Inr (s\<lparr>processes := ps, running_head := h\<rparr>))"

subsection \<open>Creating processes\<close>

text \<open>\<open>space\<close> and \<open>context\<close> are what \<open>mem_create_space\<close> and \<open>vfs_create_context\<close> returned.\<close>

definition new_process :: "nat \<Rightarrow> nat \<Rightarrow> nat \<Rightarrow> nat \<Rightarrow> nat \<Rightarrow> sched \<Rightarrow> (nat \<times> sched) res" where
  "new_process space context flags prev0 next0 s =
     bindR (emplace_anywhere (process_init space context flags prev0 next0) (processes s)) (\<lambda>(ps, pid).
     Inr (pid, s\<lparr>processes := ps\<rparr>))"

definition proc_init :: "nat \<Rightarrow> nat \<Rightarrow> nat \<Rightarrow> nat \<Rightarrow> sched \<Rightarrow> sched res" where
  "proc_init space context prev0 next0 s =
     bindR (new_process space context 2 prev0 next0 s) (\<lambda>(pid, s1). Inr (s1\<lparr>idle_process := pid\<rparr>))"

subsection \<open>Choosing and switching\<close>

definition TICK_MAX :: nat where
  "TICK_MAX = 18446744073709551615"

text \<open>The fuel is one more than the number of processes the table can hold.\<close>

fun decide_loop :: "nat \<Rightarrow> process pool \<Rightarrow> nat \<Rightarrow> nat \<Rightarrow> nat \<Rightarrow> nat res" where
  "decide_loop 0 ps node minimum_tick minimum_pid = Inl Diverges"
| "decide_loop (Suc fuel) ps node minimum_tick minimum_pid =
     (if node = END_SENTINEL then Inr minimum_pid
      else bindR (get ps node) (\<lambda>proc.
           if last_tick proc < minimum_tick
           then decide_loop fuel ps (next_process proc) (last_tick proc) node
           else decide_loop fuel ps (next_process proc) minimum_tick minimum_pid))"

definition decide_next_process :: "sched \<Rightarrow> nat res" where
  "decide_next_process s =
     bindR (decide_loop (Suc (capacity (processes s))) (processes s) (running_head s) TICK_MAX END_SENTINEL) (\<lambda>pid.
     Inr (if pid = END_SENTINEL then idle_process s else pid))"

definition switch_process :: "nat \<Rightarrow> sched \<Rightarrow> sched res" where
  "switch_process pid s =
     bindR (modify pid (\<lambda>p. p\<lparr>last_tick := tick_count s\<rparr>) (processes s)) (\<lambda>ps.
     Inr (s\<lparr>processes := ps, current_pid := pid\<rparr>))"

definition proc_current_pid :: "sched \<Rightarrow> nat option" where
  "proc_current_pid s = (if current_pid s \<noteq> END_SENTINEL then Some (current_pid s) else None)"

definition proc_switch :: "nat \<Rightarrow> sched \<Rightarrow> sched res" where
  "proc_switch pid s =
     (if proc_current_pid s = Some pid then Inr s
      else bindR (get (processes s) pid) (\<lambda>proc.
           assertR (\<not> suspended proc)
            (bindR (if terminating proc then decide_next_process s else Inr pid) (\<lambda>pid'. switch_process pid' s))))"

definition proc_yield :: "sched \<Rightarrow> sched res" where
  "proc_yield s =
     (let s1 = s\<lparr>tick_count := (tick_count s + 1) mod (TICK_MAX + 1)\<rparr> in
      bindR (if valid (current_pid s1) (processes s1)
             then bindR (modify (current_pid s1) (\<lambda>p. p\<lparr>last_tick := tick_count s1\<rparr>) (processes s1)) (\<lambda>ps.
                  Inr (s1\<lparr>processes := ps\<rparr>))
             else Inr s1) (\<lambda>s2.
      bindR (decide_next_process s2) (\<lambda>pid. proc_switch pid s2)))"

text \<open>What \<open>proc_yield\<close> returns when its process has been switched back to.\<close>

definition yield_status :: "sched \<Rightarrow> int res" where
  "yield_status s = bindR (get (processes s) (current_pid s)) (\<lambda>p. Inr (unblock_status p))"

subsection \<open>Blocking\<close>

definition proc_suspend :: "nat \<Rightarrow> sched \<Rightarrow> sched res" where
  "proc_suspend pid s =
     bindR (get (processes s) pid) (\<lambda>proc.
     if suspended proc then Inr s
     else bindR (dequeue pid (running_head s) (processes s)) (\<lambda>(ps1, rh).
          bindR (enqueue_front pid (suspended_head s) ps1) (\<lambda>(ps2, sh).
          bindR (modify pid (\<lambda>p. p\<lparr>suspended := True\<rparr>) ps2) (\<lambda>ps3.
          Inr (s\<lparr>processes := ps3, running_head := rh, suspended_head := sh\<rparr>)))))"

definition proc_resume :: "nat \<Rightarrow> sched \<Rightarrow> sched res" where
  "proc_resume pid s =
     bindR (get (processes s) pid) (\<lambda>proc.
     if \<not> suspended proc then Inr s
     else bindR (dequeue pid (suspended_head s) (processes s)) (\<lambda>(ps1, sh).
          bindR (enqueue_front pid (running_head s) ps1) (\<lambda>(ps2, rh).
          bindR (modify pid (\<lambda>p. p\<lparr>suspended := False\<rparr>) ps2) (\<lambda>ps3.
          Inr (s\<lparr>processes := ps3, running_head := rh, suspended_head := sh\<rparr>)))))"

definition proc_block :: "nat \<Rightarrow> sched \<Rightarrow> sched res" where
  "proc_block pid s = bindR (proc_suspend pid s) proc_yield"

definition proc_unblock_and_switch :: "nat \<Rightarrow> int \<Rightarrow> sched \<Rightarrow> sched res" where
  "proc_unblock_and_switch pid status s =
     (if valid pid (processes s)
      then bindR (modify pid (\<lambda>p. p\<lparr>unblock_status := status\<rparr>) (processes s)) (\<lambda>ps.
           bindR (proc_resume pid (s\<lparr>processes := ps\<rparr>)) (proc_switch pid))
      else Inr s)"

subsection \<open>Ending processes\<close>

definition process_exit :: "nat \<Rightarrow> int \<Rightarrow> sched \<Rightarrow> sched res" where
  "process_exit pid status s =
     bindR (modify pid (\<lambda>p. p\<lparr>terminating := True, exit_status := status\<rparr>) (processes s)) (\<lambda>ps.
     bindR (get ps pid) (\<lambda>proc.
     case waiting_process proc of
       None \<Rightarrow> Inr (s\<lparr>processes := ps\<rparr>)
     | Some w \<Rightarrow> proc_resume w (s\<lparr>processes := ps\<rparr>)))"

definition proc_kill :: "nat \<Rightarrow> int \<Rightarrow> sched \<Rightarrow> sched res" where
  "proc_kill pid status s =
     assertR (pid \<noteq> idle_process s)
      (if \<not> valid pid (processes s) then Inr s
       else bindR (get (processes s) pid) (\<lambda>proc.
            bindR (dequeue pid (if suspended proc then suspended_head s else running_head s) (processes s)) (\<lambda>(ps, h).
            process_exit pid status
             (if suspended proc then s\<lparr>processes := ps, suspended_head := h\<rparr>
              else s\<lparr>processes := ps, running_head := h\<rparr>))))"

text \<open>\<open>destroy_process\<close> also gives the context and the address space it releases.\<close>

definition destroy_process :: "nat \<Rightarrow> sched \<Rightarrow> (sched \<times> nat \<times> nat) res" where
  "destroy_process pid s =
     bindR (get (processes s) pid) (\<lambda>proc.
     bindR (erase pid (processes s)) (\<lambda>ps.
     Inr (s\<lparr>processes := ps\<rparr>, file_context proc, space_handle proc)))"

subsection \<open>System calls and the timer\<close>

text \<open>
  A call that ends in a switch to another process gives the state at the switch. \<open>syscall_exit\<close>
  has nothing to come back to.
\<close>

definition sys_yield :: "sched \<Rightarrow> sched res" where
  "sys_yield s = proc_yield s"

definition sys_exit :: "int \<Rightarrow> sched \<Rightarrow> sched res" where
  "sys_exit status s =
     (case proc_current_pid s of
        None \<Rightarrow> Inl Panic
      | Some pid \<Rightarrow> bindR (proc_kill pid status s) (\<lambda>s1.
          bindR (proc_yield s1) (\<lambda>s2. assertR (current_pid s2 \<noteq> pid) (Inr s2))))"

definition sys_kill :: "int \<Rightarrow> sched \<Rightarrow> (int \<times> sched) res" where
  "sys_kill pid s = bindR (proc_kill (nat (pid mod 65536)) 123 s) (\<lambda>s'. Inr (1, s'))"

datatype wait_result = WaitDone int sched "(nat \<times> nat) option" | WaitSwitched sched

definition finish_wait :: "nat \<Rightarrow> sched \<Rightarrow> wait_result res" where
  "finish_wait pid s = bindR (destroy_process pid s) (\<lambda>(s', released). Inr (WaitDone 1 s' (Some released)))"

text \<open>The part of \<open>syscall_wait\<close> after the switch back.\<close>

definition sys_wait_resumed :: "nat \<Rightarrow> sched \<Rightarrow> wait_result res" where
  "sys_wait_resumed pid s =
     bindR (get (processes s) pid) (\<lambda>proc. assertR (terminating proc) (finish_wait pid s))"

definition sys_wait :: "int \<Rightarrow> sched \<Rightarrow> wait_result res" where
  "sys_wait arg s =
     (let pid = nat (arg mod 65536) in
      if \<not> valid pid (processes s) then Inr (WaitDone 0 s None)
      else case proc_current_pid s of
             None \<Rightarrow> Inr (WaitDone 1 s None)
           | Some parent \<Rightarrow>
               bindR (get (processes s) pid) (\<lambda>proc.
               if \<not> terminating proc
               then bindR (proc_suspend parent s) (\<lambda>s1.
                    bindR (modify pid (\<lambda>p. p\<lparr>waiting_process := Some parent\<rparr>) (processes s1)) (\<lambda>ps.
                    bindR (proc_yield (s1\<lparr>processes := ps\<rparr>)) (\<lambda>s2.
                    if current_pid s2 = parent then sys_wait_resumed pid s2 else Inr (WaitSwitched s2))))
               else finish_wait pid s))"

definition sys_set_timeout :: "int \<Rightarrow> sched \<Rightarrow> sched res" where
  "sys_set_timeout timeout s =
     (case proc_current_pid s of
        None \<Rightarrow> Inr s
      | Some pid \<Rightarrow> bindR (modify pid (\<lambda>p. p\<lparr>suspension_timeout := timeout\<rparr>) (processes s)) (\<lambda>ps.
          Inr (s\<lparr>processes := ps\<rparr>)))"

definition sys_get_timeout :: "sched \<Rightarrow> int res" where
  "sys_get_timeout s =
     (case proc_current_pid s of
        None \<Rightarrow> Inr 0
      | Some pid \<Rightarrow> bindR (get (processes s) pid) (\<lambda>p. Inr (suspension_timeout p)))"

text \<open>
  The loop of \<open>on_timer_tick\<close>. Waking a process up switches to it: the flag says that this
  happened, and the loop goes on from that process when the interrupted one runs again. It
  follows \<open>next_process\<close> of the process it woke up, which is by then in the list of the
  running ones. The fuel bounds the turns.
\<close>

fun tick_loop :: "nat \<Rightarrow> int \<Rightarrow> nat \<Rightarrow> sched \<Rightarrow> (sched \<times> bool) res" where
  "tick_loop 0 delta_ms proc s = Inl Diverges"
| "tick_loop (Suc fuel) delta_ms proc s =
     (if proc = END_SENTINEL then Inr (s, False)
      else bindR (get (processes s) proc) (\<lambda>p.
           if 0 < suspension_timeout p
           then let t = s32 (suspension_timeout p - delta_ms) in
                bindR (modify proc (\<lambda>p. p\<lparr>suspension_timeout := t\<rparr>) (processes s)) (\<lambda>ps.
                if t \<le> 0
                then bindR (proc_unblock_and_switch proc ETIMEOUT (s\<lparr>processes := ps\<rparr>)) (\<lambda>s1.
                     if current_pid s1 \<noteq> current_pid s then Inr (s1, True)
                     else bindR (get (processes s1) proc) (\<lambda>p1. tick_loop fuel delta_ms (next_process p1) s1))
                else tick_loop fuel delta_ms (next_process p) (s\<lparr>processes := ps\<rparr>))
           else tick_loop fuel delta_ms (next_process p) s))"

definition on_timer_tick :: "nat \<Rightarrow> int \<Rightarrow> sched \<Rightarrow> sched res" where
  "on_timer_tick fuel delta_ms s =
     bindR (tick_loop fuel delta_ms (suspended_head s) s) (\<lambda>(s1, switched).
     if switched then Inr s1 else proc_yield s1)"

end
