(* ===== verification/Scheduler.thy ===== *)
theory Scheduler
  imports Process
begin

text \<open>
  Correctness of the scheduler: its linked lists refine two lists of processes, one of the
  running and one of the suspended ones; the process chosen is the one that has waited longest;
  and every running process gets the processor within as many yields as there are running
  processes.
\<close>

subsection \<open>Doubly linked lists\<close>

definition links_of :: "process pool \<Rightarrow> nat \<Rightarrow> (nat \<times> nat) option" where
  "links_of ps i = map_option (\<lambda>p. (prev_process p, next_process p)) (at ps i)"

text \<open>A process without its links.\<close>

definition core_of :: "process pool \<Rightarrow> nat \<Rightarrow> process option" where
  "core_of ps i = map_option (\<lambda>p. p\<lparr>prev_process := 0, next_process := 0\<rparr>) (at ps i)"

fun lseg :: "(nat \<Rightarrow> (nat \<times> nat) option) \<Rightarrow> nat \<Rightarrow> nat list \<Rightarrow> nat \<Rightarrow> bool" where
  "lseg l p [] n = True"
| "lseg l p (i # is) n = (l i = Some (p, first_or n is) \<and> lseg l i is n)"

lemma lseg_cong: "lseg l p xs n \<Longrightarrow> (\<And>i. i \<in> set xs \<Longrightarrow> l' i = l i) \<Longrightarrow> lseg l' p xs n"
  by (induction xs arbitrary: p) auto

lemma lseg_append:
  "lseg l p (xs @ ys) n \<longleftrightarrow> lseg l p xs (first_or n ys) \<and> lseg l (last_or p xs) ys n"
  by (induction xs arbitrary: p) (auto simp: first_or_append last_or_Cons)

lemma lseg_set_next:
  "lseg l p (xs @ [x]) m \<Longrightarrow> x \<notin> set xs \<Longrightarrow> lseg (l(x := Some (last_or p xs, n))) p (xs @ [x]) n"
  by (auto simp: lseg_append elim!: lseg_cong)

lemma lseg_set_prev:
  "lseg l p (x # xs) n \<Longrightarrow> x \<notin> set xs \<Longrightarrow> lseg (l(x := Some (q, first_or n xs))) q (x # xs) n"
  by (auto elim!: lseg_cong)

lemma lseg_upd_other: "x \<notin> set xs \<Longrightarrow> lseg (l(x := v)) p xs n = lseg l p xs n"
  by (induction xs arbitrary: p) auto

lemma lseg_mem: "lseg l p xs n \<Longrightarrow> i \<in> set xs \<Longrightarrow> l i \<noteq> None"
  by (induction xs arbitrary: p) auto

lemma modify_links:
  assumes "pool_inv ps" "at ps i = Some p" "\<And>p. core (f p) = core p"
    and core: "core = (\<lambda>p. p\<lparr>prev_process := 0, next_process := 0\<rparr>)"
  shows "\<exists>ps'. modify i f ps = Inr ps' \<and> pool_inv ps' \<and> capacity ps' = capacity ps \<and> core_of ps' = core_of ps \<and>
    links_of ps' = (links_of ps)(i \<mapsto> (prev_process (f p), next_process (f p))) \<and> at ps' = (at ps)(i \<mapsto> f p)"
proof -
  obtain ps' where "modify i f ps = Inr ps'" "pool_inv ps'" "capacity ps' = capacity ps" "at ps' = (at ps)(i \<mapsto> f p)"
    using modify_step [OF assms(1,2), of f] by auto
  moreover from this have "core_of ps' j = core_of ps j" for j
    using assms(2) assms(3) [of p] by (simp add: core_of_def core)
  ultimately show ?thesis by (auto simp: links_of_def fun_eq_iff)
qed

lemmas set_prev = modify_links [where f = "\<lambda>p. p\<lparr>prev_process := q\<rparr>" for q, OF _ _ _ refl, simplified]
lemmas set_next = modify_links [where f = "\<lambda>p. p\<lparr>next_process := q\<rparr>" for q, OF _ _ _ refl, simplified]
lemmas set_both = modify_links [where f = "\<lambda>p. p\<lparr>next_process := q, prev_process := r\<rparr>" for q r, OF _ _ _ refl, simplified]

lemma links_at: "links_of ps i = Some (a, b) \<Longrightarrow> \<exists>p. at ps i = Some p \<and> prev_process p = a \<and> next_process p = b"
  by (auto simp: links_of_def)

lemma enqueue_front_ok:
  assumes inv: "pool_inv ps" and seg: "lseg (links_of ps) END_SENTINEL xs END_SENTINEL"
    and pid: "at ps pid \<noteq> None" "pid \<notin> set xs" and dist: "distinct xs" and nil: "END_SENTINEL \<notin> set xs"
  shows "\<exists>ps'. enqueue_front pid (first_or END_SENTINEL xs) ps = Inr (ps', pid) \<and> pool_inv ps' \<and> capacity ps' = capacity ps \<and>
    core_of ps' = core_of ps \<and> lseg (links_of ps') END_SENTINEL (pid # xs) END_SENTINEL \<and>
    (\<forall>j. j \<notin> set (pid # xs) \<longrightarrow> links_of ps' j = links_of ps j)"
proof -
  obtain ps1 where ps1: "(if first_or END_SENTINEL xs \<noteq> END_SENTINEL
        then modify (first_or END_SENTINEL xs) (\<lambda>p. p\<lparr>prev_process := pid\<rparr>) ps else Inr ps) = Inr ps1"
      "pool_inv ps1" "capacity ps1 = capacity ps" "core_of ps1 = core_of ps" "lseg (links_of ps1) pid xs END_SENTINEL"
      "\<forall>j. j \<notin> set xs \<longrightarrow> links_of ps1 j = links_of ps j"
  proof (cases xs)
    case Nil
    then show thesis using that [of ps] inv by simp
  next
    case (Cons x rest)
    then obtain p where p: "at ps x = Some p" "next_process p = first_or END_SENTINEL rest" using seg links_at by force
    obtain ps1 where m: "modify x (\<lambda>p. p\<lparr>prev_process := pid\<rparr>) ps = Inr ps1" "pool_inv ps1" "capacity ps1 = capacity ps"
        "core_of ps1 = core_of ps" "links_of ps1 = (links_of ps)(x \<mapsto> (pid, next_process p))"
      using set_prev [OF inv p(1), of pid] by auto
    have "lseg (links_of ps1) pid xs END_SENTINEL"
      using lseg_set_prev [of "links_of ps" END_SENTINEL x rest END_SENTINEL pid] seg Cons dist p(2) m(5) by simp
    then show thesis using that [of ps1] m p(2) Cons nil by simp
  qed
  have "at ps1 pid \<noteq> None" using pid(1) ps1(4) by (metis core_of_def option.map_disc_iff)
  then obtain p where "at ps1 pid = Some p" by blast
  from set_both [OF ps1(2) this, of END_SENTINEL "first_or END_SENTINEL xs"] obtain ps2 where
    m2: "modify pid (\<lambda>p. p\<lparr>next_process := first_or END_SENTINEL xs, prev_process := END_SENTINEL\<rparr>) ps1 = Inr ps2" "pool_inv ps2"
      "capacity ps2 = capacity ps1" "core_of ps2 = core_of ps1" "links_of ps2 = (links_of ps1)(pid \<mapsto> (END_SENTINEL, first_or END_SENTINEL xs))"
    by auto
  show ?thesis
    using ps1 m2 pid(2) by (intro exI [of _ ps2]) (auto simp: enqueue_front_def lseg_upd_other)
qed

lemma dequeue_ok:
  assumes inv: "pool_inv ps" and seg: "lseg (links_of ps) END_SENTINEL (xs @ i # ys) END_SENTINEL"
    and dist: "distinct (xs @ i # ys)" and nil: "END_SENTINEL \<notin> set (xs @ i # ys)"
  shows "\<exists>ps'. dequeue i head ps = Inr (ps', if head = i then first_or END_SENTINEL ys else head) \<and> pool_inv ps' \<and>
    capacity ps' = capacity ps \<and> core_of ps' = core_of ps \<and> lseg (links_of ps') END_SENTINEL (xs @ ys) END_SENTINEL \<and>
    (\<forall>j. j \<notin> set (xs @ ys) \<longrightarrow> links_of ps' j = links_of ps j)"
proof -
  let ?E = END_SENTINEL
  have segs: "lseg (links_of ps) ?E xs i" "links_of ps i = Some (last_or ?E xs, first_or ?E ys)" "lseg (links_of ps) i ys ?E"
    using seg by (simp_all add: lseg_append)
  obtain p where p: "at ps i = Some p" "prev_process p = last_or ?E xs" "next_process p = first_or ?E ys" using links_at [OF segs(2)] by blast
  have lastE: "last_or ?E xs = ?E \<longleftrightarrow> xs = []" using nil last_in_set [of xs] by (auto simp: last_or_def simp del: last_in_set)
  have firstE: "first_or ?E ys = ?E \<longleftrightarrow> ys = []" using nil by (cases ys) auto
  obtain ps1 where ps1: "(if prev_process p \<noteq> ?E then modify (prev_process p) (\<lambda>q. q\<lparr>next_process := next_process p\<rparr>) ps else Inr ps) = Inr ps1"
      "pool_inv ps1" "capacity ps1 = capacity ps" "core_of ps1 = core_of ps" "lseg (links_of ps1) ?E xs (first_or ?E ys)"
      "\<forall>j. j \<notin> set xs \<longrightarrow> links_of ps1 j = links_of ps j"
  proof (cases xs rule: rev_cases)
    case Nil
    then show thesis using that [of ps] inv p(2) by simp
  next
    case (snoc us u)
    then obtain q where q: "at ps u = Some q" "prev_process q = last_or ?E us"
      using segs(1) links_at [of ps u] by (auto simp: lseg_append)
    obtain ps1 where m: "modify u (\<lambda>q. q\<lparr>next_process := next_process p\<rparr>) ps = Inr ps1" "pool_inv ps1" "capacity ps1 = capacity ps"
        "core_of ps1 = core_of ps" "links_of ps1 = (links_of ps)(u \<mapsto> (prev_process q, next_process p))"
      using set_next [OF inv q(1), of "next_process p"] by auto
    have "lseg (links_of ps1) ?E xs (first_or ?E ys)"
      using lseg_set_next [of "links_of ps" ?E us u i "first_or ?E ys"] segs(1) snoc dist q(2) m(5) p(3) by simp
    moreover have "prev_process p = u" using p(2) snoc by simp
    ultimately show thesis using that [of ps1] m snoc nil by simp
  qed
  have l1: "links_of ps1 i = Some (last_or ?E xs, first_or ?E ys)" using ps1(6) segs(2) dist by simp
  obtain p1 where p1: "at ps1 i = Some p1" "prev_process p1 = last_or ?E xs" "next_process p1 = first_or ?E ys" using links_at [OF l1] by blast
  have seg1: "lseg (links_of ps1) i ys ?E"
    by (rule lseg_cong [OF segs(3)]) (use ps1(6) dist in auto)
  obtain ps2 where ps2: "(if next_process p1 \<noteq> ?E then modify (next_process p1) (\<lambda>q. q\<lparr>prev_process := prev_process p1\<rparr>) ps1 else Inr ps1) = Inr ps2"
      "pool_inv ps2" "capacity ps2 = capacity ps1" "core_of ps2 = core_of ps1" "lseg (links_of ps2) (last_or ?E xs) ys ?E"
      "\<forall>j. j \<notin> set ys \<longrightarrow> links_of ps2 j = links_of ps1 j"
  proof (cases ys)
    case Nil
    then show thesis using that [of ps1] ps1(2) p1(3) by simp
  next
    case (Cons y rest)
    then obtain q where q: "at ps1 y = Some q" "next_process q = first_or ?E rest" using seg1 links_at by force
    obtain ps2 where m: "modify y (\<lambda>q. q\<lparr>prev_process := prev_process p1\<rparr>) ps1 = Inr ps2" "pool_inv ps2" "capacity ps2 = capacity ps1"
        "core_of ps2 = core_of ps1" "links_of ps2 = (links_of ps1)(y \<mapsto> (prev_process p1, next_process q))"
      using set_prev [OF ps1(2) q(1), of "prev_process p1"] by auto
    have "lseg (links_of ps2) (last_or ?E xs) ys ?E"
      using lseg_set_prev [of "links_of ps1" i y rest ?E "last_or ?E xs"] seg1 Cons dist q(2) m(5) p1(2) by simp
    moreover have "next_process p1 = y" using p1(3) Cons by simp
    ultimately show thesis using that [of ps2] m Cons nil p1(2) q(2) by simp
  qed
  have "links_of ps2 i = Some (last_or ?E xs, first_or ?E ys)" using ps2(6) l1 dist by simp
  then obtain p2 where p2: "at ps2 i = Some p2" "next_process p2 = first_or ?E ys" using links_at by blast
  have "lseg (links_of ps2) ?E xs (first_or ?E ys)"
    by (rule lseg_cong [OF ps1(5)]) (use ps2(6) dist in auto)
  then have "lseg (links_of ps2) ?E (xs @ ys) ?E" using ps2(5) by (simp add: lseg_append)
  moreover have "dequeue i head ps = Inr (ps2, if head = i then first_or ?E ys else head)"
    using p(1) p1(1) p2 ps1(1) ps2(1) inv ps1(2) ps2(2) by (simp add: dequeue_def get_at)
  ultimately show ?thesis using ps1 ps2 by (intro exI [of _ ps2]) auto
qed


subsection \<open>The lists a scheduler state holds\<close>

text \<open>
  \<open>R\<close> lists the running and \<open>S\<close> the suspended processes. A terminated process is in neither
  until it is waited for; nor is the idle process.
\<close>

definition state_of :: "process pool \<Rightarrow> nat \<Rightarrow> (bool \<times> bool) option" where
  "state_of ps i = map_option (\<lambda>p. (suspended p, terminating p)) (at ps i)"

definition sched_inv :: "nat list \<Rightarrow> nat list \<Rightarrow> sched \<Rightarrow> bool" where
  "sched_inv R S s \<longleftrightarrow>
     pool_inv (processes s) \<and> capacity (processes s) = 128 \<and>
     lseg (links_of (processes s)) END_SENTINEL R END_SENTINEL \<and> running_head s = first_or END_SENTINEL R \<and>
     lseg (links_of (processes s)) END_SENTINEL S END_SENTINEL \<and> suspended_head s = first_or END_SENTINEL S \<and>
     distinct (R @ S @ [idle_process s]) \<and>
     (\<forall>i \<in> insert (idle_process s) (set R). state_of (processes s) i = Some (False, False)) \<and>
     (\<forall>i \<in> set S. state_of (processes s) i = Some (True, False))"

lemma core_at:
  assumes "core_of ps' = core_of ps" and "at ps' i = Some p"
  obtains q where "at ps i = Some q" "suspended p = suspended q" "terminating p = terminating q" "last_tick p = last_tick q"
    "waiting_process p = waiting_process q" "exit_status p = exit_status q"
proof -
  have "core_of ps' i = core_of ps i" using assms(1) by simp
  with assms(2) obtain q where "at ps i = Some q" "p\<lparr>prev_process := 0, next_process := 0\<rparr> = q\<lparr>prev_process := 0, next_process := 0\<rparr>"
    unfolding core_of_def by (cases "at ps i") auto
  then show thesis using that [of q] by (cases p, cases q) simp
qed

lemma at_small: "pool_inv ps \<Longrightarrow> capacity ps = 128 \<Longrightarrow> at ps i \<noteq> None \<Longrightarrow> i < 128"
  using at_bound by fastforce

lemma nil_notin: "pool_inv ps \<Longrightarrow> capacity ps = 128 \<Longrightarrow> lseg (links_of ps) p xs n \<Longrightarrow> END_SENTINEL \<notin> set xs"
  using lseg_mem [of "links_of ps" p xs n END_SENTINEL] at_small [of ps END_SENTINEL] by (auto simp: links_of_def END_SENTINEL_def)


lemma take_ok:
  assumes inv: "pool_inv ps" "capacity ps = 128"
    and A: "lseg (links_of ps) END_SENTINEL (xs @ i # ys) END_SENTINEL"
    and B: "lseg (links_of ps) END_SENTINEL B END_SENTINEL"
    and dist: "distinct (xs @ i # ys @ B)"
  obtains ps1 where "dequeue i (first_or END_SENTINEL (xs @ i # ys)) ps = Inr (ps1, first_or END_SENTINEL (xs @ ys))"
    "pool_inv ps1" "capacity ps1 = 128" "core_of ps1 = core_of ps" "lseg (links_of ps1) END_SENTINEL (xs @ ys) END_SENTINEL"
    "lseg (links_of ps1) END_SENTINEL B END_SENTINEL" "at ps1 i \<noteq> None"
proof -
  let ?E = END_SENTINEL
  have head: "(if first_or ?E (xs @ i # ys) = i then first_or ?E ys else first_or ?E (xs @ i # ys)) = first_or ?E (xs @ ys)"
    using dist by (cases xs) auto
  obtain ps1 where ps1: "dequeue i (first_or ?E (xs @ i # ys)) ps = Inr (ps1, first_or ?E (xs @ ys))" "pool_inv ps1"
      "capacity ps1 = capacity ps" "core_of ps1 = core_of ps" "lseg (links_of ps1) ?E (xs @ ys) ?E"
      "\<forall>j. j \<notin> set (xs @ ys) \<longrightarrow> links_of ps1 j = links_of ps j"
    using dequeue_ok [OF inv(1) A _ nil_notin [OF inv A], of "first_or ?E (xs @ i # ys)"] dist unfolding head by auto
  have "lseg (links_of ps1) ?E B ?E" by (rule lseg_cong [OF B]) (use ps1(6) dist in auto)
  moreover have "links_of ps i \<noteq> None" using lseg_mem [OF A, of i] by simp
  then have "core_of ps1 i \<noteq> None" using ps1(4) by (simp add: core_of_def links_of_def)
  then have "at ps1 i \<noteq> None" by (simp add: core_of_def)
  ultimately show thesis using that ps1 inv(2) by simp
qed

lemma move_ok:
  assumes inv: "pool_inv ps" "capacity ps = 128"
    and A: "lseg (links_of ps) END_SENTINEL (xs @ i # ys) END_SENTINEL"
    and B: "lseg (links_of ps) END_SENTINEL B END_SENTINEL"
    and dist: "distinct (xs @ i # ys @ B)"
  shows "\<exists>ps1 ps2. dequeue i (first_or END_SENTINEL (xs @ i # ys)) ps = Inr (ps1, first_or END_SENTINEL (xs @ ys)) \<and>
    enqueue_front i (first_or END_SENTINEL B) ps1 = Inr (ps2, i) \<and> pool_inv ps2 \<and> capacity ps2 = 128 \<and>
    core_of ps2 = core_of ps \<and> lseg (links_of ps2) END_SENTINEL (xs @ ys) END_SENTINEL \<and>
    lseg (links_of ps2) END_SENTINEL (i # B) END_SENTINEL"
proof -
  let ?E = END_SENTINEL
  obtain ps1 where ps1: "dequeue i (first_or ?E (xs @ i # ys)) ps = Inr (ps1, first_or ?E (xs @ ys))" "pool_inv ps1"
      "capacity ps1 = 128" "core_of ps1 = core_of ps" "lseg (links_of ps1) ?E (xs @ ys) ?E" "lseg (links_of ps1) ?E B ?E" "at ps1 i \<noteq> None"
    by (rule take_ok [OF assms])
  have "END_SENTINEL \<notin> set B" using nil_notin [OF inv B] .
  with enqueue_front_ok [OF ps1(2,6,7)] dist obtain ps2 where ps2:
      "enqueue_front i (first_or ?E B) ps1 = Inr (ps2, i)" "pool_inv ps2" "capacity ps2 = capacity ps1"
      "core_of ps2 = core_of ps1" "lseg (links_of ps2) ?E (i # B) ?E" "\<forall>j. j \<notin> set (i # B) \<longrightarrow> links_of ps2 j = links_of ps1 j"
    by auto
  have "lseg (links_of ps2) ?E (xs @ ys) ?E" by (rule lseg_cong [OF ps1(5)]) (use ps2(6) dist in auto)
  with ps1 ps2 show ?thesis by (intro exI [of _ ps1] exI [of _ ps2]) (simp del: lseg.simps)
qed

lemma modify_keeps_links:
  assumes "pool_inv ps" "at ps i = Some p" "\<And>p. prev_process (f p) = prev_process p" "\<And>p. next_process (f p) = next_process p"
  obtains ps' where "modify i f ps = Inr ps'" "pool_inv ps'" "capacity ps' = capacity ps" "links_of ps' = links_of ps"
    "at ps' = (at ps)(i \<mapsto> f p)"
proof -
  obtain ps' where "modify i f ps = Inr ps'" "pool_inv ps'" "capacity ps' = capacity ps" "at ps' = (at ps)(i \<mapsto> f p)"
    using modify_step [OF assms(1,2), of f] by auto
  moreover from this have "links_of ps' = links_of ps" using assms(2-4) by (auto simp: links_of_def fun_eq_iff)
  ultimately show thesis using that by blast
qed

text \<open>What an operation that only moves processes between the lists leaves alone.\<close>

definition frame :: "sched \<Rightarrow> sched \<Rightarrow> bool" where
  "frame s s' \<longleftrightarrow> current_pid s' = current_pid s \<and> idle_process s' = idle_process s \<and> tick_count s' = tick_count s \<and>
     dom (at (processes s')) = dom (at (processes s)) \<and>
     (\<forall>i p q. at (processes s) i = Some p \<longrightarrow> at (processes s') i = Some q \<longrightarrow>
        last_tick q = last_tick p \<and> waiting_process q = waiting_process p \<and> terminating q = terminating p \<and>
        exit_status q = exit_status p)"

lemma core_dom: "core_of ps' = core_of ps \<Longrightarrow> dom (at ps') = dom (at ps)"
  by (auto simp: core_of_def fun_eq_iff dom_def) (metis option.map_disc_iff not_None_eq)+

definition flagged :: "nat \<Rightarrow> bool \<Rightarrow> process pool \<Rightarrow> process pool \<Rightarrow> bool" where
  "flagged pid b ps ps' \<longleftrightarrow> dom (at ps') = dom (at ps) \<and>
     (\<forall>j r'. at ps' j = Some r' \<longrightarrow> (\<exists>r. at ps j = Some r \<and> suspended r' = (if j = pid then b else suspended r) \<and>
        terminating r' = terminating r \<and> last_tick r' = last_tick r \<and> waiting_process r' = waiting_process r \<and> exit_status r' = exit_status r))"

lemma flagged_state:
  assumes "flagged pid b ps ps'"
  shows "state_of ps' i = map_option (\<lambda>(x, t). (if i = pid then b else x, t)) (state_of ps i)"
proof (cases "at ps' i")
  case None
  then have "at ps i = None" using assms unfolding flagged_def by blast
  with None show ?thesis by (simp add: state_of_def)
next
  case (Some r')
  then obtain r where "at ps i = Some r" "suspended r' = (if i = pid then b else suspended r)" "terminating r' = terminating r"
    using assms unfolding flagged_def by blast
  with Some show ?thesis by (simp add: state_of_def)
qed

lemma core_state: "core_of ps' = core_of ps \<Longrightarrow> state_of ps' i = state_of ps i"
proof (cases "at ps' i")
  case None
  moreover assume "core_of ps' = core_of ps"
  ultimately have "at ps i = None" using core_dom [of ps' ps] by blast
  with None show ?thesis by (simp add: state_of_def)
next
  case (Some p)
  moreover assume "core_of ps' = core_of ps"
  ultimately show ?thesis by (auto simp: state_of_def elim: core_at)
qed

lemma flagged_frame:
  assumes "flagged pid b (processes s) (processes s')" "current_pid s' = current_pid s" "idle_process s' = idle_process s"
    "tick_count s' = tick_count s"
  shows "frame s s'"
  using assms by (fastforce simp: flagged_def frame_def)

lemma flip_ok:
  assumes p: "pool_inv ps" "capacity ps = 128"
    and A: "lseg (links_of ps) END_SENTINEL (xs @ i # ys) END_SENTINEL" "lseg (links_of ps) END_SENTINEL B END_SENTINEL"
      "distinct (xs @ i # ys @ B)"
  obtains ps1 ps2 ps3 where "dequeue i (first_or END_SENTINEL (xs @ i # ys)) ps = Inr (ps1, first_or END_SENTINEL (xs @ ys))"
    "enqueue_front i (first_or END_SENTINEL B) ps1 = Inr (ps2, i)"
    "modify i (\<lambda>p. p\<lparr>suspended := b\<rparr>) ps2 = Inr ps3" "pool_inv ps3" "capacity ps3 = 128"
    "lseg (links_of ps3) END_SENTINEL (xs @ ys) END_SENTINEL" "lseg (links_of ps3) END_SENTINEL (i # B) END_SENTINEL"
    "flagged i b ps ps3"
proof -
  let ?E = END_SENTINEL
  obtain ps1 ps2 where m: "dequeue i (first_or ?E (xs @ i # ys)) ps = Inr (ps1, first_or ?E (xs @ ys))"
      "enqueue_front i (first_or ?E B) ps1 = Inr (ps2, i)" "pool_inv ps2" "capacity ps2 = 128"
      "core_of ps2 = core_of ps" "lseg (links_of ps2) ?E (xs @ ys) ?E" "lseg (links_of ps2) ?E (i # B) ?E"
    using move_ok [OF p A] by blast
  obtain q where q: "at ps2 i = Some q" using m(7) links_at [of ps2 i] by auto
  obtain ps3 where m3: "modify i (\<lambda>p. p\<lparr>suspended := b\<rparr>) ps2 = Inr ps3" "pool_inv ps3" "capacity ps3 = capacity ps2"
      "links_of ps3 = links_of ps2" "at ps3 = (at ps2)(i \<mapsto> q\<lparr>suspended := b\<rparr>)"
    using modify_keeps_links [OF m(3) q, of "\<lambda>p. p\<lparr>suspended := b\<rparr>"] by auto
  have "\<exists>r. at ps j = Some r \<and> suspended r' = (if j = i then b else suspended r) \<and> terminating r' = terminating r \<and>
      last_tick r' = last_tick r \<and> waiting_process r' = waiting_process r \<and> exit_status r' = exit_status r" if r': "at ps3 j = Some r'" for j r'
  proof (cases "j = i")
    case True
    with r' m3(5) have "r' = q\<lparr>suspended := b\<rparr>" by simp
    then show ?thesis using core_at [OF m(5) q] True by (metis process.select_convs(4,5,6,10,11) process.surjective process.update_convs(4))
  next
    case False
    with r' m3(5) have "at ps2 j = Some r'" by simp
    then show ?thesis using core_at [OF m(5), of j r'] False by metis
  qed
  then have "flagged i b ps ps3" using core_dom [OF m(5)] m3(5) q by (auto simp: flagged_def)
  then show thesis using that m m3 by simp
qed

lemma suspend_ok:
  assumes inv: "sched_inv R S s" and R: "R = xs @ pid # ys"
  shows "\<exists>s'. proc_suspend pid s = Inr s' \<and> sched_inv (xs @ ys) (pid # S) s' \<and> frame s s'"
proof -
  let ?E = END_SENTINEL and ?ps = "processes s"
  have p: "pool_inv ?ps" "capacity ?ps = 128" "lseg (links_of ?ps) ?E (xs @ pid # ys) ?E" "lseg (links_of ?ps) ?E S ?E"
      "distinct (xs @ pid # ys @ S)" "running_head s = first_or ?E (xs @ pid # ys)" "suspended_head s = first_or ?E S"
    using inv R by (auto simp: sched_inv_def)
  obtain ps1 ps2 ps3 where m: "dequeue pid (running_head s) ?ps = Inr (ps1, first_or ?E (xs @ ys))"
      "enqueue_front pid (suspended_head s) ps1 = Inr (ps2, pid)" "modify pid (\<lambda>p. p\<lparr>suspended := True\<rparr>) ps2 = Inr ps3"
      "pool_inv ps3" "capacity ps3 = 128" "lseg (links_of ps3) ?E (xs @ ys) ?E" "lseg (links_of ps3) ?E (pid # S) ?E"
      "flagged pid True ?ps ps3"
    using flip_ok [OF p(1-5), of True] unfolding p(6,7) by blast
  let ?s' = "s\<lparr>processes := ps3, running_head := first_or ?E (xs @ ys), suspended_head := pid\<rparr>"
  obtain q where q: "at ?ps pid = Some q" using p(3) links_at [of ?ps pid] by (auto simp: lseg_append)
  then have "proc_suspend pid s = Inr ?s'"
    using m(1,2,3) inv p(1) R by (simp add: proc_suspend_def get_at sched_inv_def state_of_def)
  moreover have "frame s ?s'" by (rule flagged_frame [of pid True]) (simp_all add: m(8))
  moreover have "sched_inv (xs @ ys) (pid # S) ?s'"
    using m(4-7) inv R p(5) flagged_state [OF m(8)] by (simp add: sched_inv_def ball_Un) blast
  ultimately show ?thesis by blast
qed

lemma resume_ok:
  assumes inv: "sched_inv R S s" and S: "S = xs @ pid # ys"
  shows "\<exists>s'. proc_resume pid s = Inr s' \<and> sched_inv (pid # R) (xs @ ys) s' \<and> frame s s'"
proof -
  let ?E = END_SENTINEL and ?ps = "processes s"
  have p: "pool_inv ?ps" "capacity ?ps = 128" "lseg (links_of ?ps) ?E (xs @ pid # ys) ?E" "lseg (links_of ?ps) ?E R ?E"
      "distinct (xs @ pid # ys @ R)" "suspended_head s = first_or ?E (xs @ pid # ys)" "running_head s = first_or ?E R"
    using inv S by (auto simp: sched_inv_def)
  obtain ps1 ps2 ps3 where m: "dequeue pid (suspended_head s) ?ps = Inr (ps1, first_or ?E (xs @ ys))"
      "enqueue_front pid (running_head s) ps1 = Inr (ps2, pid)" "modify pid (\<lambda>p. p\<lparr>suspended := False\<rparr>) ps2 = Inr ps3"
      "pool_inv ps3" "capacity ps3 = 128" "lseg (links_of ps3) ?E (xs @ ys) ?E" "lseg (links_of ps3) ?E (pid # R) ?E"
      "flagged pid False ?ps ps3"
    using flip_ok [OF p(1-5), of False] unfolding p(6,7) by blast
  let ?s' = "s\<lparr>processes := ps3, running_head := pid, suspended_head := first_or ?E (xs @ ys)\<rparr>"
  obtain q where q: "at ?ps pid = Some q" using p(3) links_at [of ?ps pid] by (auto simp: lseg_append)
  then have "proc_resume pid s = Inr ?s'"
    using m(1,2,3) inv p(1) S by (simp add: proc_resume_def get_at sched_inv_def state_of_def)
  moreover have "frame s ?s'" by (rule flagged_frame [of pid False]) (simp_all add: m(8))
  moreover have "sched_inv (pid # R) (xs @ ys) ?s'"
    using m(4-7) inv S p(5) flagged_state [OF m(8)] by (simp add: sched_inv_def ball_Un) blast
  ultimately show ?thesis by blast
qed


lemma frame_refl [simp]: "frame s s"
  by (simp add: frame_def)

lemma sched_at:
  assumes "sched_inv R S s"
  shows "i \<in> set R \<Longrightarrow> \<exists>p. at (processes s) i = Some p \<and> \<not> suspended p \<and> \<not> terminating p"
    and "i \<in> set S \<Longrightarrow> \<exists>p. at (processes s) i = Some p \<and> suspended p \<and> \<not> terminating p"
    and "\<exists>p. at (processes s) (idle_process s) = Some p \<and> \<not> suspended p \<and> \<not> terminating p"
  using assms by (auto simp: sched_inv_def state_of_def)

lemma suspend_again: "sched_inv R S s \<Longrightarrow> pid \<in> set S \<Longrightarrow> proc_suspend pid s = Inr s"
  using sched_at(2) [of R S s pid] by (auto simp: proc_suspend_def sched_inv_def get_at)

lemma resume_again: "sched_inv R S s \<Longrightarrow> pid \<in> set R \<Longrightarrow> proc_resume pid s = Inr s"
  using sched_at(1) [of R S s pid] by (auto simp: proc_resume_def sched_inv_def get_at)

lemma enqueue_ok:
  assumes inv: "sched_inv R S s" and p: "at (processes s) pid = Some p" "\<not> suspended p" "\<not> terminating p"
    and new: "pid \<notin> set R" "pid \<notin> set S" "pid \<noteq> idle_process s"
  shows "\<exists>s'. proc_enqueue pid s = Inr s' \<and> sched_inv (pid # R) S s' \<and> frame s s'"
proof -
  let ?E = END_SENTINEL and ?ps = "processes s"
  have i: "pool_inv ?ps" "capacity ?ps = 128" "lseg (links_of ?ps) ?E R ?E" "lseg (links_of ?ps) ?E S ?E" "distinct (R @ S @ [idle_process s])"
      "running_head s = first_or ?E R"
    using inv by (auto simp: sched_inv_def)
  obtain ps where e: "enqueue_front pid (running_head s) ?ps = Inr (ps, pid)" "pool_inv ps" "capacity ps = capacity ?ps"
      "core_of ps = core_of ?ps" "lseg (links_of ps) ?E (pid # R) ?E" "\<forall>j. j \<notin> set (pid # R) \<longrightarrow> links_of ps j = links_of ?ps j"
    using enqueue_front_ok [OF i(1,3), of pid] p(1) new(1) i(5) nil_notin [OF i(1,2,3)] unfolding i(6) by auto
  have S: "lseg (links_of ps) ?E S ?E" by (rule lseg_cong [OF i(4)]) (use e(6) new i(5) in auto)
  have fl: "flagged pid False ?ps ps"
    unfolding flagged_def
  proof (intro conjI allI impI)
    fix j r' assume "at ps j = Some r'"
    then show "\<exists>r. at ?ps j = Some r \<and> suspended r' = (if j = pid then False else suspended r) \<and> terminating r' = terminating r \<and>
        last_tick r' = last_tick r \<and> waiting_process r' = waiting_process r \<and> exit_status r' = exit_status r"
      by (rule core_at [OF e(4)]) (use p(1,2) in auto)
  qed (rule core_dom [OF e(4)])
  let ?s' = "s\<lparr>processes := ps, running_head := pid\<rparr>"
  have "proc_enqueue pid s = Inr ?s'" using e(1) by (simp add: proc_enqueue_def)
  moreover have "frame s ?s'" by (rule flagged_frame [of pid False]) (simp_all add: fl)
  moreover have "sched_inv (pid # R) S ?s'"
    using e(2,3,5) S inv p new flagged_state [OF fl] by (auto simp: sched_inv_def state_of_def [of "processes s" pid])
  ultimately show ?thesis by blast
qed

subsection \<open>Killing\<close>

text \<open>Taking a process out of its list.\<close>

lemma core_frame:
  assumes "core_of (processes s') = core_of (processes s)" "current_pid s' = current_pid s" "idle_process s' = idle_process s"
    "tick_count s' = tick_count s"
  shows "frame s s'"
  unfolding frame_def using assms core_dom [OF assms(1)] by (auto elim!: core_at [OF assms(1)])

lemma unlink_ok:
  assumes inv: "sched_inv R S s" and pid: "pid \<in> set R \<union> set S"
  shows "\<exists>p ps h. at (processes s) pid = Some p \<and>
    dequeue pid (if suspended p then suspended_head s else running_head s) (processes s) = Inr (ps, h) \<and>
    (let s' = (if suspended p then s\<lparr>processes := ps, suspended_head := h\<rparr> else s\<lparr>processes := ps, running_head := h\<rparr>) in
     sched_inv (remove1 pid R) (remove1 pid S) s' \<and> frame s s')"
proof -
  let ?E = END_SENTINEL and ?ps = "processes s"
  have i: "pool_inv ?ps" "capacity ?ps = 128" "lseg (links_of ?ps) ?E R ?E" "lseg (links_of ?ps) ?E S ?E" "distinct (R @ S @ [idle_process s])"
      "running_head s = first_or ?E R" "suspended_head s = first_or ?E S"
    using inv by (auto simp: sched_inv_def)
  show ?thesis
  proof (cases "pid \<in> set R")
    case True
    then obtain xs ys where R: "R = xs @ pid # ys" by (meson split_list)
    obtain p where p: "at ?ps pid = Some p" "\<not> suspended p" using sched_at(1) [OF inv True] by blast
    obtain ps where t: "dequeue pid (first_or ?E (xs @ pid # ys)) ?ps = Inr (ps, first_or ?E (xs @ ys))" "pool_inv ps" "capacity ps = 128"
        "core_of ps = core_of ?ps" "lseg (links_of ps) ?E (xs @ ys) ?E" "lseg (links_of ps) ?E S ?E"
      by (rule take_ok [OF i(1,2), of xs pid ys S]) (use i R in auto)
    have rm: "remove1 pid R = xs @ ys" "remove1 pid S = S" using R i(5) by (auto simp: remove1_append remove1_idem)
    have "sched_inv (xs @ ys) S (s\<lparr>processes := ps, running_head := first_or ?E (xs @ ys)\<rparr>)"
      using t inv R core_state [OF t(4)] by (simp add: sched_inv_def ball_Un)
    then show ?thesis using p t(1,4) R i(6) unfolding rm by (auto intro!: core_frame)
  next
    case False
    then have True: "pid \<in> set S" using pid by simp
    then obtain xs ys where S: "S = xs @ pid # ys" by (meson split_list)
    obtain p where p: "at ?ps pid = Some p" "suspended p" using sched_at(2) [OF inv True] by blast
    obtain ps where t: "dequeue pid (first_or ?E (xs @ pid # ys)) ?ps = Inr (ps, first_or ?E (xs @ ys))" "pool_inv ps" "capacity ps = 128"
        "core_of ps = core_of ?ps" "lseg (links_of ps) ?E (xs @ ys) ?E" "lseg (links_of ps) ?E R ?E"
      by (rule take_ok [OF i(1,2), of xs pid ys R]) (use i S in auto)
    have rm: "remove1 pid S = xs @ ys" "remove1 pid R = R" using S i(5) by (auto simp: remove1_append remove1_idem)
    have "sched_inv R (xs @ ys) (s\<lparr>processes := ps, suspended_head := first_or ?E (xs @ ys)\<rparr>)"
      using t inv S core_state [OF t(4)] by (simp add: sched_inv_def ball_Un)
    then show ?thesis using p t(1,4) S i(7) unfolding rm by (auto intro!: core_frame)
  qed
qed

text \<open>The process waiting for one that ends is woken up.\<close>

definition after_exit :: "nat option \<Rightarrow> nat list \<Rightarrow> nat list \<Rightarrow> nat list \<times> nat list" where
  "after_exit w R S =
     (case w of Some i \<Rightarrow> if i \<in> set S then (i # R, remove1 i S) else (R, S) | None \<Rightarrow> (R, S))"


lemma exit_ok:
  assumes inv: "sched_inv R S s" and p: "at (processes s) pid = Some p"
    and pid: "pid \<notin> set R \<union> set S" "pid \<noteq> idle_process s"
    and w: "set_option (waiting_process p) \<subseteq> set R \<union> set S"
    and R': "(R', S') = after_exit (waiting_process p) R S"
  shows "\<exists>s' p'. process_exit pid status s = Inr s' \<and> sched_inv R' S' s' \<and> current_pid s' = current_pid s \<and>
    idle_process s' = idle_process s \<and> dom (at (processes s')) = dom (at (processes s)) \<and>
    at (processes s') pid = Some p' \<and> terminating p' \<and> exit_status p' = status"
proof -
  let ?f = "\<lambda>p. p\<lparr>terminating := True, exit_status := status\<rparr>"
  have "pool_inv (processes s)" using inv by (simp add: sched_inv_def)
  then obtain ps where m: "modify pid ?f (processes s) = Inr ps" "pool_inv ps" "capacity ps = capacity (processes s)"
      "links_of ps = links_of (processes s)" "at ps = (at (processes s))(pid \<mapsto> ?f p)"
    using modify_keeps_links [OF _ p, of ?f] by auto
  let ?s1 = "s\<lparr>processes := ps\<rparr>"
  have "state_of ps i = state_of (processes s) i" if "i \<noteq> pid" for i using m(5) that by (simp add: state_of_def)
  then have "\<forall>i \<in> insert (idle_process s) (set R \<union> set S). state_of ps i = state_of (processes s) i"
    using pid by (metis Un_iff insert_iff)
  then have inv1: "sched_inv R S ?s1" using inv m(2-4) by (simp add: sched_inv_def)
  have dom1: "dom (at ps) = dom (at (processes s))" using m(5) p by auto
  have ex: "process_exit pid status s = (case waiting_process p of None \<Rightarrow> Inr ?s1 | Some i \<Rightarrow> proc_resume i ?s1)"
    using m by (simp add: process_exit_def get_at split: option.split)
  have fin: ?thesis if run: "process_exit pid status s = Inr s'" "sched_inv R' S' s'" "frame ?s1 s'" for s'
  proof -
    have d: "dom (at (processes s')) = dom (at ps)" using run(3) by (simp add: frame_def)
    moreover have at1: "at (processes ?s1) pid = Some (?f p)" using m(5) by simp
    ultimately obtain q where q: "at (processes s') pid = Some q" by auto
    have "terminating q = terminating (?f p) \<and> exit_status q = exit_status (?f p)"
      using run(3) at1 q unfolding frame_def by blast
    moreover have "current_pid s' = current_pid s" "idle_process s' = idle_process s" using run(3) by (simp_all add: frame_def)
    ultimately show ?thesis using run(1,2) q d dom1 by simp
  qed
  show ?thesis
  proof (cases "waiting_process p")
    case None
    then show ?thesis using fin [of ?s1] ex inv1 R' by (simp add: after_exit_def)
  next
    case (Some i)
    show ?thesis
    proof (cases "i \<in> set S")
      case True
      then obtain xs ys where S: "S = xs @ i # ys" "i \<notin> set xs" by (meson split_list_first)
      obtain s' where "proc_resume i ?s1 = Inr s'" "sched_inv (i # R) (xs @ ys) s'" "frame ?s1 s'"
        using resume_ok [OF inv1 S(1)] by blast
      then show ?thesis using fin [of s'] ex Some True R' S by (simp add: after_exit_def remove1_append)
    next
      case False
      then have "proc_resume i ?s1 = Inr ?s1" using resume_again [OF inv1, of i] w Some by auto
      then show ?thesis using fin [of ?s1] ex Some False inv1 R' by (simp add: after_exit_def)
    qed
  qed
qed

lemma kill_ok:
  assumes inv: "sched_inv R S s" and pid: "pid \<in> set R \<union> set S" and p: "at (processes s) pid = Some p"
    and w: "set_option (waiting_process p) \<subseteq> set R \<union> set S - {pid}"
    and R': "(R', S') = after_exit (waiting_process p) (remove1 pid R) (remove1 pid S)"
  shows "\<exists>s' p'. proc_kill pid status s = Inr s' \<and> sched_inv R' S' s' \<and> current_pid s' = current_pid s \<and>
    dom (at (processes s')) = dom (at (processes s)) \<and>
    at (processes s') pid = Some p' \<and> terminating p' \<and> exit_status p' = status"
proof -
  have ne: "pid \<noteq> idle_process s" and d: "distinct R" "distinct S" "set R \<inter> set S = {}"
    using inv pid by (auto simp: sched_inv_def)
  obtain ps h where u: "dequeue pid (if suspended p then suspended_head s else running_head s) (processes s) = Inr (ps, h)"
    "sched_inv (remove1 pid R) (remove1 pid S) (if suspended p then s\<lparr>processes := ps, suspended_head := h\<rparr> else s\<lparr>processes := ps, running_head := h\<rparr>)"
    "frame s (if suspended p then s\<lparr>processes := ps, suspended_head := h\<rparr> else s\<lparr>processes := ps, running_head := h\<rparr>)"
    using unlink_ok [OF inv pid] p by (auto simp: Let_def)
  define s1 where "s1 = (if suspended p then s\<lparr>processes := ps, suspended_head := h\<rparr> else s\<lparr>processes := ps, running_head := h\<rparr>)"
  obtain q where q: "at (processes s1) pid = Some q" "waiting_process q = waiting_process p"
  proof -
    have "frame s s1" using u(3) by (simp add: s1_def)
    moreover from this obtain q where "at (processes s1) pid = Some q" using p unfolding frame_def by blast
    ultimately show thesis using that [of q] p by (simp add: frame_def)
  qed
  have k: "proc_kill pid status s = process_exit pid status s1"
    using ne p u(1) inv by (simp add: proc_kill_def s1_def sched_inv_def valid_at get_at)
  have "frame s s1" using u(3) by (simp add: s1_def)
  then have "idle_process s1 = idle_process s" "current_pid s1 = current_pid s" "dom (at (processes s1)) = dom (at (processes s))"
    by (simp_all add: frame_def)
  moreover have "set_option (waiting_process q) \<subseteq> set (remove1 pid R) \<union> set (remove1 pid S)"
    using w q(2) d by (auto simp: set_remove1_eq)
  moreover have "pid \<notin> set (remove1 pid R) \<union> set (remove1 pid S)" using d by (simp add: set_remove1_eq)
  moreover have "(R', S') = after_exit (waiting_process q) (remove1 pid R) (remove1 pid S)" using R' q(2) by simp
  moreover note exit_ok [OF u(2) [folded s1_def] q(1), of R' S' status]
  ultimately show ?thesis unfolding k using ne by auto
qed


subsection \<open>Choosing the next process\<close>

definition tick_of :: "process pool \<Rightarrow> nat \<Rightarrow> nat" where
  "tick_of ps i = (case at ps i of Some p \<Rightarrow> last_tick p | None \<Rightarrow> 0)"

text \<open>The first of those that have waited longest.\<close>

fun longest_waiting :: "(nat \<Rightarrow> nat) \<Rightarrow> nat list \<Rightarrow> nat option" where
  "longest_waiting t [] = None"
| "longest_waiting t (x # xs) =
     (case longest_waiting t xs of None \<Rightarrow> Some x | Some y \<Rightarrow> if t x \<le> t y then Some x else Some y)"

lemma longest_waiting_None: "longest_waiting t xs = None \<longleftrightarrow> xs = []"
  by (cases xs) (auto split: option.split)

lemma longest_waiting_min: "longest_waiting t xs = Some y \<Longrightarrow> y \<in> set xs \<and> (\<forall>x \<in> set xs. t y \<le> t x)"
  by (induction xs arbitrary: y) (fastforce split: option.splits if_splits simp: longest_waiting_None)+

lemma decide_loop_ok:
  assumes "pool_inv ps" "lseg (links_of ps) p xs END_SENTINEL" "END_SENTINEL \<notin> set xs" "length xs < fuel"
  shows "decide_loop fuel ps (first_or END_SENTINEL xs) m pid =
    Inr (case longest_waiting (tick_of ps) xs of None \<Rightarrow> pid | Some y \<Rightarrow> if tick_of ps y < m then y else pid)"
  using assms
proof (induction xs arbitrary: fuel p m pid)
  case Nil
  then show ?case by (cases fuel) auto
next
  case (Cons x xs)
  then obtain f where f: "fuel = Suc f" by (cases fuel) auto
  obtain q where q: "at ps x = Some q" "next_process q = first_or END_SENTINEL xs"
    using Cons.prems(2) links_at [of ps x] by auto
  have t: "last_tick q = tick_of ps x" using q(1) by (simp add: tick_of_def)
  have IH: "decide_loop f ps (first_or END_SENTINEL xs) m' pid' =
      Inr (case longest_waiting (tick_of ps) xs of None \<Rightarrow> pid' | Some y \<Rightarrow> if tick_of ps y < m' then y else pid')" for m' pid'
    using Cons.IH [of x f m' pid'] Cons.prems f by simp
  show ?case using Cons.prems(1,3) f q t IH by (auto simp: get_at split: option.split)
qed

lemma distinct_small_length:
  assumes "pool_inv ps" "capacity ps = 128" "lseg (links_of ps) p xs n" "distinct xs"
  shows "length xs \<le> 128"
proof -
  have "set xs \<subseteq> {..<128}" using at_small [OF assms(1,2)] lseg_mem [OF assms(3)] by (auto simp: links_of_def)
  then have "card (set xs) \<le> 128" using card_mono [of "{..<128::nat}" "set xs"] by simp
  then show ?thesis using assms(4) by (simp add: distinct_card)
qed

text \<open>No process has run later than now, and the counter has not come round.\<close>

definition ticks_ok :: "sched \<Rightarrow> bool" where
  "ticks_ok s \<longleftrightarrow> tick_count s < TICK_MAX \<and> (\<forall>p \<in> ran (at (processes s)). last_tick p \<le> tick_count s)"

lemma ticks_ok_tick: "ticks_ok s \<Longrightarrow> tick_of (processes s) i \<le> tick_count s"
  by (auto simp: ticks_ok_def tick_of_def ran_def split: option.split)

lemma decide_ok:
  assumes inv: "sched_inv R S s" and t: "ticks_ok s"
  shows "decide_next_process s =
    Inr (case longest_waiting (tick_of (processes s)) R of None \<Rightarrow> idle_process s | Some y \<Rightarrow> y)"
proof -
  let ?ps = "processes s"
  have i: "pool_inv ?ps" "capacity ?ps = 128" "lseg (links_of ?ps) END_SENTINEL R END_SENTINEL" "distinct R"
      "running_head s = first_or END_SENTINEL R"
    using inv by (auto simp: sched_inv_def)
  have nil: "END_SENTINEL \<notin> set R" by (rule nil_notin [OF i(1-3)])
  have "tick_of ?ps y < TICK_MAX" for y using ticks_ok_tick [OF t, of y] t by (simp add: ticks_ok_def)
  moreover have "longest_waiting (tick_of ?ps) R = Some y \<Longrightarrow> y \<noteq> END_SENTINEL" for y
    using longest_waiting_min nil by blast
  ultimately show ?thesis
    using decide_loop_ok [OF i(1,3) nil, of 129 TICK_MAX END_SENTINEL] distinct_small_length [OF i(1-4)] i(2,5)
    by (simp add: decide_next_process_def split: option.split)
qed

subsection \<open>Yielding\<close>

lemma stamp_ok:
  assumes inv: "sched_inv R S s" and at: "at (processes s) pid \<noteq> None"
  obtains ps where "modify pid (\<lambda>p. p\<lparr>last_tick := t\<rparr>) (processes s) = Inr ps" "sched_inv R S (s\<lparr>processes := ps\<rparr>)"
    "dom (at ps) = dom (at (processes s))" "tick_of ps = (tick_of (processes s))(pid := t)"
    "ran (at ps) \<subseteq> insert ((the (at (processes s) pid))\<lparr>last_tick := t\<rparr>) (ran (at (processes s)))"
proof -
  obtain p where p: "at (processes s) pid = Some p" using at by blast
  have "pool_inv (processes s)" using inv by (simp add: sched_inv_def)
  then obtain ps where m: "modify pid (\<lambda>p. p\<lparr>last_tick := t\<rparr>) (processes s) = Inr ps" "pool_inv ps"
      "capacity ps = capacity (processes s)" "links_of ps = links_of (processes s)" "at ps = (at (processes s))(pid \<mapsto> p\<lparr>last_tick := t\<rparr>)"
    using modify_keeps_links [OF _ p, of "\<lambda>p. p\<lparr>last_tick := t\<rparr>"] by auto
  have st: "state_of ps = state_of (processes s)" using m(5) p by (auto simp: state_of_def fun_eq_iff)
  have "sched_inv R S (s\<lparr>processes := ps\<rparr>)" using inv m(2-4) st by (simp add: sched_inv_def)
  moreover have "tick_of ps = (tick_of (processes s))(pid := t)" using m(5) by (auto simp: tick_of_def fun_eq_iff)
  moreover have "dom (at ps) = dom (at (processes s))" using m(5) p by auto
  moreover have "ran (at ps) \<subseteq> insert (p\<lparr>last_tick := t\<rparr>) (ran (at (processes s)))"
    unfolding m(5) by (auto simp: ran_def)
  ultimately show thesis using that m(1) p by simp
qed

lemma ran_ticks_ok:
  assumes "ticks_ok s" "ran (at ps) \<subseteq> insert (p\<lparr>last_tick := t\<rparr>) (ran (at (processes s)))" "t \<le> c" "tick_count s \<le> c" "c < TICK_MAX"
  shows "ticks_ok (s\<lparr>tick_count := c, processes := ps\<rparr>)"
  using assms by (fastforce simp: ticks_ok_def)

lemma sched_inv_tick [simp]: "sched_inv R S (s\<lparr>tick_count := t\<rparr>) = sched_inv R S s"
  "sched_inv R S (s\<lparr>current_pid := c\<rparr>) = sched_inv R S s"
  by (simp_all add: sched_inv_def)

lemma ticks_ok_current [simp]: "ticks_ok (s\<lparr>current_pid := c\<rparr>) = ticks_ok s"
  by (simp add: ticks_ok_def)

text \<open>The ticks the choice is made on: the process that yields is stamped first.\<close>

definition stamped :: "sched \<Rightarrow> nat \<Rightarrow> nat" where
  "stamped s = (if at (processes s) (current_pid s) = None then tick_of (processes s)
                else (tick_of (processes s))(current_pid s := tick_count s + 1))"

definition chosen :: "nat list \<Rightarrow> sched \<Rightarrow> nat" where
  "chosen R s = (case longest_waiting (stamped s) R of None \<Rightarrow> idle_process s | Some y \<Rightarrow> y)"

lemma stamp_current:
  assumes inv: "sched_inv R S s" and t: "ticks_ok s" "tick_count s + 1 < TICK_MAX"
    and s1: "s1 = s\<lparr>tick_count := tick_count s + 1\<rparr>"
  obtains s2 where "(if valid (current_pid s1) (processes s1)
      then bindR (modify (current_pid s1) (\<lambda>p. p\<lparr>last_tick := tick_count s1\<rparr>) (processes s1)) (\<lambda>ps. Inr (s1\<lparr>processes := ps\<rparr>))
      else Inr s1) = Inr s2" "sched_inv R S s2" "ticks_ok s2" "tick_of (processes s2) = stamped s" "current_pid s2 = current_pid s"
    "tick_count s2 = tick_count s + 1" "idle_process s2 = idle_process s" "dom (at (processes s2)) = dom (at (processes s))"
proof (cases "at (processes s) (current_pid s)")
  case None
  have "ticks_ok s1" using t by (auto simp: ticks_ok_def s1)
  then show thesis using that [of s1] None inv by (simp add: s1 stamped_def sched_inv_def valid_at)
next
  case (Some p)
  obtain ps where ps: "modify (current_pid s) (\<lambda>p. p\<lparr>last_tick := tick_count s + 1\<rparr>) (processes s) = Inr ps"
      "sched_inv R S (s\<lparr>processes := ps\<rparr>)" "dom (at ps) = dom (at (processes s))"
      "tick_of ps = (tick_of (processes s))(current_pid s := tick_count s + 1)"
      "ran (at ps) \<subseteq> insert (p\<lparr>last_tick := tick_count s + 1\<rparr>) (ran (at (processes s)))"
    using stamp_ok [OF inv, of "current_pid s" "tick_count s + 1"] Some by auto
  have "ticks_ok (s\<lparr>tick_count := tick_count s + 1, processes := ps\<rparr>)"
    by (rule ran_ticks_ok [OF t(1) ps(5)]) (use t in auto)
  moreover have "sched_inv R S (s\<lparr>tick_count := tick_count s + 1, processes := ps\<rparr>)"
    using ps(2) by (simp add: sched_inv_def)
  moreover have "valid (current_pid s) (processes s)" using Some inv by (simp add: sched_inv_def valid_at)
  ultimately show thesis using that [of "s1\<lparr>processes := ps\<rparr>"] ps Some by (simp add: s1 stamped_def)
qed

lemma switch_ok:
  assumes inv: "sched_inv R S s" and t: "ticks_ok s" and pid: "pid \<in> insert (idle_process s) (set R)"
    and cur: "current_pid s = pid \<Longrightarrow> tick_of (processes s) pid = tick_count s"
  obtains s' where "proc_switch pid s = Inr s'" "sched_inv R S s'" "ticks_ok s'" "current_pid s' = pid"
    "tick_count s' = tick_count s" "idle_process s' = idle_process s" "tick_of (processes s') = (tick_of (processes s))(pid := tick_count s)"
proof (cases "proc_current_pid s = Some pid")
  case True
  then have "current_pid s = pid" by (simp add: proc_current_pid_def split: if_splits)
  moreover from this have "(tick_of (processes s))(pid := tick_count s) = tick_of (processes s)" using cur by auto
  ultimately show thesis using that [of s] inv t True by (simp add: proc_switch_def)
next
  case False
  obtain p where p: "at (processes s) pid = Some p" "\<not> suspended p" "\<not> terminating p"
    using sched_at(1) [OF inv, of pid] sched_at(3) [OF inv] pid by auto
  obtain ps where ps: "modify pid (\<lambda>p. p\<lparr>last_tick := tick_count s\<rparr>) (processes s) = Inr ps" "sched_inv R S (s\<lparr>processes := ps\<rparr>)"
      "tick_of ps = (tick_of (processes s))(pid := tick_count s)"
      "ran (at ps) \<subseteq> insert (p\<lparr>last_tick := tick_count s\<rparr>) (ran (at (processes s)))"
    by (rule stamp_ok [OF inv, of pid "tick_count s"]) (use p(1) in auto)
  have "ticks_ok (s\<lparr>tick_count := tick_count s, processes := ps\<rparr>)"
    by (rule ran_ticks_ok [OF t ps(4)]) (use t in \<open>auto simp: ticks_ok_def\<close>)
  then have "ticks_ok (s\<lparr>processes := ps\<rparr>)" by simp
  moreover have "proc_switch pid s = Inr (s\<lparr>processes := ps, current_pid := pid\<rparr>)"
    using False p ps(1) inv by (simp add: proc_switch_def switch_process_def get_at sched_inv_def)
  ultimately show thesis using that [of "s\<lparr>processes := ps, current_pid := pid\<rparr>"] ps(2,3) by simp
qed

lemma yield_ok:
  assumes inv: "sched_inv R S s" and t: "ticks_ok s" "tick_count s + 1 < TICK_MAX"
  obtains s' where "proc_yield s = Inr s'" "sched_inv R S s'" "ticks_ok s'" "current_pid s' = chosen R s"
    "tick_count s' = tick_count s + 1" "idle_process s' = idle_process s"
    "tick_of (processes s') = (stamped s)(chosen R s := tick_count s + 1)"
proof -
  define s1 where "s1 = s\<lparr>tick_count := tick_count s + 1\<rparr>"
  obtain s2 where s2: "(if valid (current_pid s1) (processes s1)
      then bindR (modify (current_pid s1) (\<lambda>p. p\<lparr>last_tick := tick_count s1\<rparr>) (processes s1)) (\<lambda>ps. Inr (s1\<lparr>processes := ps\<rparr>))
      else Inr s1) = Inr s2" "sched_inv R S s2" "ticks_ok s2" "tick_of (processes s2) = stamped s" "current_pid s2 = current_pid s"
    "tick_count s2 = tick_count s + 1" "idle_process s2 = idle_process s" "dom (at (processes s2)) = dom (at (processes s))"
    by (rule stamp_current [OF inv t s1_def])
  have d: "decide_next_process s2 = Inr (chosen R s)"
    using decide_ok [OF s2(2,3)] s2(4,7) by (simp add: chosen_def split: option.split)
  have mem: "chosen R s \<in> insert (idle_process s2) (set R)"
    using longest_waiting_min [of "stamped s" R] s2(7) by (auto simp: chosen_def split: option.split)
  have "at (processes s2) (chosen R s) \<noteq> None" using sched_at(1) [OF s2(2), of "chosen R s"] sched_at(3) [OF s2(2)] mem by auto
  then have "at (processes s) (chosen R s) \<noteq> None" using s2(8) by blast
  then have cur: "current_pid s2 = chosen R s \<Longrightarrow> tick_of (processes s2) (chosen R s) = tick_count s2"
    using s2(4-6) by (auto simp: stamped_def)
  have "s\<lparr>tick_count := (tick_count s + 1) mod (TICK_MAX + 1)\<rparr> = s1" using t by (simp add: s1_def)
  then have y: "proc_yield s = proc_switch (chosen R s) s2" using s2(1) d by (simp add: proc_yield_def Let_def)
  show thesis by (rule switch_ok [OF s2(2,3) mem cur]) (use that s2 y in auto)
qed


fun yields :: "nat \<Rightarrow> sched \<Rightarrow> sched res" where
  "yields 0 s = Inr s"
| "yields (Suc k) s = bindR (proc_yield s) (yields k)"

text \<open>The processes that may be chosen before \<open>p\<close>: each yield that does not choose \<open>p\<close> takes one out.\<close>

definition before :: "nat list \<Rightarrow> nat \<Rightarrow> sched \<Rightarrow> nat set" where
  "before R p s = {q \<in> set R. q \<noteq> p \<and> stamped s q \<le> stamped s p}"

lemma before_bound: "distinct R \<Longrightarrow> p \<in> set R \<Longrightarrow> card (before R p s) < length R"
  using psubset_card_mono [of "set R" "before R p s"] by (auto simp: before_def distinct_card)

lemma stamped_le: "ticks_ok s \<Longrightarrow> stamped s q \<le> tick_count s + 1"
  using ticks_ok_tick [of s q] by (auto simp: stamped_def)

lemma yield_before:
  assumes inv: "sched_inv R S s" and t: "ticks_ok s" "tick_count s + 1 < TICK_MAX" and p: "p \<in> set R" "chosen R s \<noteq> p"
    and y: "proc_yield s = Inr s'"
  shows "card (before R p s') < card (before R p s)"
proof -
  obtain s'' where s'': "proc_yield s = Inr s''" "sched_inv R S s''" "current_pid s'' = chosen R s"
      "tick_count s'' = tick_count s + 1" "tick_of (processes s'') = (stamped s)(chosen R s := tick_count s + 1)"
    by (rule yield_ok [OF inv t])
  then have eq: "s'' = s'" using y by simp
  obtain c where c: "longest_waiting (stamped s) R = Some c" using p(1) longest_waiting_None by fastforce
  then have ch: "chosen R s = c" by (simp add: chosen_def)
  have m: "c \<in> set R" "stamped s c \<le> stamped s p" using longest_waiting_min [OF c] p(1) by auto
  have "at (processes s'') c \<noteq> None" using sched_at(1) [OF s''(2) m(1)] by blast
  then have st: "stamped s' = (stamped s)(c := tick_count s + 2)" using s'' ch eq by (auto simp: stamped_def)
  have "c \<in> before R p s" "c \<notin> before R p s'" using m p ch st stamped_le [OF t(1), of p] by (auto simp: before_def)
  moreover have "before R p s' \<subseteq> before R p s" using st ch p(2) stamped_le [OF t(1), of p] by (auto simp: before_def split: if_splits)
  moreover have "finite (before R p s)" by (simp add: before_def)
  ultimately show ?thesis by (intro psubset_card_mono) auto
qed

lemma yields_reach:
  assumes "sched_inv R S s" "ticks_ok s" "p \<in> set R" "card (before R p s) \<le> n" "tick_count s + n + 1 < TICK_MAX"
  shows "\<exists>k s'. 0 < k \<and> k \<le> Suc n \<and> yields k s = Inr s' \<and> sched_inv R S s' \<and> current_pid s' = p"
  using assms
proof (induction n arbitrary: s)
  case 0
  have "chosen R s = p"
  proof (rule ccontr)
    assume "chosen R s \<noteq> p"
    moreover obtain s' where "proc_yield s = Inr s'" by (rule yield_ok [OF 0(1,2)]) (use 0(5) in auto)
    ultimately show False using yield_before [OF 0(1,2) _ 0(3), of s'] 0(4,5) by simp
  qed
  moreover obtain s' where "proc_yield s = Inr s'" "sched_inv R S s'" "current_pid s' = chosen R s"
    by (rule yield_ok [OF 0(1,2)]) (use 0(5) in auto)
  ultimately show ?case by (intro exI [of _ 1] exI [of _ s']) simp
next
  case (Suc n)
  obtain s1 where s1: "proc_yield s = Inr s1" "sched_inv R S s1" "ticks_ok s1" "current_pid s1 = chosen R s"
      "tick_count s1 = tick_count s + 1"
    by (rule yield_ok [OF Suc.prems(1,2)]) (use Suc.prems(5) in auto)
  show ?case
  proof (cases "chosen R s = p")
    case True
    then show ?thesis using s1 by (intro exI [of _ 1] exI [of _ s1]) simp
  next
    case False
    then have "card (before R p s1) < card (before R p s)"
      using yield_before [OF Suc.prems(1,2) _ Suc.prems(3) _ s1(1)] Suc.prems(5) by simp
    then obtain k s' where "0 < k" "k \<le> Suc n" "yields k s1 = Inr s'" "sched_inv R S s'" "current_pid s' = p"
      using Suc.IH [OF s1(2,3) Suc.prems(3)] Suc.prems(4,5) s1(5) by auto
    then show ?thesis using s1(1) by (intro exI [of _ "Suc k"] exI [of _ s']) simp
  qed
qed

subsection \<open>Starting up\<close>

lemma new_process_ok:
  assumes "pool_inv (processes s)" "capacity (processes s) = 128" "card (dom (at (processes s))) < 128"
  obtains pid s' where "new_process sp c fl a b s = Inr (pid, s')" "at (processes s) pid = None"
    "at (processes s') = (at (processes s))(pid \<mapsto> process_init sp c fl a b)" "pool_inv (processes s')" "capacity (processes s') = 128"
    "s' = s\<lparr>processes := processes s'\<rparr>"
proof -
  obtain ps pid where e: "emplace_anywhere (process_init sp c fl a b) (processes s) = Inr (ps, pid)"
    using pl.alloc_total [OF assms(1), of "process_init sp c fl a b"] assms(2,3) by auto
  then show thesis using that [of pid "s\<lparr>processes := ps\<rparr>"] pl.alloc_step [OF assms(1) e] assms(2) by (simp add: new_process_def)
qed

lemma new_process_inv:
  assumes inv: "sched_inv R S s" and room: "card (dom (at (processes s))) < 128"
  obtains pid s' where "new_process sp c fl a b s = Inr (pid, s')" "sched_inv R S s'"
    "at (processes s) pid = None" "at (processes s') = (at (processes s))(pid \<mapsto> process_init sp c fl a b)"
    "s' = s\<lparr>processes := processes s'\<rparr>" "pid \<notin> set R" "pid \<notin> set S" "pid \<noteq> idle_process s"
proof -
  have i: "pool_inv (processes s)" "capacity (processes s) = 128" using inv by (auto simp: sched_inv_def)
  obtain pid s' where n: "new_process sp c fl a b s = Inr (pid, s')" "at (processes s) pid = None"
    "at (processes s') = (at (processes s))(pid \<mapsto> process_init sp c fl a b)" "pool_inv (processes s')" "capacity (processes s') = 128"
    "s' = s\<lparr>processes := processes s'\<rparr>"
    by (rule new_process_ok [OF i room])
  have fresh: "pid \<notin> set R" "pid \<notin> set S" "pid \<noteq> idle_process s" using sched_at [OF inv] n(2) by (metis option.distinct(1))+
  have f: "running_head s' = running_head s" "suspended_head s' = suspended_head s" "idle_process s' = idle_process s"
    by (subst n(6), simp)+
  have "links_of (processes s') i = links_of (processes s) i \<and> state_of (processes s') i = state_of (processes s) i" if "i \<noteq> pid" for i
    using that n(3) by (simp add: links_of_def state_of_def)
  then have same: "\<forall>i \<in> insert (idle_process s) (set R \<union> set S). links_of (processes s') i = links_of (processes s) i \<and>
      state_of (processes s') i = state_of (processes s) i" using fresh by (metis Un_iff insert_iff)
  moreover have "lseg (links_of (processes s')) END_SENTINEL R END_SENTINEL" "lseg (links_of (processes s')) END_SENTINEL S END_SENTINEL"
    by (rule lseg_cong [of "links_of (processes s)"]; use inv same in \<open>simp add: sched_inv_def\<close>)+
  ultimately have "sched_inv R S s'" using inv n(4,5) f by (simp add: sched_inv_def)
  then show thesis using that n fresh by blast
qed

lemma proc_init_ok:
  obtains s p where "proc_init sp c a b sched_init = Inr s" "sched_inv [] [] s" "ticks_ok s" "tick_count s = 0"
    "at (processes s) = [idle_process s \<mapsto> p]"
proof -
  obtain pid s where n: "new_process sp c 2 a b sched_init = Inr (pid, s)"
    "at (processes s) = [pid \<mapsto> process_init sp c 2 a b]" "pool_inv (processes s)" "capacity (processes s) = 128"
    "s = sched_init\<lparr>processes := processes s\<rparr>"
    using new_process_ok [of sched_init sp c 2 a b] by (auto simp: sched_init_def)
  have f: "running_head s = END_SENTINEL" "suspended_head s = END_SENTINEL" "tick_count s = 0"
    by (subst n(5), simp add: sched_init_def)+
  then show thesis
    using n that [of "s\<lparr>idle_process := pid\<rparr>" "process_init sp c 2 a b"]
    by (simp add: proc_init_def sched_inv_def state_of_def process_init_def ticks_ok_def TICK_MAX_def)
qed


lemma frame_ticks:
  assumes fr: "frame s s'" and t: "ticks_ok s"
  shows "ticks_ok s'"
  unfolding ticks_ok_def
proof (intro conjI ballI)
  have c: "tick_count s' = tick_count s" using fr by (simp add: frame_def)
  then show "tick_count s' < TICK_MAX" using t by (simp add: ticks_ok_def)
  fix q assume "q \<in> ran (at (processes s'))"
  then obtain i where i: "at (processes s') i = Some q" by (auto simp: ran_def)
  then obtain p where p: "at (processes s) i = Some p" using fr unfolding frame_def by blast
  then have "last_tick q = last_tick p" using fr i unfolding frame_def by blast
  moreover have "last_tick p \<le> tick_count s" using t p by (auto simp: ticks_ok_def ran_def)
  ultimately show "last_tick q \<le> tick_count s'" using c by simp
qed

lemma one_process:
  obtains s pid p where "sched_inv [pid] [] s" "ticks_ok s" "tick_count s = 0" "card (dom (at (processes s))) < 128"
    "at (processes s) pid = Some p" "waiting_process p = None"
proof -
  obtain s0 q where s0: "sched_inv [] [] s0" "ticks_ok s0" "tick_count s0 = 0" "at (processes s0) = [idle_process s0 \<mapsto> q]"
    using proc_init_ok [of 0 0 0 0] by metis
  obtain pid s1 where s1: "sched_inv [] [] s1" "at (processes s1) = (at (processes s0))(pid \<mapsto> process_init 0 0 0 0 0)"
      "s1 = s0\<lparr>processes := processes s1\<rparr>" "pid \<notin> set []" "pid \<notin> set []" "pid \<noteq> idle_process s0"
    by (rule new_process_inv [OF s0(1), of 0 0 0 0 0]) (use s0(4) in auto)
  have f: "idle_process s1 = idle_process s0" "tick_count s1 = 0" by (subst s1(3), simp add: s0(3))+
  have p1: "at (processes s1) pid = Some (process_init 0 0 0 0 0)" using s1(2) by simp
  obtain s2 where s2: "sched_inv [pid] [] s2" "frame s1 s2"
    using enqueue_ok [OF s1(1) p1] s1(6) f(1) by (auto simp: process_init_def)
  have d: "dom (at (processes s2)) = {pid, idle_process s0}" using s2(2) s1(2) s0(4) by (auto simp: frame_def)
  then obtain p where p: "at (processes s2) pid = Some p" by blast
  have "waiting_process p = waiting_process (process_init 0 0 0 0 0)" using s2(2) p p1 unfolding frame_def by blast
  moreover have "last_tick r \<le> 0" if "r \<in> ran (at (processes s1))" for r
    using that s1(2) s0 by (auto simp: ran_def ticks_ok_def process_init_def split: if_splits)
  then have "ticks_ok s1" using f(2) by (simp add: ticks_ok_def TICK_MAX_def)
  moreover have "tick_count s2 = 0" using s2(2) f(2) by (simp add: frame_def)
  moreover have "card (dom (at (processes s2))) < 128" unfolding d by (cases "pid = idle_process s0") auto
  ultimately show thesis using that [OF s2(1)] frame_ticks [OF s2(2)] p by (simp add: process_init_def)
qed

subsection \<open>Properties\<close>



text \<open>
  \<^bold>\<open>C4.\<close> Every running process gets the processor within as many yields as there are running
  processes: each of those yields returns and keeps the lists, as long as the tick counter does
  not come round meanwhile.
\<close>

theorem every_running_process_runs:
  assumes "sched_inv R S s" "ticks_ok s" "pid \<in> set R" "tick_count s + length R < TICK_MAX"
  shows "\<exists>k s'. 0 < k \<and> k \<le> length R \<and> yields k s = Inr s' \<and> sched_inv R S s' \<and> proc_current_pid s' = Some pid"
proof -
  have "distinct R" using assms(1) by (simp add: sched_inv_def)
  then have c: "card (before R pid s) < length R" using before_bound assms(3) by blast
  then obtain k s' where "0 < k" "k \<le> Suc (card (before R pid s))" "yields k s = Inr s'" "sched_inv R S s'" "current_pid s' = pid"
    using yields_reach [OF assms(1-3) order_refl] assms(4) by auto
  moreover from this have "pid \<noteq> END_SENTINEL"
    using assms(3) nil_notin [of "processes s'" END_SENTINEL R END_SENTINEL] by (auto simp: sched_inv_def)
  ultimately show ?thesis using c by (intro exI [of _ k] exI [of _ s']) (auto simp: proc_current_pid_def)
qed

theorem every_running_process_runs_witness:
  "\<exists>s pid s'. sched_inv [pid] [] s \<and> yields 1 s = Inr s' \<and> proc_current_pid s' = Some pid"
proof -
  obtain s pid where s: "sched_inv [pid] [] s" "ticks_ok s" "tick_count s = 0" by (rule one_process)
  then obtain k s' where "0 < k" "k \<le> length [pid]" "yields k s = Inr s'" "proc_current_pid s' = Some pid"
    using every_running_process_runs [OF s(1,2), of pid] by (auto simp: TICK_MAX_def)
  moreover from this have "k = 1" by simp
  ultimately show ?thesis using s(1) by blast
qed

end
