(* ===== verification/Memory.thy ===== *)
theory Memory
  imports Page_Alloc VFS
begin

text \<open>
  Memory management of \<open>kernel/memory.cc\<close>: address spaces with their areas, page directories and
  page tables, demand paging, copying a space on fork, and portals between spaces.

  Page directories and tables are pages of two allocators inside the kernel image, addressed by
  their kernel virtual address; \<open>page_dirs\<close> and \<open>page_tables\<close> hold their entries. \<open>phys\<close> is
  the contents of physical memory. What the kernel reads or writes through a virtual address
  goes through the tables of the active space. The translation buffer of the processor is left
  out: an entry that changes is always invalidated when its space is the active one.
\<close>

subsection \<open>Constants\<close>

definition KERNEL_VIRTUAL_BASE :: int where "KERNEL_VIRTUAL_BASE = 0xC0000000"
definition KERNEL_SCRATCH_BASE :: int where "KERNEL_SCRATCH_BASE = 0xE0000000"

definition PHYS2KERNVIRT :: "int \<Rightarrow> int" where "PHYS2KERNVIRT a = u32 (a + KERNEL_VIRTUAL_BASE)"
definition KERNVIRT2PHYS :: "int \<Rightarrow> int" where "KERNVIRT2PHYS a = u32 (a - KERNEL_VIRTUAL_BASE)"

definition AREA_LINEAR_MAP :: nat where "AREA_LINEAR_MAP = 1"
definition AREA_ALLOC :: nat where "AREA_ALLOC = 2"
definition AREA_FILE :: nat where "AREA_FILE = 3"

type_synonym mflags = "16 word"

definition MEM_PE_P :: mflags where "MEM_PE_P = 0x0001"
definition MEM_PE_RW :: mflags where "MEM_PE_RW = 0x0002"
definition MEM_PE_U :: mflags where "MEM_PE_U = 0x0004"
definition MEM_PE_W :: mflags where "MEM_PE_W = 0x0008"
definition MEM_PE_D :: mflags where "MEM_PE_D = 0x0010"
definition MEM_PDE_S :: mflags where "MEM_PDE_S = 0x0080"
definition MEM_PTE_D :: mflags where "MEM_PTE_D = 0x0040"
definition MEM_PTE_G :: mflags where "MEM_PTE_G = 0x0080"

definition MEM_AREA_READWRITE :: mflags where "MEM_AREA_READWRITE = 0x0001"
definition MEM_AREA_EXECUTABLE :: mflags where "MEM_AREA_EXECUTABLE = 0x0002"
definition MEM_AREA_USER :: mflags where "MEM_AREA_USER = 0x0004"
definition MEM_AREA_CACHE_DISABLED :: mflags where "MEM_AREA_CACHE_DISABLED = 0x0008"
definition MEM_AREA_GLOBAL :: mflags where "MEM_AREA_GLOBAL = 0x0010"
definition MEM_AREA_SYSCALL :: mflags where "MEM_AREA_SYSCALL = 0x0100"
definition MEM_AREA_RETAIN_EXEC :: mflags where "MEM_AREA_RETAIN_EXEC = 0x0200"
definition MEM_AREA_NO_FORK :: mflags where "MEM_AREA_NO_FORK = 0x0400"

subsection \<open>Data\<close>

record page_dir_entry =
  pde_flags :: mflags
  table_11_31 :: int

record page_table_entry =
  pte_flags :: mflags
  frame_11_31 :: int

record area_info =
  area_start :: int
  area_end :: int
  area_type :: nat
  area_flags :: mflags
  info_handle :: nat

record linear_map_info =
  phys_start :: int

record file_map_info =
  fm_fd :: int
  fm_offset :: int
  fm_size :: int

record space_info =
  page_dir :: int
  areas :: "area_info pool"
  linear_maps :: "linear_map_info pool"
  file_maps :: "file_map_info pool"

record mem =
  page_dir_allocator :: page_allocator
  page_table_allocator :: page_allocator
  user_space_allocator :: "page_allocator option"
  spaces :: "space_info pool"
  current_space :: nat
  page_dirs :: "int \<Rightarrow> int \<Rightarrow> page_dir_entry"
  page_tables :: "int \<Rightarrow> int \<Rightarrow> page_table_entry"
  phys :: "int \<Rightarrow> byte"

definition space_info_init :: "int \<Rightarrow> space_info" where
  "space_info_init dir = \<lparr>page_dir = dir, areas = fixed_pool 32, linear_maps = fixed_pool 16, file_maps = fixed_pool 16\<rparr>"

definition pde_zero :: page_dir_entry where "pde_zero = \<lparr>pde_flags = 0, table_11_31 = 0\<rparr>"
definition pte_zero :: page_table_entry where "pte_zero = \<lparr>pte_flags = 0, frame_11_31 = 0\<rparr>"

subsection \<open>Page tables\<close>

definition page_flags :: "mflags \<Rightarrow> mflags" where
  "page_flags mem_flags =
     MEM_PE_P OR (if mem_flags AND MEM_AREA_READWRITE \<noteq> 0 then MEM_PE_RW else 0)
       OR (if mem_flags AND MEM_AREA_USER \<noteq> 0 then MEM_PE_U else 0)
       OR (if mem_flags AND MEM_AREA_CACHE_DISABLED \<noteq> 0 then MEM_PE_D else 0)
       OR (if mem_flags AND MEM_AREA_GLOBAL \<noteq> 0 then MEM_PTE_G else 0)"

definition table_addr :: "page_dir_entry \<Rightarrow> int" where
  "table_addr pde = PHYS2KERNVIRT (table_11_31 pde * 0x1000)"

definition find_pte :: "mem \<Rightarrow> space_info \<Rightarrow> int \<Rightarrow> page_table_entry option res" where
  "find_pte s sp va =
     (let pde = page_dirs s (page_dir sp) (va div 0x400000) in
      if pde_flags pde AND MEM_PE_P = 0 then Inr None
      else assertR (table_addr pde \<noteq> 0)
            (let pte = page_tables s (table_addr pde) (va div 0x1000 mod 1024)
             in Inr (if pte_flags pte AND MEM_PE_P = 0 then None else Some pte)))"

definition pte_frame :: "page_table_entry \<Rightarrow> int" where
  "pte_frame pte = frame_11_31 pte * 0x1000"

text \<open>The flags of an entry are a field of 12 bits.\<close>

definition write_pte :: "int \<Rightarrow> int \<Rightarrow> int \<Rightarrow> mflags \<Rightarrow> mem \<Rightarrow> mem" where
  "write_pte table idx pa flags s =
     s\<lparr>page_tables := (page_tables s)(table := (page_tables s table)(idx :=
         \<lparr>pte_flags = flags AND 0xFFF, frame_11_31 = pa div 0x1000\<rparr>))\<rparr>"

definition write_pde :: "int \<Rightarrow> int \<Rightarrow> page_dir_entry \<Rightarrow> mem \<Rightarrow> mem" where
  "write_pde dir idx e s = s\<lparr>page_dirs := (page_dirs s)(dir := (page_dirs s dir)(idx := e))\<rparr>"

definition map_page :: "nat \<Rightarrow> int \<Rightarrow> int \<Rightarrow> mflags \<Rightarrow> mem \<Rightarrow> mem res" where
  "map_page h virt pa flags s =
     assertR (page_aligned virt) (assertR (page_aligned pa)
      (bindR (get (spaces s) h) (\<lambda>sp.
       let idx = virt div 0x400000;
           pde = page_dirs s (page_dir sp) idx;
           new_flags = flags AND NOT (MEM_PDE_S OR MEM_PTE_D)
       in if pde_flags pde AND MEM_PE_P = 0
          then if flags AND MEM_PE_P = 0 then Inr s
               else bindR (alloc_page (page_table_allocator s)) (\<lambda>(al, table).
                    Inr (write_pte table (virt div 0x1000 mod 1024) pa flags
                          (write_pde (page_dir sp) idx
                            \<lparr>pde_flags = new_flags AND 0xFFF, table_11_31 = KERNVIRT2PHYS table div 0x1000\<rparr>
                            (s\<lparr>page_table_allocator := al, page_tables := (page_tables s)(table := (\<lambda>_. pte_zero))\<rparr>))))
          else Inr (write_pte (table_addr pde) (virt div 0x1000 mod 1024) pa flags
                     (write_pde (page_dir sp) idx (pde\<lparr>pde_flags := (pde_flags pde OR new_flags) AND 0xFFF\<rparr>) s)))))"

definition mem_alloc_page :: "mem \<Rightarrow> (mem \<times> int) res" where
  "mem_alloc_page s =
     (case user_space_allocator s of
        None \<Rightarrow> Inl Panic
      | Some al \<Rightarrow> bindR (alloc_page al) (\<lambda>(al', a). Inr (s\<lparr>user_space_allocator := Some al'\<rparr>, a)))"

definition mem_free_page :: "int \<Rightarrow> mem \<Rightarrow> mem res" where
  "mem_free_page a s =
     (case user_space_allocator s of
        None \<Rightarrow> Inl Panic
      | Some al \<Rightarrow> bindR (free_page a al) (\<lambda>al'. Inr (s\<lparr>user_space_allocator := Some al'\<rparr>)))"

text \<open>
  The frame behind a page of the active space. An access the tables do not cover is a fault of
  the kernel itself.
\<close>

definition active_frame :: "mem \<Rightarrow> int \<Rightarrow> int res" where
  "active_frame s va =
     bindR (get (spaces s) (current_space s)) (\<lambda>sp.
     bindR (find_pte s sp va) (\<lambda>r. case r of None \<Rightarrow> Inl OutOfBounds | Some pte \<Rightarrow> Inr (pte_frame pte)))"

definition write_frame :: "int \<Rightarrow> byte list \<Rightarrow> mem \<Rightarrow> mem" where
  "write_frame f bs s =
     s\<lparr>phys := (\<lambda>a. if f \<le> a \<and> a < f + int (length bs) then bs ! nat (a - f) else phys s a)\<rparr>"

definition read_frame :: "int \<Rightarrow> mem \<Rightarrow> byte list" where
  "read_frame f s = map (\<lambda>i. phys s (f + int i)) [0..<0x1000]"

text \<open>Writing bytes to a page of the active space.\<close>

definition write_virt :: "int \<Rightarrow> byte list \<Rightarrow> mem \<Rightarrow> mem res" where
  "write_virt va bs s = bindR (active_frame s va) (\<lambda>f. Inr (write_frame f bs s))"

text \<open>
  \<open>for (a = start; a < end; a += 0x1000)\<close>. The address has 2 to the 20 pages; a loop that
  takes more turns than that has wrapped around.
\<close>

fun page_loop :: "nat \<Rightarrow> (int \<Rightarrow> 's \<Rightarrow> 's res) \<Rightarrow> int \<Rightarrow> int \<Rightarrow> 's \<Rightarrow> 's res" where
  "page_loop 0 f a e s = Inl Diverges"
| "page_loop (Suc n) f a e s =
     (if a < e then bindR (f a s) (page_loop n f (u32 (a + 0x1000)) e) else Inr s)"

definition PAGE_TURNS :: nat where "PAGE_TURNS = 1048577"

subsection \<open>Areas\<close>

definition area_list :: "area_info pool \<Rightarrow> area_info list res" where
  "area_list p = foldr (\<lambda>i r. bindR (get p i) (\<lambda>a. bindR r (\<lambda>as. Inr (a # as)))) (iter_from p (pool_begin p)) (Inr [])"

definition overlaps_existing_area :: "nat \<Rightarrow> int \<Rightarrow> int \<Rightarrow> mem \<Rightarrow> bool res" where
  "overlaps_existing_area h start e s =
     bindR (get (spaces s) h) (\<lambda>sp.
     bindR (area_list (areas sp)) (\<lambda>as. Inr (\<exists>a \<in> set as. start < area_end a \<and> area_start a < e)))"

definition put_area :: "nat \<Rightarrow> area_info \<Rightarrow> mem \<Rightarrow> (mem \<times> nat) res" where
  "put_area h a s =
     bindR (get (spaces s) h) (\<lambda>sp.
     bindR (emplace_anywhere a (areas sp)) (\<lambda>(p, i).
     bindR (modify h (\<lambda>sp. sp\<lparr>areas := p\<rparr>) (spaces s)) (\<lambda>ps. Inr (s\<lparr>spaces := ps\<rparr>, i))))"

definition mem_map_alloc :: "nat \<Rightarrow> int \<Rightarrow> int \<Rightarrow> mflags \<Rightarrow> mem \<Rightarrow> (mem \<times> nat) res" where
  "mem_map_alloc h start e flags s =
     bindR (overlaps_existing_area h start e s) (\<lambda>o'. assertR (\<not> o')
      (put_area h \<lparr>area_start = start, area_end = e, area_type = AREA_ALLOC, area_flags = flags, info_handle = 0\<rparr> s))"

definition put_linear_map :: "nat \<Rightarrow> linear_map_info \<Rightarrow> mem \<Rightarrow> (mem \<times> nat) res" where
  "put_linear_map h m s =
     bindR (get (spaces s) h) (\<lambda>sp.
     bindR (emplace_anywhere m (linear_maps sp)) (\<lambda>(p, i).
     bindR (modify h (\<lambda>sp. sp\<lparr>linear_maps := p\<rparr>) (spaces s)) (\<lambda>ps. Inr (s\<lparr>spaces := ps\<rparr>, i))))"

definition mem_map_linear :: "nat \<Rightarrow> int \<Rightarrow> int \<Rightarrow> int \<Rightarrow> mflags \<Rightarrow> mem \<Rightarrow> (mem \<times> nat) res" where
  "mem_map_linear h start e pa flags s =
     bindR (overlaps_existing_area h start e s) (\<lambda>o'. assertR (\<not> o')
      (bindR (put_linear_map h \<lparr>phys_start = pa\<rparr> s) (\<lambda>(s1, m).
       put_area h \<lparr>area_start = start, area_end = e, area_type = AREA_LINEAR_MAP, area_flags = flags, info_handle = m\<rparr> s1)))"

definition mem_map_linear_eager :: "nat \<Rightarrow> int \<Rightarrow> int \<Rightarrow> int \<Rightarrow> mflags \<Rightarrow> mem \<Rightarrow> (mem \<times> nat) res" where
  "mem_map_linear_eager h start e pa flags s =
     bindR (overlaps_existing_area h start e s) (\<lambda>o'. assertR (\<not> o')
      (bindR (page_loop PAGE_TURNS (\<lambda>a. map_page h a (u32 (pa + (a - start))) (page_flags flags)) start e s) (\<lambda>s1.
       bindR (put_linear_map h \<lparr>phys_start = pa\<rparr> s1) (\<lambda>(s2, m).
       put_area h \<lparr>area_start = start, area_end = e, area_type = AREA_LINEAR_MAP, area_flags = flags, info_handle = m\<rparr> s2))))"

definition put_file_map :: "nat \<Rightarrow> file_map_info \<Rightarrow> mem \<Rightarrow> (mem \<times> nat) res" where
  "put_file_map h m s =
     bindR (get (spaces s) h) (\<lambda>sp.
     bindR (emplace_anywhere m (file_maps sp)) (\<lambda>(p, i).
     bindR (modify h (\<lambda>sp. sp\<lparr>file_maps := p\<rparr>) (spaces s)) (\<lambda>ps. Inr (s\<lparr>spaces := ps\<rparr>, i))))"

definition mem_map_fd :: "nat \<Rightarrow> int \<Rightarrow> int \<Rightarrow> int \<Rightarrow> int \<Rightarrow> int \<Rightarrow> mflags \<Rightarrow> mem \<Rightarrow> (mem \<times> nat) res" where
  "mem_map_fd h start e fd offset sz flags s =
     bindR (overlaps_existing_area h start e s) (\<lambda>o'. assertR (\<not> o') (assertR (2 < fd)
      (bindR (put_file_map h \<lparr>fm_fd = fd, fm_offset = offset, fm_size = sz\<rparr> s) (\<lambda>(s1, m).
       put_area h \<lparr>area_start = start, area_end = e, area_type = AREA_FILE, area_flags = flags, info_handle = m\<rparr> s1))))"

text \<open>The areas are tried in the order of their handles.\<close>

fun find_area_loop :: "area_info pool \<Rightarrow> int \<Rightarrow> nat list \<Rightarrow> nat option res" where
  "find_area_loop p address [] = Inr None"
| "find_area_loop p address (i # is) =
     (if \<not> valid i p then find_area_loop p address is
      else bindR (get p i) (\<lambda>a.
           if area_start a \<le> address \<and> address < area_end a then Inr (Some i) else find_area_loop p address is))"

definition mem_find_area :: "nat \<Rightarrow> int \<Rightarrow> mem \<Rightarrow> nat option res" where
  "mem_find_area h address s =
     bindR (get (spaces s) h) (\<lambda>sp. find_area_loop (areas sp) address [0..<watermark (areas sp)])"

definition mem_area_flags :: "nat \<Rightarrow> int \<Rightarrow> mem \<Rightarrow> mflags option res" where
  "mem_area_flags h address s =
     bindR (mem_find_area h address s) (\<lambda>r.
     case r of
       None \<Rightarrow> Inr None
     | Some i \<Rightarrow> bindR (get (spaces s) h) (\<lambda>sp. bindR (get (areas sp) i) (\<lambda>a. Inr (Some (area_flags a)))))"

subsection \<open>Pointers from user space\<close>

text \<open>\<open>h\<close> is the space of the calling process.\<close>

definition valid_pointer :: "nat \<Rightarrow> int \<Rightarrow> mem \<Rightarrow> bool res" where
  "valid_pointer h address s =
     bindR (mem_area_flags h address s) (\<lambda>r. Inr (case r of None \<Rightarrow> False | Some f \<Rightarrow> f AND MEM_AREA_SYSCALL \<noteq> 0))"

definition valid_buffer :: "nat \<Rightarrow> int \<Rightarrow> int \<Rightarrow> mem \<Rightarrow> bool res" where
  "valid_buffer h address len s =
     bindR (valid_pointer h address s) (\<lambda>ok.
     if \<not> ok then Inr False
     else bindR (mem_find_area h address s) (\<lambda>start_area.
          if start_area = None then Inr False
          else bindR (mem_find_area h (u32 (address + len)) s) (\<lambda>end_area.
               if end_area = None then Inr False else Inr (start_area = end_area))))"


subsection \<open>Spaces\<close>

definition mem_create_space :: "mem \<Rightarrow> (mem \<times> nat) res" where
  "mem_create_space s =
     bindR (alloc_page (page_dir_allocator s)) (\<lambda>(al, dir).
     bindR (emplace_anywhere (space_info_init dir) (spaces s)) (\<lambda>(ps, h).
     Inr (s\<lparr>page_dir_allocator := al, page_dirs := (page_dirs s)(dir := (\<lambda>_. pde_zero)), spaces := ps\<rparr>, h)))"

definition mem_set_current_space :: "nat \<Rightarrow> mem \<Rightarrow> mem" where
  "mem_set_current_space h s = s\<lparr>current_space := h\<rparr>"

definition mem_page_dir :: "nat \<Rightarrow> mem \<Rightarrow> int res" where
  "mem_page_dir h s = bindR (get (spaces s) h) (\<lambda>sp. Inr (KERNVIRT2PHYS (page_dir sp)))"

definition unmap_page :: "nat \<Rightarrow> area_info \<Rightarrow> int \<Rightarrow> mem \<Rightarrow> mem res" where
  "unmap_page h area a s =
     bindR (get (spaces s) h) (\<lambda>sp.
     bindR (find_pte s sp a) (\<lambda>r.
     case r of
       None \<Rightarrow> Inr s
     | Some pte \<Rightarrow>
         bindR (if area_type area = AREA_ALLOC \<or> area_type area = AREA_FILE
                then mem_free_page (pte_frame pte) s else Inr s) (map_page h a 0xDEAD000 0)))"

definition unmap_area :: "nat \<Rightarrow> nat \<Rightarrow> mem \<Rightarrow> mem res" where
  "unmap_area h i s =
     bindR (get (spaces s) h) (\<lambda>sp.
     bindR (get (areas sp) i) (\<lambda>area.
     bindR (page_loop PAGE_TURNS (unmap_page h area) (area_start area) (area_end area) s) (\<lambda>s1.
     bindR (get (spaces s1) h) (\<lambda>sp1.
     bindR (erase i (areas sp1)) (\<lambda>p.
     bindR (modify h (\<lambda>sp. sp\<lparr>areas := p\<rparr>) (spaces s1)) (\<lambda>ps. Inr (s1\<lparr>spaces := ps\<rparr>)))))))"

text \<open>A loop over the handles below the watermark of the areas; a space has at most 32.\<close>

fun unmap_loop :: "nat \<Rightarrow> nat \<Rightarrow> (area_info \<Rightarrow> bool) \<Rightarrow> nat \<Rightarrow> mem \<Rightarrow> mem res" where
  "unmap_loop 0 i drop_it h s = Inl Diverges"
| "unmap_loop (Suc n) i drop_it h s =
     bindR (get (spaces s) h) (\<lambda>sp.
     if \<not> i < watermark (areas sp) then Inr s
     else if \<not> valid i (areas sp) then unmap_loop n (i + 1) drop_it h s
     else bindR (get (areas sp) i) (\<lambda>area.
          if drop_it area then bindR (unmap_area h i s) (unmap_loop n (i + 1) drop_it h)
          else unmap_loop n (i + 1) drop_it h s))"

definition mem_unmap_not_matching :: "nat \<Rightarrow> mflags \<Rightarrow> mem \<Rightarrow> mem res" where
  "mem_unmap_not_matching h flags s = unmap_loop 33 0 (\<lambda>area. area_flags area AND flags = 0) h s"

fun free_tables :: "nat list \<Rightarrow> nat \<Rightarrow> mem \<Rightarrow> mem res" where
  "free_tables [] h s = Inr s"
| "free_tables (i # is) h s =
     bindR (get (spaces s) h) (\<lambda>sp.
     let pde = page_dirs s (page_dir sp) (int i) in
     if pde_flags pde AND MEM_PE_P = 0 then free_tables is h s
     else bindR (free_page (table_addr pde) (page_table_allocator s)) (\<lambda>al.
          free_tables is h (write_pde (page_dir sp) (int i) pde_zero (s\<lparr>page_table_allocator := al\<rparr>))))"

definition mem_destroy_space :: "nat \<Rightarrow> mem \<Rightarrow> mem res" where
  "mem_destroy_space h s =
     assertR (h \<noteq> current_space s)
      (bindR (unmap_loop 33 0 (\<lambda>_. True) h s) (\<lambda>s1.
       bindR (free_tables [0..<1024] h s1) (\<lambda>s2.
       bindR (get (spaces s2) h) (\<lambda>sp.
       bindR (free_page (page_dir sp) (page_dir_allocator s2)) (\<lambda>al.
       bindR (erase h (spaces s2)) (\<lambda>ps. Inr (s2\<lparr>page_dir_allocator := al, spaces := ps\<rparr>)))))))"

subsection \<open>Forking\<close>

text \<open>\<open>caller\<close> is the space of the calling process.\<close>

definition copy_page_contents :: "nat \<Rightarrow> int \<Rightarrow> int \<Rightarrow> mem \<Rightarrow> mem res" where
  "copy_page_contents caller source_phys dest_phys s =
     assertR (page_aligned source_phys) (assertR (page_aligned dest_phys)
      (bindR (map_page caller 0xFFFE0000 source_phys (MEM_PE_P OR MEM_PE_RW OR MEM_PE_D) s) (\<lambda>s1.
       bindR (map_page caller 0xFFFE1000 dest_phys (MEM_PE_P OR MEM_PE_RW OR MEM_PE_D) s1) (\<lambda>s2.
       bindR (active_frame s2 0xFFFE0000) (\<lambda>from.
       bindR (write_virt 0xFFFE1000 (read_frame from s2) s2) (\<lambda>s3.
       bindR (map_page caller 0xFFFE0000 0 0 s3) (map_page caller 0xFFFE1000 0 0)))))))"

definition copy_linear_page :: "nat \<Rightarrow> nat \<Rightarrow> int \<Rightarrow> mem \<Rightarrow> mem res" where
  "copy_linear_page source dest a s =
     bindR (get (spaces s) source) (\<lambda>sp.
     bindR (find_pte s sp a) (\<lambda>r.
     case r of None \<Rightarrow> Inr s | Some pte \<Rightarrow> map_page dest a (pte_frame pte) (pte_flags pte) s))"

definition copy_alloc_page :: "nat \<Rightarrow> nat \<Rightarrow> mflags \<Rightarrow> nat \<Rightarrow> int \<Rightarrow> mem \<Rightarrow> mem res" where
  "copy_alloc_page caller source flags dest a s =
     bindR (get (spaces s) source) (\<lambda>sp.
     bindR (find_pte s sp a) (\<lambda>r.
     case r of
       None \<Rightarrow> Inr s
     | Some pte \<Rightarrow>
         bindR (mem_alloc_page s) (\<lambda>(s1, new).
         bindR (map_page dest a new (page_flags flags) s1) (copy_page_contents caller (pte_frame pte) new))))"

definition copy_area :: "nat \<Rightarrow> area_info \<Rightarrow> nat \<Rightarrow> nat \<Rightarrow> mem \<Rightarrow> mem res" where
  "copy_area caller area source dest s =
     bindR (get (spaces s) source) (\<lambda>sp.
     if area_type area = AREA_LINEAR_MAP
     then bindR (get (linear_maps sp) (info_handle area)) (\<lambda>m.
          bindR (mem_map_linear dest (area_start area) (area_end area) (phys_start m) (area_flags area) s) (\<lambda>(s1, _).
          page_loop PAGE_TURNS (copy_linear_page source dest) (area_start area) (area_end area) s1))
     else if area_type area = AREA_FILE
     then bindR (get (file_maps sp) (info_handle area)) (\<lambda>m.
          bindR (mem_map_fd dest (area_start area) (area_end area) (fm_fd m) (fm_offset m) (fm_size m) (area_flags area) s) (\<lambda>(s1, _).
          Inr s1))
     else if area_type area = AREA_ALLOC
     then bindR (mem_map_alloc dest (area_start area) (area_end area) (area_flags area) s) (\<lambda>(s1, _).
          page_loop PAGE_TURNS (copy_alloc_page caller source (area_flags area) dest) (area_start area) (area_end area) s1)
     else Inr s)"

fun copy_areas :: "nat \<Rightarrow> nat list \<Rightarrow> nat \<Rightarrow> nat \<Rightarrow> mem \<Rightarrow> mem res" where
  "copy_areas caller [] source dest s = Inr s"
| "copy_areas caller (i # is) source dest s =
     bindR (get (spaces s) source) (\<lambda>sp.
     bindR (get (areas sp) i) (\<lambda>area.
     if area_flags area AND MEM_AREA_NO_FORK \<noteq> 0 then copy_areas caller is source dest s
     else bindR (copy_area caller area source dest s) (copy_areas caller is source dest)))"

definition mem_fork_space :: "nat \<Rightarrow> nat \<Rightarrow> mem \<Rightarrow> (mem \<times> nat) res" where
  "mem_fork_space caller h s =
     bindR (get (spaces s) h) (\<lambda>_.
     bindR (mem_create_space s) (\<lambda>(s1, new).
     bindR (get (spaces s1) h) (\<lambda>sp.
     bindR (copy_areas caller (iter_from (areas sp) (pool_begin (areas sp))) h new s1) (\<lambda>s2. Inr (s2, new)))))"

subsection \<open>Writing into another space\<close>

definition area_at :: "nat \<Rightarrow> int \<Rightarrow> mem \<Rightarrow> (nat \<times> area_info) option res" where
  "area_at h address s =
     bindR (mem_find_area h address s) (\<lambda>r.
     case r of
       None \<Rightarrow> Inr None
     | Some i \<Rightarrow> bindR (get (spaces s) h) (\<lambda>sp. bindR (get (areas sp) i) (\<lambda>a. Inr (Some (i, a)))))"

definition mem_write_page :: "nat \<Rightarrow> int \<Rightarrow> byte list \<Rightarrow> mem \<Rightarrow> mem res" where
  "mem_write_page h va bs s =
     assertR (page_aligned va)
      (bindR (area_at h va s) (\<lambda>r.
       case r of
         None \<Rightarrow> Inl Panic
       | Some (i, area) \<Rightarrow>
           assertR (area_type area = AREA_ALLOC)
            (bindR (get (spaces s) h) (\<lambda>sp.
             bindR (find_pte s sp va) (\<lambda>e.
             bindR (case e of
                      Some pte \<Rightarrow> Inr (s, pte)
                    | None \<Rightarrow>
                        bindR (mem_alloc_page s) (\<lambda>(s1, new).
                        bindR (map_page h va new (page_flags (area_flags area)) s1) (\<lambda>s2.
                        bindR (find_pte s2 sp va) (\<lambda>e2. case e2 of None \<Rightarrow> Inl Panic | Some pte \<Rightarrow> Inr (s2, pte))))) (\<lambda>(s3, pte).
             assertR (length bs \<le> 0x1000)
              (bindR (map_page (current_space s3) KERNEL_SCRATCH_BASE (pte_frame pte)
                       (MEM_PE_P OR MEM_PE_RW OR MEM_PE_W OR MEM_PE_D) s3) (\<lambda>s4.
               bindR (write_virt KERNEL_SCRATCH_BASE bs s4) (\<lambda>s5.
               map_page (current_space s5) KERNEL_SCRATCH_BASE 0 0 s5)))))))))"

definition portal_page :: "int \<Rightarrow> nat \<Rightarrow> int \<Rightarrow> mflags \<Rightarrow> mflags \<Rightarrow> int \<Rightarrow> mem \<Rightarrow> mem res" where
  "portal_page va dest dest_va flags dest_flags offset s =
     bindR (get (spaces s) dest) (\<lambda>sp.
     bindR (find_pte s sp (u32 (dest_va + offset))) (\<lambda>r.
     case r of
       Some pte \<Rightarrow> map_page (current_space s) (u32 (va + offset)) (pte_frame pte) (page_flags flags) s
     | None \<Rightarrow>
         bindR (mem_alloc_page s) (\<lambda>(s1, new).
         bindR (map_page (current_space s1) (u32 (va + offset)) new (page_flags flags) s1)
           (map_page dest (u32 (dest_va + offset)) new (page_flags dest_flags)))))"

definition mem_map_portal :: "int \<Rightarrow> int \<Rightarrow> nat \<Rightarrow> int \<Rightarrow> mflags \<Rightarrow> mem \<Rightarrow> mem res" where
  "mem_map_portal va len dest dest_va flags s =
     bindR (area_at dest dest_va s) (\<lambda>start_area.
     bindR (area_at dest (u32 (dest_va + len - 1)) s) (\<lambda>end_area.
     case (start_area, end_area) of
       (Some (i, area), Some (j, _)) \<Rightarrow>
         assertR (area_type area = AREA_ALLOC) (assertR (i = j)
          (page_loop PAGE_TURNS (portal_page va dest dest_va flags (area_flags area)) 0 len s))
     | _ \<Rightarrow> Inl Panic))"

definition mem_unmap_portal :: "int \<Rightarrow> int \<Rightarrow> mem \<Rightarrow> mem res" where
  "mem_unmap_portal va len s =
     page_loop PAGE_TURNS (\<lambda>offset s. map_page (current_space s) (u32 (va + offset)) 0xDEAD0000 0 s) 0 len s"

subsection \<open>Page faults\<close>

definition page_fault_linear_map :: "area_info \<Rightarrow> int \<Rightarrow> mem \<Rightarrow> mem res" where
  "page_fault_linear_map area address s =
     bindR (get (spaces s) (current_space s)) (\<lambda>sp.
     bindR (get (linear_maps sp) (info_handle area)) (\<lambda>m.
     let page = address AND NOT 0xFFF
     in map_page (current_space s) page (u32 (phys_start m + (page - area_start area))) (page_flags (area_flags area)) s))"

text \<open>A fresh zeroed page, writable for now, and the end of both handlers that use one.\<close>

definition fresh_page :: "area_info \<Rightarrow> int \<Rightarrow> mem \<Rightarrow> (mem \<times> int) res" where
  "fresh_page area page s =
     bindR (mem_alloc_page s) (\<lambda>(s1, new).
     bindR (map_page (current_space s1) page new (page_flags (area_flags area OR MEM_AREA_READWRITE)) s1) (\<lambda>s2.
     bindR (write_virt page (replicate 0x1000 0) s2) (\<lambda>s3. Inr (s3, new))))"

definition protect_page :: "area_info \<Rightarrow> int \<Rightarrow> int \<Rightarrow> mem \<Rightarrow> mem res" where
  "protect_page area page new s =
     (if area_flags area AND MEM_AREA_READWRITE \<noteq> 0 then Inr s
      else map_page (current_space s) page new (page_flags (area_flags area AND NOT MEM_AREA_READWRITE)) s)"

definition page_fault_alloc :: "area_info \<Rightarrow> int \<Rightarrow> mem \<Rightarrow> mem res" where
  "page_fault_alloc area address s =
     (let page = address AND NOT 0xFFF
      in bindR (fresh_page area page s) (\<lambda>(s1, new). protect_page area page new s1))"

definition SEEK_BEG :: int where "SEEK_BEG = 2"

text \<open>The file is read with the descriptor context \<open>ctx\<close> of the process.\<close>

definition page_fault_file ::
  "(nat \<Rightarrow> nat \<Rightarrow> byte) \<Rightarrow> nat \<Rightarrow> area_info \<Rightarrow> int \<Rightarrow> mem \<times> 'd vfs \<Rightarrow> (mem \<times> 'd vfs) res" where
  "page_fault_file junk ctx area address = (\<lambda>(s, v).
     let page = address AND NOT 0xFFF in
     bindR (fresh_page area page s) (\<lambda>(s1, new).
     bindR (get (spaces s1) (current_space s1)) (\<lambda>sp.
     bindR (get (file_maps sp) (info_handle area)) (\<lambda>m.
     let file_offset = u32 (page - area_start area + fm_offset m);
         read_count = min (u32 (fm_offset m + fm_size m - file_offset)) 0x1000
     in bindR (vfs_seek ctx (nat (fm_fd m)) (s32 file_offset) SEEK_BEG v) (\<lambda>(ret, v1).
        assertR (0 \<le> ret)
         (bindR (vfs_read junk ctx (nat (fm_fd m)) read_count v1) (\<lambda>(r, data, v2).
          case r of
            Inl _ \<Rightarrow> Inl Panic
          | Inr _ \<Rightarrow> bindR (write_virt page data s1) (\<lambda>s2.
                      bindR (protect_page area page new s2) (\<lambda>s3. Inr (s3, v2)))))))))) "

datatype 'm fault_outcome = Handled 'm | Kill_Caller

definition int_page_fault ::
  "(nat \<Rightarrow> nat \<Rightarrow> byte) \<Rightarrow> nat \<Rightarrow> nat \<Rightarrow> int \<Rightarrow> mem \<times> 'd vfs \<Rightarrow> (mem \<times> 'd vfs) fault_outcome res" where
  "int_page_fault junk ctx error_code address = (\<lambda>(s, v).
     if odd error_code then Inr Kill_Caller
     else bindR (area_at (current_space s) address s) (\<lambda>r.
          case r of
            None \<Rightarrow> Inr Kill_Caller
          | Some (i, area) \<Rightarrow>
              if area_type area = AREA_LINEAR_MAP
              then bindR (page_fault_linear_map area address s) (\<lambda>s1. Inr (Handled (s1, v)))
              else if area_type area = AREA_ALLOC
              then bindR (page_fault_alloc area address s) (\<lambda>s1. Inr (Handled (s1, v)))
              else if area_type area = AREA_FILE
              then bindR (page_fault_file junk ctx area address (s, v)) (\<lambda>sv. Inr (Handled sv))
              else Inl Panic))"

definition sys_mmap :: "int \<Rightarrow> int \<Rightarrow> int \<Rightarrow> int \<Rightarrow> byte \<Rightarrow> mem \<Rightarrow> mem res" where
  "sys_mmap start e fd offset flags s =
     bindR (mem_map_fd (current_space s) start e fd offset 4294967295 (ucast flags OR MEM_AREA_USER) s) (\<lambda>(s1, _). Inr s1)"


subsection \<open>Start-up\<close>

text \<open>What the linker and the boot loader tell: the end of the kernel, of its read-only part and of the modules.\<close>

record kernel_image =
  kernel_end :: int
  readonly_start :: int
  readonly_stop :: int
  multiboot_last_address :: int

definition ALIGN_UP :: "int \<Rightarrow> int" where "ALIGN_UP a = u32 (a + 0xFFF) AND NOT 0xFFF"
definition ALIGN_DOWN :: "int \<Rightarrow> int" where "ALIGN_DOWN a = a AND NOT 0xFFF"

text \<open>A segment reaches from its address to the next one; \<open>None\<close> stands for the flags -1, a gap.\<close>

fun map_segments :: "nat \<Rightarrow> int \<Rightarrow> mflags option \<Rightarrow> (int \<times> mflags option) list \<Rightarrow> mem \<Rightarrow> mem res" where
  "map_segments h current_address last_flags [] s = Inr s"
| "map_segments h current_address last_flags ((va, flags) # segs) s =
     bindR (case last_flags of
              Some f \<Rightarrow>
                if va \<noteq> current_address
                then bindR (mem_map_linear_eager h current_address va (KERNVIRT2PHYS current_address) f s) (\<lambda>(s1, _).
                     assertR (current_address \<le> va) (Inr s1))
                else Inr s
            | None \<Rightarrow> Inr s) (map_segments h va flags segs)"

definition mem_map_kernel :: "kernel_image \<Rightarrow> nat \<Rightarrow> mflags \<Rightarrow> mem \<Rightarrow> mem res" where
  "mem_map_kernel img h flags s =
     (let last_byte = max (multiboot_last_address img) (kernel_end img) in
      case user_space_allocator s of
        None \<Rightarrow> Inl Panic
      | Some al \<Rightarrow>
          map_segments h 0 (Some 0)
           [(0, None),
            (KERNEL_VIRTUAL_BASE, Some (flags AND NOT MEM_AREA_EXECUTABLE)),
            (ALIGN_UP (readonly_start img), Some (flags AND NOT MEM_AREA_READWRITE)),
            (ALIGN_DOWN (readonly_stop img), Some (flags AND NOT MEM_AREA_EXECUTABLE)),
            (ALIGN_UP last_byte, None),
            (PHYS2KERNVIRT (rstart (bookkeeping_phys_region al)), Some (flags AND NOT MEM_AREA_EXECUTABLE)),
            (PHYS2KERNVIRT (rend (bookkeeping_phys_region al)), None)] s)"

record mmap_entry =
  mm_addr :: int
  mm_len :: int
  mm_type :: nat

definition MULTIBOOT_MEMORY_AVAILABLE :: nat where "MULTIBOOT_MEMORY_AVAILABLE = 1"

text \<open>The entries have 64 bits and the region 32.\<close>

fun largest_region :: "mmap_entry list \<Rightarrow> region \<Rightarrow> region" where
  "largest_region [] r = r"
| "largest_region (e # es) r =
     largest_region es
      (if mm_type e = MULTIBOOT_MEMORY_AVAILABLE \<and> region_size r < mm_len e
       then \<lparr>rstart = u32 (mm_addr e), rend = u32 (mm_addr e + mm_len e)\<rparr> else r)"

definition page_region :: "mmap_entry list \<Rightarrow> kernel_image \<Rightarrow> region" where
  "page_region es img =
     (let r = largest_region es \<lparr>rstart = 0, rend = 0\<rparr>;
          start = max (max (rstart r) (KERNVIRT2PHYS (kernel_end img))) (KERNVIRT2PHYS (multiboot_last_address img))
      in \<lparr>rstart = ALIGN_UP start, rend = ALIGN_DOWN (rend r)\<rparr>)"

definition mem_init :: "mmap_entry list \<Rightarrow> kernel_image \<Rightarrow> mem \<Rightarrow> mem res" where
  "mem_init es img s =
     bindR (page_allocator_init (page_region es img)) (\<lambda>al.
     bindR (mem_create_space (s\<lparr>user_space_allocator := Some al\<rparr>)) (\<lambda>(s1, start_space).
     bindR (mem_map_kernel img start_space MEM_AREA_READWRITE s1) (\<lambda>s2.
     Inr (mem_set_current_space start_space s2))))"

end
