(* ===== verification/Paging.thy ===== *)
theory Paging
  imports Memory
begin

text \<open>
  Page tables refine a map: for every space a function from page numbers to entries. The
  invariant \<open>tables_ok\<close> says that directories and tables are allocated pages that no two spaces share;
  under it \<open>map_page\<close> changes exactly one page of one space.
\<close>

subsection \<open>Flags and page numbers\<close>

definition present :: "mflags \<Rightarrow> bool" where
  "present f \<longleftrightarrow> f AND MEM_PE_P \<noteq> 0"

lemma present_odd: "present f \<longleftrightarrow> odd f"
  by (simp add: present_def MEM_PE_P_def and_one_eq odd_iff_mod_2_eq_one)

lemma not_present [simp]: "f AND MEM_PE_P = 0 \<longleftrightarrow> \<not> present f"
  by (simp add: present_def)

lemma present_bit: "present f \<longleftrightarrow> bit f 0"
  by (simp add: present_odd bit_0)

lemma present_simps [simp]:
  "present (f AND g) = (present f \<and> present g)" "present (f OR g) = (present f \<or> present g)"
  "present (NOT f) = (\<not> present f)" "\<not> present 0" "present 0xFFF" "\<not> present MEM_PDE_S" "\<not> present MEM_PTE_D"
  by (simp_all add: present_bit bit_simps MEM_PDE_S_def MEM_PTE_D_def)

lemma present_page_flags [simp]: "present (page_flags f)"
  by (simp add: page_flags_def) (simp add: present_odd MEM_PE_P_def)

definition in_space :: "int \<Rightarrow> bool" where
  "in_space a \<longleftrightarrow> 0 \<le> a \<and> a < 4294967296"

lemma table_addr_roundtrip:
  assumes "in_space a" "a mod 4096 = 0"
  shows "table_addr \<lparr>pde_flags = f, table_11_31 = KERNVIRT2PHYS a div 0x1000\<rparr> = a"
proof -
  obtain k where k: "a = 4096 * k" using mod_page_obtain [OF assms(2)] .
  have "KERNVIRT2PHYS a mod 4096 = 0"
    unfolding KERNVIRT2PHYS_def u32_def KERNEL_VIRTUAL_BASE_def k by (subst mod_mod_cancel; simp)
  then have "KERNVIRT2PHYS a div 4096 * 4096 = KERNVIRT2PHYS a" by (simp add: mod_0_imp_dvd)
  then show ?thesis using assms(1)
    by (simp add: table_addr_def PHYS2KERNVIRT_def KERNVIRT2PHYS_def u32_def in_space_def mod_add_left_eq)
qed

text \<open>A page is known by the number of its directory entry and of its table entry.\<close>

lemma page_number_parts:
  fixes a b :: int
  shows "a div 4096 = b div 4096 \<longleftrightarrow> a div 0x400000 = b div 0x400000 \<and> a div 0x1000 mod 1024 = b div 0x1000 mod 1024"
proof -
  have "x div 0x400000 = x div 4096 div 1024" for x :: int by (simp add: zdiv_zmult2_eq [symmetric])
  moreover have "x = x div 1024 * 1024 + x mod 1024" for x :: int by simp
  ultimately show ?thesis by (metis (no_types))
qed

lemma in_space_dir: "in_space a \<Longrightarrow> a div 0x400000 \<in> {0..<1024}"
  by (simp add: in_space_def) linarith

subsection \<open>The invariant of the tables\<close>

definition space_ok :: "space_info \<Rightarrow> bool" where
  "space_ok sp \<longleftrightarrow> pool_inv (areas sp) \<and> capacity (areas sp) = 32 \<and> pool_inv (linear_maps sp) \<and> capacity (linear_maps sp) = 16 \<and>
     pool_inv (file_maps sp) \<and> capacity (file_maps sp) = 16"

definition pde_at :: "mem \<Rightarrow> nat \<Rightarrow> int \<Rightarrow> page_dir_entry option" where
  "pde_at s h d = (case at (spaces s) h of
     None \<Rightarrow> None
   | Some sp \<Rightarrow> let pde = page_dirs s (page_dir sp) d in if d \<in> {0..<1024} \<and> present (pde_flags pde) then Some pde else None)"

definition dir_at :: "mem \<Rightarrow> nat \<Rightarrow> int option" where
  "dir_at s h = map_option page_dir (at (spaces s) h)"

definition table_at :: "mem \<Rightarrow> nat \<times> int \<Rightarrow> int option" where
  "table_at s = (\<lambda>(h, d). map_option table_addr (pde_at s h d))"

definition map_inj :: "('a \<Rightarrow> 'b option) \<Rightarrow> bool" where
  "map_inj m \<longleftrightarrow> (\<forall>x y v. m x = Some v \<longrightarrow> m y = Some v \<longrightarrow> x = y)"

lemma map_inj_upd: "map_inj m \<Longrightarrow> v \<notin> ran m \<Longrightarrow> map_inj (m(k \<mapsto> v))"
  unfolding map_inj_def ran_def by (simp add: fun_upd_def) blast

lemma ran_upd_subset: "ran m \<subseteq> U \<Longrightarrow> ran (m(k \<mapsto> v)) \<subseteq> insert v U"
  by (auto simp: ran_def)

lemma map_inj_remove: "map_inj m \<Longrightarrow> map_inj (m(k := None))"
  by (auto simp: map_inj_def)

lemma ran_remove_inj: "map_inj m \<Longrightarrow> m k = Some v \<Longrightarrow> ran (m(k := None)) = ran m - {v}"
  unfolding map_inj_def ran_def by (auto simp: fun_upd_def) (metis option.inject)

definition tables_ok :: "mem \<Rightarrow> bool" where
  "tables_ok s \<longleftrightarrow> pool_inv (spaces s) \<and> capacity (spaces s) = 128 \<and> (\<forall>sp \<in> ran (at (spaces s)). space_ok sp) \<and>
     pa_inv (page_dir_allocator s) \<and> pa_inv (page_table_allocator s) \<and> 0 \<notin> pa_pages (page_table_allocator s) \<and>
     ran (dir_at s) \<subseteq> pa_used (page_dir_allocator s) \<and> map_inj (dir_at s) \<and>
     ran (table_at s) \<subseteq> pa_used (page_table_allocator s) \<and> map_inj (table_at s)"

lemma table_atI: "pde_at s h d = Some e \<Longrightarrow> table_at s (h, d) = Some (table_addr e)"
  by (simp add: table_at_def)

lemma table_used: "tables_ok s \<Longrightarrow> pde_at s h d = Some e \<Longrightarrow> table_addr e \<in> pa_used (page_table_allocator s)"
  using ranI [of "table_at s" "(h, d)" "table_addr e"] table_atI [of s h d e] unfolding tables_ok_def by blast

lemma table_inj:
  "tables_ok s \<Longrightarrow> pde_at s h d = Some e \<Longrightarrow> pde_at s h' d' = Some e' \<Longrightarrow> table_addr e = table_addr e' \<Longrightarrow> h = h' \<and> d = d'"
  using table_atI [of s h d e] table_atI [of s h' d' e'] unfolding tables_ok_def map_inj_def by (metis prod.inject)

definition pte_at :: "mem \<Rightarrow> nat \<Rightarrow> int \<Rightarrow> page_table_entry option" where
  "pte_at s h va =
     (case pde_at s h (va div 0x400000) of
        None \<Rightarrow> None
      | Some e \<Rightarrow> let pte = page_tables s (table_addr e) (va div 0x1000 mod 1024)
                in if present (pte_flags pte) then Some pte else None)"

lemma find_pte_ok:
  assumes "tables_ok s" "at (spaces s) h = Some sp" "in_space va"
  shows "find_pte s sp va = Inr (pte_at s h va)"
proof (cases "pde_at s h (va div 0x400000)")
  case None
  then have "\<not> present (pde_flags (page_dirs s (page_dir sp) (va div 0x400000)))"
    using assms(2) in_space_dir [OF assms(3)] by (auto simp: pde_at_def Let_def split: if_splits)
  then show ?thesis using None by (simp add: find_pte_def pte_at_def Let_def)
next
  case (Some e)
  then have e: "e = page_dirs s (page_dir sp) (va div 0x400000)" "present (pde_flags e)"
    using assms(2) by (auto simp: pde_at_def Let_def split: if_splits)
  have "table_addr e \<in> pa_pages (page_table_allocator s)"
    using assms(1) table_used [OF assms(1) Some] pg.used_pages unfolding tables_ok_def by blast
  then have "table_addr e \<noteq> 0" using assms(1) by (auto simp: tables_ok_def)
  then show ?thesis using e Some by (simp add: find_pte_def pte_at_def Let_def)
qed

lemma get_space:
  "tables_ok s \<Longrightarrow> get (spaces s) h = (case at (spaces s) h of None \<Rightarrow> Inl Panic | Some sp \<Rightarrow> Inr sp)"
  by (simp add: tables_ok_def get_at)


subsection \<open>Mapping a page\<close>

lemma pde_at_write:
  assumes "map_inj (dir_at s)" "at (spaces s) h = Some sp" "d \<in> {0..<1024}"
  shows "pde_at (write_pde (page_dir sp) d e s) h' d' =
    (if h' = h \<and> d' = d then if present (pde_flags e) then Some e else None else pde_at s h' d')"
proof (cases "at (spaces s) h'")
  case None
  then show ?thesis using assms(2) by (auto simp: pde_at_def write_pde_def)
next
  case (Some sp')
  have "page_dir sp' = page_dir sp \<Longrightarrow> h' = h"
    using assms(1,2) Some by (simp add: dir_at_def map_inj_def)
  then show ?thesis using Some assms(2,3) by (auto simp: pde_at_def write_pde_def Let_def)
qed

lemma pde_at_cong:
  "spaces s' = spaces s \<Longrightarrow> page_dirs s' = page_dirs s \<Longrightarrow> pde_at s' h d = pde_at s h d"
  by (auto simp: pde_at_def split: option.split)

lemma write_pte_simps [simp]:
  "spaces (write_pte t i pa f s) = spaces s" "page_dirs (write_pte t i pa f s) = page_dirs s"
  "page_dir_allocator (write_pte t i pa f s) = page_dir_allocator s" "page_table_allocator (write_pte t i pa f s) = page_table_allocator s"
  "user_space_allocator (write_pte t i pa f s) = user_space_allocator s" "current_space (write_pte t i pa f s) = current_space s"
  "phys (write_pte t i pa f s) = phys s" "dir_at (write_pte t i pa f s) = dir_at s" "pde_at (write_pte t i pa f s) = pde_at s"
  by (auto simp: write_pte_def dir_at_def fun_eq_iff intro!: pde_at_cong)

lemma write_pde_simps [simp]:
  "spaces (write_pde t i e s) = spaces s" "page_tables (write_pde t i e s) = page_tables s"
  "page_dir_allocator (write_pde t i e s) = page_dir_allocator s" "page_table_allocator (write_pde t i e s) = page_table_allocator s"
  "user_space_allocator (write_pde t i e s) = user_space_allocator s" "current_space (write_pde t i e s) = current_space s"
  "phys (write_pde t i e s) = phys s" "dir_at (write_pde t i e s) = dir_at s"
  by (auto simp: write_pde_def dir_at_def fun_eq_iff)

text \<open>What mapping pages leaves alone.\<close>

definition same_rest :: "mem \<Rightarrow> mem \<Rightarrow> bool" where
  "same_rest s s' \<longleftrightarrow> spaces s' = spaces s \<and> user_space_allocator s' = user_space_allocator s \<and>
     current_space s' = current_space s \<and> phys s' = phys s \<and> page_dir_allocator s' = page_dir_allocator s"

definition entry :: "int \<Rightarrow> mflags \<Rightarrow> page_table_entry option" where
  "entry pa f = (if present f then Some \<lparr>pte_flags = f AND 0xFFF, frame_11_31 = pa div 0x1000\<rparr> else None)"

text \<open>The state has one page changed.\<close>

definition page_set :: "nat \<Rightarrow> int \<Rightarrow> page_table_entry option \<Rightarrow> mem \<Rightarrow> mem \<Rightarrow> bool" where
  "page_set h va e s s' \<longleftrightarrow> same_rest s s' \<and>
     (\<forall>h' a. in_space a \<longrightarrow> pte_at s' h' a = (if h' = h \<and> a div 4096 = va div 4096 then e else pte_at s h' a))"

lemma map_page_new_table:
  assumes ok: "tables_ok s" and sp: "at (spaces s) h = Some sp" and va: "in_space va"
    and none: "pde_at s h (va div 0x400000) = None" and f: "present f" and al: "alloc_page (page_table_allocator s) = Inr (al, t)"
    and s': "s' = write_pte t (va div 0x1000 mod 1024) pa f
      (write_pde (page_dir sp) (va div 0x400000) \<lparr>pde_flags = (f AND NOT (MEM_PDE_S OR MEM_PTE_D)) AND 0xFFF, table_11_31 = KERNVIRT2PHYS t div 0x1000\<rparr>
        (s\<lparr>page_table_allocator := al, page_tables := (page_tables s)(t := (\<lambda>_. pte_zero))\<rparr>))"
  shows "tables_ok s' \<and> page_set h va (entry pa f) s s'"
proof -
  let ?d = "va div 0x400000" and ?e = "\<lparr>pde_flags = (f AND NOT (MEM_PDE_S OR MEM_PTE_D)) AND 0xFFF, table_11_31 = KERNVIRT2PHYS t div 0x1000\<rparr>"
  let ?s1 = "s\<lparr>page_table_allocator := al, page_tables := (page_tables s)(t := (\<lambda>_. pte_zero))\<rparr>"
  have i: "pa_inv (page_table_allocator s)" "map_inj (dir_at s)" using ok by (auto simp: tables_ok_def)
  have t: "pa_inv al" "pa_pages al = pa_pages (page_table_allocator s)" "t \<in> pa_pages (page_table_allocator s)"
      "t \<notin> pa_used (page_table_allocator s)" "pa_used al = insert t (pa_used (page_table_allocator s))"
    using pg.take_step [OF i(1) al] by auto
  have "in_space t" "t mod 4096 = 0" using t(3) i(1) by (auto simp: pa_pages_def page_range_def pa_inv_def in_space_def)
  then have ta: "table_addr ?e = t" by (rule table_addr_roundtrip)
  have d1: "dir_at ?s1 = dir_at s" "spaces ?s1 = spaces s" by (auto simp: dir_at_def fun_eq_iff)
  have pde: "pde_at s' h' d' = (if h' = h \<and> d' = ?d then Some ?e else pde_at s h' d')" for h' d'
    using pde_at_write [of ?s1 h sp ?d ?e h' d'] i(2) sp in_space_dir [OF va] f d1 pde_at_cong [of ?s1 s]
    by (simp add: s')
  have used: "table_addr e \<noteq> t" if "pde_at s h' d' = Some e" for h' d' e
    using table_used [OF ok that] t(4) by blast
  have T: "table_at s' = (table_at s)((h, ?d) \<mapsto> t)" using ta by (auto simp: table_at_def pde fun_eq_iff)
  have fresh: "t \<notin> ran (table_at s)" using ok t(4) by (auto simp: tables_ok_def)
  have "map_inj (table_at s')" unfolding T using ok fresh by (intro map_inj_upd) (simp_all add: tables_ok_def)
  moreover have "ran (table_at s') \<subseteq> pa_used al"
    unfolding T t(5) by (rule ran_upd_subset) (use ok in \<open>simp add: tables_ok_def\<close>)
  moreover have "dir_at s' = dir_at s" "spaces s' = spaces s" "page_dir_allocator s' = page_dir_allocator s" "page_table_allocator s' = al"
    using d1(1) by (simp_all add: s')
  ultimately have "tables_ok s'" using ok t(1,2) by (simp add: tables_ok_def)
  moreover have tab: "page_tables s' u i = (if u = t then if i = va div 0x1000 mod 1024
      then \<lparr>pte_flags = f AND 0xFFF, frame_11_31 = pa div 0x1000\<rparr> else pte_zero else page_tables s u i)" for u i
    by (simp add: s' write_pte_def)
  moreover have "same_rest s s'" by (simp add: same_rest_def s')
  moreover have "pte_at s' h' a = (if h' = h \<and> a div 4096 = va div 4096 then entry pa f else pte_at s h' a)" for h' a
  proof (cases "h' = h \<and> a div 0x400000 = ?d")
    case True
    then have "pte_at s h' a = None" using none by (simp add: pte_at_def)
    then show ?thesis using True f ta page_number_parts [of a va]
      by (simp add: pte_at_def pde tab Let_def entry_def pte_zero_def)
  next
    case False
    have "pte_at s' h' a = pte_at s h' a"
    proof (cases "pde_at s h' (a div 0x400000)")
      case None
      then show ?thesis using False by (auto simp: pte_at_def pde)
    next
      case (Some e)
      then show ?thesis using False used [OF Some] by (auto simp: pte_at_def pde tab)
    qed
    then show ?thesis using False page_number_parts [of a va] by auto
  qed
  ultimately show ?thesis by (simp add: page_set_def)
qed

lemma map_page_old_table:
  assumes ok: "tables_ok s" and sp: "at (spaces s) h = Some sp" and va: "in_space va"
    and e0: "pde_at s h (va div 0x400000) = Some e0" and e1: "table_addr e1 = table_addr e0" "present (pde_flags e1)"
    and s': "s' = write_pte (table_addr e0) (va div 0x1000 mod 1024) pa f (write_pde (page_dir sp) (va div 0x400000) e1 s)"
  shows "tables_ok s' \<and> page_set h va (entry pa f) s s'"
proof -
  let ?d = "va div 0x400000"
  have i: "map_inj (dir_at s)" using ok by (auto simp: tables_ok_def)
  have pde: "pde_at s' h' d' = (if h' = h \<and> d' = ?d then Some e1 else pde_at s h' d')" for h' d'
    using pde_at_write [OF i sp in_space_dir [OF va], of e1 h' d'] e1(2) by (simp add: s')
  have inj: "h' = h \<and> d' = ?d" if "pde_at s h' d' = Some e" "table_addr e = table_addr e0" for h' d' e
    using table_inj [OF ok that(1) e0 that(2)] .
  have "table_at s' = table_at s" using e0 e1 by (auto simp: table_at_def pde fun_eq_iff)
  moreover have c: "dir_at s' = dir_at s" "spaces s' = spaces s" "page_dir_allocator s' = page_dir_allocator s"
      "page_table_allocator s' = page_table_allocator s"
    by (simp_all add: s')
  ultimately have "tables_ok s'" using ok by (simp add: tables_ok_def)
  moreover have tab: "page_tables s' t i = (if t = table_addr e0 \<and> i = va div 0x1000 mod 1024
      then \<lparr>pte_flags = f AND 0xFFF, frame_11_31 = pa div 0x1000\<rparr> else page_tables s t i)" for t i
    by (simp add: s' write_pte_def)
  moreover have "same_rest s s'" by (simp add: same_rest_def s')
  moreover have "pte_at s' h' a = (if h' = h \<and> a div 4096 = va div 4096 then entry pa f else pte_at s h' a)" for h' a
  proof (cases "h' = h \<and> a div 0x400000 = ?d")
    case True
    then show ?thesis using e0 e1 page_number_parts [of a va]
      by (simp add: pte_at_def pde tab Let_def entry_def)
  next
    case False
    have "pte_at s' h' a = pte_at s h' a"
    proof (cases "pde_at s h' (a div 0x400000)")
      case None
      then show ?thesis using False by (auto simp: pte_at_def pde)
    next
      case (Some e)
      then have "table_addr e \<noteq> table_addr e0" using inj [of h' "a div 0x400000" e] False by blast
      then show ?thesis using False Some by (auto simp: pte_at_def pde tab)
    qed
    then show ?thesis using False page_number_parts [of a va] by auto
  qed
  ultimately show ?thesis by (simp add: page_set_def)
qed

text \<open>Mapping fails only when a table is needed and there is none.\<close>

definition table_room :: "nat \<Rightarrow> int \<Rightarrow> mem \<Rightarrow> bool" where
  "table_room h va s \<longleftrightarrow> pde_at s h (va div 0x400000) \<noteq> None \<or> pa_used (page_table_allocator s) \<noteq> pa_pages (page_table_allocator s)"

lemma map_page_cases:
  assumes ok: "tables_ok s" and sp: "at (spaces s) h = Some sp" and va: "in_space va" "page_aligned va" "page_aligned pa"
  shows "if present f \<and> \<not> table_room h va s then map_page h va pa f s = Inl Panic
    else \<exists>s'. map_page h va pa f s = Inr s' \<and> tables_ok s' \<and> page_set h va (entry pa f) s s'"
proof (cases "pde_at s h (va div 0x400000)")
  case None
  then have np: "\<not> present (pde_flags (page_dirs s (page_dir sp) (va div 0x400000)))"
    using sp in_space_dir [OF va(1)] by (auto simp: pde_at_def Let_def split: if_splits)
  have inv: "pa_inv (page_table_allocator s)" using ok by (simp add: tables_ok_def)
  show ?thesis
  proof (cases "present f")
    case False
    have "pte_at s h a = None" if "a div 4096 = va div 4096" for a
      using None that page_number_parts [of a va] by (simp add: pte_at_def)
    then have "page_set h va (entry pa f) s s" using False by (simp add: page_set_def same_rest_def entry_def)
    then show ?thesis using False ok np sp va by (simp add: map_page_def get_space Let_def)
  next
    case True
    show ?thesis
    proof (cases "table_room h va s")
      case False
      then have "alloc_page (page_table_allocator s) = Inl Panic" using pg.take_empty [OF inv] by (simp add: table_room_def)
      then show ?thesis using True False np sp va ok by (simp add: map_page_def get_space Let_def)
    next
      case room: True
      then obtain al t where al: "alloc_page (page_table_allocator s) = Inr (al, t)"
        using pg.take_some [OF inv] None by (auto simp: table_room_def)
      show ?thesis
        using map_page_new_table [OF ok sp va(1) None True al refl, of pa] True np sp va ok al room
        by (simp add: map_page_def get_space Let_def)
    qed
  qed
next
  case (Some e)
  then have e: "e = page_dirs s (page_dir sp) (va div 0x400000)" "present (pde_flags e)"
    using sp by (auto simp: pde_at_def Let_def split: if_splits)
  have ta: "table_addr (e\<lparr>pde_flags := g\<rparr>) = table_addr e" for g by (simp add: table_addr_def)
  show ?thesis
    using map_page_old_table [OF ok sp va(1) Some ta _ refl, of "(pde_flags e OR (f AND NOT (MEM_PDE_S OR MEM_PTE_D))) AND 0xFFF" pa f]
      e sp va ok Some by (simp add: map_page_def get_space Let_def table_room_def)
qed

lemma map_page_step:
  assumes "tables_ok s" "in_space va" "map_page h va pa f s = Inr s'"
  shows "tables_ok s' \<and> page_set h va (entry pa f) s s' \<and> at (spaces s) h \<noteq> None \<and> page_aligned va \<and> page_aligned pa"
proof -
  have al: "page_aligned va" "page_aligned pa" using assms(3) by (simp_all add: map_page_def)
  obtain sp where sp: "at (spaces s) h = Some sp"
    using assms(1,3) by (auto simp: map_page_def get_space split: option.splits)
  then show ?thesis using map_page_cases [OF assms(1) sp assms(2) al, of f] assms(3) al by (auto split: if_splits)
qed

end
