(* ===== verification/Page_Owners.thy ===== *)
theory Page_Owners
  imports Paging
begin

text \<open>
  Who owns which page of physical memory, on the level of areas and pages: a page inside an area
  that is allocated on demand or backed by a file is private, and the frames of the private pages
  are exactly the frames in use, each of them once.
\<close>

definition area_pages :: "area_info \<Rightarrow> int set" where
  "area_pages a = {n. area_start a \<le> n * 4096 \<and> n * 4096 < area_end a}"

definition is_private :: "area_info \<Rightarrow> bool" where
  "is_private a \<longleftrightarrow> area_type a = AREA_ALLOC \<or> area_type a = AREA_FILE"

type_synonym area_map = "nat \<times> nat \<Rightarrow> area_info option"
type_synonym page_map = "nat \<times> int \<Rightarrow> page_table_entry option"

definition owned :: "area_map \<Rightarrow> page_map \<Rightarrow> (nat \<times> int) set" where
  "owned A P = {(h, n). \<exists>i a. A (h, i) = Some a \<and> is_private a \<and> n \<in> area_pages a \<and> P (h, n) \<noteq> None}"

definition frame_at :: "page_map \<Rightarrow> nat \<times> int \<Rightarrow> int" where
  "frame_at P x = pte_frame (the (P x))"

definition area_ok :: "area_info \<Rightarrow> bool" where
  "area_ok a \<longleftrightarrow> 0 \<le> area_start a \<and> area_start a \<le> area_end a \<and> area_end a \<le> KERNEL_SCRATCH_BASE \<and>
     area_start a mod 4096 = 0 \<and> area_end a mod 4096 = 0 \<and> area_type a \<in> {AREA_LINEAR_MAP, AREA_ALLOC, AREA_FILE}"

definition apart :: "area_info \<Rightarrow> area_info \<Rightarrow> bool" where
  "apart a b \<longleftrightarrow> \<not> (area_start a < area_end b \<and> area_start b < area_end a)"

definition areas_ok :: "area_map \<Rightarrow> bool" where
  "areas_ok A \<longleftrightarrow> (\<forall>h i a. A (h, i) = Some a \<longrightarrow> area_ok a) \<and>
     (\<forall>h i j a b. A (h, i) = Some a \<longrightarrow> A (h, j) = Some b \<longrightarrow> i \<noteq> j \<longrightarrow> apart a b)"

text \<open>Outside the scratch region a mapped page lies in an area.\<close>

definition pages_covered :: "area_map \<Rightarrow> page_map \<Rightarrow> bool" where
  "pages_covered A P \<longleftrightarrow>
     (\<forall>h n. P (h, n) \<noteq> None \<longrightarrow> n * 4096 < KERNEL_SCRATCH_BASE \<longrightarrow> (\<exists>i a. A (h, i) = Some a \<and> n \<in> area_pages a))"

definition own_inv :: "area_map \<Rightarrow> page_map \<Rightarrow> int set \<Rightarrow> bool" where
  "own_inv A P U \<longleftrightarrow> areas_ok A \<and> pages_covered A P \<and> bij_betw (frame_at P) (owned A P) U"

lemma apart_pages: "apart a b \<Longrightarrow> n \<in> area_pages a \<Longrightarrow> n \<notin> area_pages b"
  by (auto simp: apart_def area_pages_def)

lemma area_unique:
  "areas_ok A \<Longrightarrow> A (h, i) = Some a \<Longrightarrow> A (h, j) = Some b \<Longrightarrow> n \<in> area_pages a \<Longrightarrow> n \<in> area_pages b \<Longrightarrow> i = j"
  using apart_pages unfolding areas_ok_def by blast

lemma below_scratch: "areas_ok A \<Longrightarrow> A (h, i) = Some a \<Longrightarrow> n \<in> area_pages a \<Longrightarrow> n * 4096 < KERNEL_SCRATCH_BASE"
  unfolding areas_ok_def area_ok_def area_pages_def by fastforce

text \<open>The invariant only looks at the owned pages and at whether the others are covered.\<close>

lemma own_inv_cong:
  assumes "own_inv A P U" "areas_ok A'" "pages_covered A' P'" "owned A' P' = owned A P"
    "\<And>x. x \<in> owned A P \<Longrightarrow> frame_at P' x = frame_at P x"
  shows "own_inv A' P' U"
  using assms bij_betw_cong [of "owned A P" "frame_at P'" "frame_at P" U] by (simp add: own_inv_def)

lemma own_frame_used: "own_inv A P U \<Longrightarrow> x \<in> owned A P \<Longrightarrow> frame_at P x \<in> U"
  unfolding own_inv_def bij_betw_def by blast

lemma own_frame_inj: "own_inv A P U \<Longrightarrow> x \<in> owned A P \<Longrightarrow> y \<in> owned A P \<Longrightarrow> frame_at P x = frame_at P y \<Longrightarrow> x = y"
  unfolding own_inv_def bij_betw_def inj_on_def by blast

lemma own_add_area:
  assumes inv: "own_inv A P U" and new: "A (h, i) = None" and a: "area_ok a" "\<And>j b. A (h, j) = Some b \<Longrightarrow> apart a b"
    and P': "\<And>x. \<not> (fst x = h \<and> snd x \<in> area_pages a) \<Longrightarrow> P' x = P x" and priv: "is_private a \<Longrightarrow> P' = P"
  shows "own_inv (A((h, i) \<mapsto> a)) P' U"
proof (rule own_inv_cong [OF inv])
  let ?A = "A((h, i) \<mapsto> a)"
  have A: "areas_ok A" "pages_covered A P" using inv by (simp_all add: own_inv_def)
  have sym: "apart b a" if "apart a b" for b using that by (auto simp: apart_def)
  show "areas_ok ?A" using A(1) a sym unfolding areas_ok_def by (auto split: if_splits)
  show "pages_covered ?A P'"
    unfolding pages_covered_def
  proof (intro allI impI)
    fix k n assume n: "P' (k, n) \<noteq> None" "n * 4096 < KERNEL_SCRATCH_BASE"
    show "\<exists>j b. ?A (k, j) = Some b \<and> n \<in> area_pages b"
    proof (cases "k = h \<and> n \<in> area_pages a")
      case True
      then show ?thesis by (intro exI [of _ i] exI [of _ a]) simp
    next
      case False
      then have "P (k, n) \<noteq> None" using n(1) P' [of "(k, n)"] by auto
      then obtain j b where "A (k, j) = Some b" "n \<in> area_pages b" using n(2) A(2) unfolding pages_covered_def by blast
      then show ?thesis using new by (intro exI [of _ j] exI [of _ b]) auto
    qed
  qed
  have none: "P (h, n) = None" if "is_private a" "n \<in> area_pages a" for n
  proof (rule ccontr)
    assume "P (h, n) \<noteq> None"
    moreover have "n * 4096 < KERNEL_SCRATCH_BASE" using that(2) a(1) by (auto simp: area_pages_def area_ok_def)
    ultimately obtain j b where "A (h, j) = Some b" "n \<in> area_pages b" using A(2) unfolding pages_covered_def by blast
    then show False using a(2) apart_pages that(2) by blast
  qed
  have other: "n \<notin> area_pages a" if "A (h, j) = Some b" "n \<in> area_pages b" for j b n
    using a(2) [OF that(1)] that(2) apart_pages by blast
  show "owned ?A P' = owned A P"
  proof (intro set_eqI iffI)
    fix x assume "x \<in> owned ?A P'"
    then obtain k n j b where x: "x = (k, n)" "?A (k, j) = Some b" "is_private b" "n \<in> area_pages b" "P' (k, n) \<noteq> None"
      by (auto simp: owned_def)
    show "x \<in> owned A P"
    proof (cases "(k, j) = (h, i)")
      case True
      then have "P (h, n) \<noteq> None" "is_private a" "n \<in> area_pages a" using x priv by auto
      then show ?thesis using none [of n] by simp
    next
      case False
      then have b: "A (k, j) = Some b" using x(2) by (simp split: if_splits)
      then have "P' (k, n) = P (k, n)" using P' [of "(k, n)"] other x(4) by auto
      then show ?thesis using x b by (auto simp: owned_def)
    qed
  next
    fix x assume "x \<in> owned A P"
    then obtain k n j b where x: "x = (k, n)" "A (k, j) = Some b" "is_private b" "n \<in> area_pages b" "P (k, n) \<noteq> None"
      by (auto simp: owned_def)
    then have "P' (k, n) = P (k, n)" using P' [of "(k, n)"] other by auto
    moreover have "?A (k, j) = Some b" using x(2) new by auto
    ultimately show "x \<in> owned ?A P'" using x unfolding owned_def by (simp del: fun_upd_apply) blast
  qed
  show "frame_at P' x = frame_at P x" if "x \<in> owned A P" for x
  proof -
    from that have "\<not> (fst x = h \<and> snd x \<in> area_pages a)" using other by (auto simp: owned_def)
    then show ?thesis using P' by (simp add: frame_at_def)
  qed
qed


text \<open>Changes of one page.\<close>

lemma owned_page_upd:
  assumes "A (h, i) = Some a" "is_private a" "n \<in> area_pages a"
  shows "owned A (P((h, n) := e)) = (if e = None then owned A P - {(h, n)} else insert (h, n) (owned A P))"
  using assms by (auto simp: owned_def)

lemma covered_upd:
  "pages_covered A P \<Longrightarrow> A (h, i) = Some a \<Longrightarrow> n \<in> area_pages a \<Longrightarrow> pages_covered A (P((h, n) := e))"
  unfolding pages_covered_def by (metis fun_upd_apply prod.inject)

lemma own_map_fresh:
  assumes inv: "own_inv A P U" and a: "A (h, i) = Some a" "is_private a" "n \<in> area_pages a"
    and none: "P (h, n) = None" and f: "pte_frame e \<notin> U"
  shows "own_inv A (P((h, n) \<mapsto> e)) (insert (pte_frame e) U)"
proof -
  let ?P = "P((h, n) \<mapsto> e)"
  have new: "(h, n) \<notin> owned A P" using none by (auto simp: owned_def)
  have "bij_betw (frame_at ?P) (owned A P) U"
    using inv bij_betw_cong [of "owned A P" "frame_at ?P" "frame_at P" U] new by (force simp: own_inv_def frame_at_def)
  moreover have "frame_at ?P (h, n) = pte_frame e" by (simp add: frame_at_def)
  ultimately have "bij_betw (frame_at ?P) (insert (h, n) (owned A P)) (insert (pte_frame e) U)"
    using notIn_Un_bij_betw [OF new, of "frame_at ?P" U] f by simp
  then show ?thesis using inv covered_upd [of A P h i a n] a owned_page_upd [of A h i a n P "Some e"] by (simp add: own_inv_def)
qed

lemma own_unmap:
  assumes inv: "own_inv A P U" and a: "A (h, i) = Some a" "is_private a" "n \<in> area_pages a" and e: "P (h, n) = Some e"
  shows "own_inv A (P((h, n) := None)) (U - {pte_frame e})"
proof -
  let ?P = "P((h, n) := None)"
  have mem: "(h, n) \<in> owned A P" using a e by (auto simp: owned_def)
  have b: "bij_betw (frame_at P) (owned A P) U" using inv by (simp add: own_inv_def)
  have "bij_betw (frame_at P) (owned A P - {(h, n)}) (U - {pte_frame e})"
    using bij_betw_DiffI [OF b, of "{(h, n)}" "{pte_frame e}"] mem e own_frame_used [OF inv mem] by (simp add: frame_at_def bij_betw_def)
  then have "bij_betw (frame_at ?P) (owned A P - {(h, n)}) (U - {pte_frame e})"
    by (subst bij_betw_cong [of _ _ "frame_at P"]) (auto simp: frame_at_def)
  then show ?thesis using inv covered_upd [of A P h i a n] a owned_page_upd [of A h i a n P None] by (simp add: own_inv_def)
qed

lemma own_remap:
  assumes inv: "own_inv A P U" and e: "P (h, n) = Some e" "pte_frame e' = pte_frame e"
  shows "own_inv A (P((h, n) \<mapsto> e')) U"
  by (rule own_inv_cong [OF inv])
    (use inv e in \<open>auto simp: own_inv_def pages_covered_def owned_def frame_at_def\<close>)

text \<open>Pages of the scratch region, and of areas that are not private, belong to nobody.\<close>

lemma own_scratch:
  assumes inv: "own_inv A P U" and P': "\<And>h n. n * 4096 < KERNEL_SCRATCH_BASE \<Longrightarrow> P' (h, n) = P (h, n)"
  shows "own_inv A P' U"
proof (rule own_inv_cong [OF inv])
  have A: "areas_ok A" using inv by (simp add: own_inv_def)
  have same: "P' (h, n) = P (h, n)" if "A (h, i) = Some a" "n \<in> area_pages a" for h n i a
    using below_scratch [OF A that] P' by blast
  then show "owned A P' = owned A P" by (fastforce simp: owned_def)
  show "pages_covered A P'" using inv P' unfolding own_inv_def pages_covered_def by metis
  show "frame_at P' x = frame_at P x" if "x \<in> owned A P" for x
    using that same by (auto simp: owned_def frame_at_def)
qed (use inv in \<open>simp add: own_inv_def\<close>)

lemma own_not_private:
  assumes inv: "own_inv A P U" and a: "A (h, i) = Some a" "\<not> is_private a" "n \<in> area_pages a"
  shows "own_inv A (P((h, n) := e)) U"
proof (rule own_inv_cong [OF inv])
  have A: "areas_ok A" using inv by (simp add: own_inv_def)
  have no: "\<not> (A (h, j) = Some b \<and> is_private b \<and> n \<in> area_pages b)" for j b
    using a area_unique [OF A, of h i a j b n] by auto
  then have out: "(h, n) \<notin> owned A Q" for Q by (auto simp: owned_def)
  have "x \<in> owned A (P((h, n) := e)) \<longleftrightarrow> x \<in> owned A P" if "x \<noteq> (h, n)" for x using that by (auto simp: owned_def)
  then show "owned A (P((h, n) := e)) = owned A P" using out by (metis set_eqI)
  show "frame_at (P((h, n) := e)) x = frame_at P x" if "x \<in> owned A P" for x
    using that out [of P] by (auto simp: frame_at_def)
  show "pages_covered A (P((h, n) := e))" using inv covered_upd [of A P h i a n] a by (simp add: own_inv_def)
qed (use inv in \<open>simp add: own_inv_def\<close>)

lemma own_remove_area:
  assumes inv: "own_inv A P U" and a: "A (h, i) = Some a" "\<And>n. n \<in> area_pages a \<Longrightarrow> P (h, n) = None"
  shows "own_inv (A((h, i) := None)) P U"
proof (rule own_inv_cong [OF inv])
  show "areas_ok (A((h, i) := None))" using inv unfolding own_inv_def areas_ok_def by (auto split: if_splits)
  show "pages_covered (A((h, i) := None)) P"
    unfolding pages_covered_def
  proof (intro allI impI)
    fix k n assume n: "P (k, n) \<noteq> None" "n * 4096 < KERNEL_SCRATCH_BASE"
    then obtain j b where b: "A (k, j) = Some b" "n \<in> area_pages b" using inv unfolding own_inv_def pages_covered_def by blast
    then have "(k, j) \<noteq> (h, i)" using a n(1) by auto
    then show "\<exists>j b. (A((h, i) := None)) (k, j) = Some b \<and> n \<in> area_pages b" using b by (intro exI [of _ j] exI [of _ b]) auto
  qed
  show "owned (A((h, i) := None)) P = owned A P"
    using a unfolding owned_def by (auto split: if_splits) (metis option.inject option.distinct(1))
qed (use inv in \<open>simp add: own_inv_def\<close>)

end
