(* ===== verification/Address_Spaces.thy ===== *)
theory Address_Spaces
  imports Page_Owners
begin

text \<open>
  The operations on address spaces keep the invariant \<open>mem_inv\<close>: page tables are well formed and
  the frames in use are exactly those of the private pages, each once. Unmapping areas and destroying a
  space always return and give every frame back.
\<close>

subsection \<open>The views of a state\<close>

definition areas_at :: "mem \<Rightarrow> area_map" where
  "areas_at s = (\<lambda>(h, i). case at (spaces s) h of None \<Rightarrow> None | Some sp \<Rightarrow> at (areas sp) i)"

definition pages_at :: "mem \<Rightarrow> page_map" where
  "pages_at s = (\<lambda>(h, n). pte_at s h (n * 4096))"

definition frames :: "mem \<Rightarrow> int set" where
  "frames s = (case user_space_allocator s of None \<Rightarrow> {} | Some u \<Rightarrow> pa_used u)"

definition user_ok :: "mem \<Rightarrow> bool" where
  "user_ok s \<longleftrightarrow> (case user_space_allocator s of None \<Rightarrow> False | Some u \<Rightarrow> pa_inv u)"

definition mem_inv :: "mem \<Rightarrow> bool" where
  "mem_inv s \<longleftrightarrow> tables_ok s \<and> user_ok s \<and> own_inv (areas_at s) (pages_at s) (frames s)"

lemma mem_invD: "mem_inv s \<Longrightarrow> tables_ok s" "mem_inv s \<Longrightarrow> user_ok s" "mem_inv s \<Longrightarrow> own_inv (areas_at s) (pages_at s) (frames s)"
  by (simp_all add: mem_inv_def)

lemma page_number_small: "pte_at s h (n * 4096) \<noteq> None \<Longrightarrow> in_space (n * 4096)"
  by (auto simp: pte_at_def pde_at_def in_space_def Let_def split: option.splits if_splits)

lemma in_space_page: "in_space a \<Longrightarrow> in_space (a div 4096 * 4096)"
  unfolding in_space_def by (auto simp: pos_imp_zdiv_nonneg_iff)

lemma page_set_pages:
  assumes "page_set h va e s s'" "in_space va"
  shows "pages_at s' = (pages_at s)((h, va div 4096) := e)"
proof (intro ext, clarify)
  fix k n
  show "pages_at s' (k, n) = ((pages_at s)((h, va div 4096) := e)) (k, n)"
  proof (cases "in_space (n * 4096)")
    case True
    then show ?thesis using assms(1) by (auto simp: page_set_def pages_at_def)
  next
    case False
    then have "n \<noteq> va div 4096" using in_space_page [OF assms(2)] by blast
    moreover have "pte_at s k (n * 4096) = None" "pte_at s' k (n * 4096) = None" using False page_number_small by blast+
    ultimately show ?thesis by (simp add: pages_at_def)
  qed
qed

lemma same_rest_views:
  assumes "same_rest s s'"
  shows "areas_at s' = areas_at s" "frames s' = frames s" "user_ok s' = user_ok s"
  using assms by (auto simp: same_rest_def areas_at_def frames_def user_ok_def)

lemma page_set_views:
  assumes "page_set h va e s s'"
  shows "areas_at s' = areas_at s" "frames s' = frames s" "user_ok s' = user_ok s" "spaces s' = spaces s"
    "current_space s' = current_space s" "phys s' = phys s" "page_dir_allocator s' = page_dir_allocator s"
  using assms same_rest_views [of s s'] by (simp_all add: page_set_def same_rest_def)

lemma entry_frame: "page_aligned pa \<Longrightarrow> entry pa f = Some e \<Longrightarrow> pte_frame e = pa"
  by (auto simp: entry_def pte_frame_def page_aligned_mod split: if_splits)

subsection \<open>The user pages\<close>

lemma mem_alloc_page_step:
  assumes "user_ok s" "mem_alloc_page s = Inr (s', a)"
  shows "user_ok s' \<and> a \<notin> frames s \<and> frames s' = insert a (frames s) \<and> page_aligned a \<and> in_space a \<and>
    (\<exists>u. s' = s\<lparr>user_space_allocator := Some u\<rparr>)"
proof -
  obtain u u' where u: "user_space_allocator s = Some u" "alloc_page u = Inr (u', a)" "s' = s\<lparr>user_space_allocator := Some u'\<rparr>"
    using assms(2) by (auto simp: mem_alloc_page_def split: option.splits)
  have i: "pa_inv u" using assms(1) u(1) by (simp add: user_ok_def)
  from pg.take_step [OF i u(2)] have "pa_inv u'" "a \<in> pa_pages u - pa_used u" "pa_used u' = insert a (pa_used u)" by auto
  then show ?thesis using u i by (auto simp: user_ok_def frames_def pa_pages_def page_range_def page_aligned_mod in_space_def pa_inv_def)
qed

lemma mem_free_page_ok:
  assumes "user_ok s" "a \<in> frames s"
  obtains s' u where "mem_free_page a s = Inr s'" "user_ok s'" "frames s' = frames s - {a}" "s' = s\<lparr>user_space_allocator := Some u\<rparr>"
proof -
  obtain u where u: "user_space_allocator s = Some u" "pa_inv u" "a \<in> pa_used u"
    using assms by (auto simp: user_ok_def frames_def split: option.splits)
  obtain u' where "free_page a u = Inr u'" "pa_inv u'" "pa_used u' = pa_used u - {a}" using pg.give_used [OF u(2,3)] by auto
  then show thesis using that [of "s\<lparr>user_space_allocator := Some u'\<rparr>" u'] u by (simp add: mem_free_page_def user_ok_def frames_def)
qed

lemma user_alloc_views [simp]:
  "tables_ok (s\<lparr>user_space_allocator := u\<rparr>) = tables_ok s" "areas_at (s\<lparr>user_space_allocator := u\<rparr>) = areas_at s"
  "pages_at (s\<lparr>user_space_allocator := u\<rparr>) = pages_at s" "pte_at (s\<lparr>user_space_allocator := u\<rparr>) = pte_at s"
proof -
  have d: "pde_at (s\<lparr>user_space_allocator := u\<rparr>) = pde_at s" by (intro ext pde_at_cong) simp_all
  then show p: "pte_at (s\<lparr>user_space_allocator := u\<rparr>) = pte_at s" by (auto simp: pte_at_def fun_eq_iff split: option.split)
  from d show "tables_ok (s\<lparr>user_space_allocator := u\<rparr>) = tables_ok s" by (simp add: tables_ok_def table_at_def dir_at_def [abs_def])
  from p show "pages_at (s\<lparr>user_space_allocator := u\<rparr>) = pages_at s" by (simp add: pages_at_def)
qed (simp add: areas_at_def)

lemma phys_views [simp]:
  "tables_ok (s\<lparr>phys := u\<rparr>) = tables_ok s" "areas_at (s\<lparr>phys := u\<rparr>) = areas_at s"
  "pages_at (s\<lparr>phys := u\<rparr>) = pages_at s" "pte_at (s\<lparr>phys := u\<rparr>) = pte_at s" "frames (s\<lparr>phys := u\<rparr>) = frames s" "user_ok (s\<lparr>phys := u\<rparr>) = user_ok s"
proof -
  have d: "pde_at (s\<lparr>phys := u\<rparr>) = pde_at s" by (intro ext pde_at_cong) simp_all
  then show p: "pte_at (s\<lparr>phys := u\<rparr>) = pte_at s" by (auto simp: pte_at_def fun_eq_iff split: option.split)
  from d show "tables_ok (s\<lparr>phys := u\<rparr>) = tables_ok s" by (simp add: tables_ok_def table_at_def dir_at_def [abs_def])
  from p show "pages_at (s\<lparr>phys := u\<rparr>) = pages_at s" by (simp add: pages_at_def)
qed (simp_all add: areas_at_def frames_def user_ok_def)

subsection \<open>Changing the pools of a space\<close>

text \<open>What a change of the space \<open>h\<close> that keeps its directory does to the views.\<close>

definition space_set :: "nat \<Rightarrow> space_info \<Rightarrow> mem \<Rightarrow> mem \<Rightarrow> bool" where
  "space_set h sp s s' \<longleftrightarrow> tables_ok s' \<and> pages_at s' = pages_at s \<and>
     areas_at s' = (\<lambda>(k, i). if k = h then at (areas sp) i else areas_at s (k, i)) \<and> frames s' = frames s \<and> user_ok s' = user_ok s \<and>
     current_space s' = current_space s \<and> phys s' = phys s \<and> at (spaces s') = (at (spaces s))(h \<mapsto> sp) \<and>
     page_dir_allocator s' = page_dir_allocator s"

lemma set_space:
  assumes ok: "tables_ok s" and sp: "at (spaces s) h = Some sp" and f: "page_dir (f sp) = page_dir sp" "space_ok (f sp)"
  shows "\<exists>ps. modify h f (spaces s) = Inr ps \<and> space_set h (f sp) s (s\<lparr>spaces := ps\<rparr>)"
proof -
  have "pool_inv (spaces s)" using ok by (simp add: tables_ok_def)
  then obtain ps where ps: "modify h f (spaces s) = Inr ps" "pool_inv ps" "capacity ps = capacity (spaces s)" "at ps = (at (spaces s))(h \<mapsto> f sp)"
    using modify_step [OF _ sp, of f] by auto
  let ?s = "s\<lparr>spaces := ps\<rparr>"
  have d: "dir_at ?s = dir_at s" using ps(4) sp f(1) by (auto simp: dir_at_def fun_eq_iff)
  have e: "pde_at ?s = pde_at s" using ps(4) sp f(1) by (auto simp: pde_at_def fun_eq_iff split: option.split)
  have p: "pte_at ?s = pte_at s" using e by (auto simp: pte_at_def fun_eq_iff split: option.split)
  have "ran (at ps) \<subseteq> insert (f sp) (ran (at (spaces s)))" using ps(4) by (auto simp: ran_def)
  then have "\<forall>sp \<in> ran (at ps). space_ok sp" using ok f(2) unfolding tables_ok_def by blast
  then have "tables_ok ?s" using ok ps(2,3) d e by (simp add: tables_ok_def table_at_def)
  moreover have "areas_at ?s = (\<lambda>(k, i). if k = h then at (areas (f sp)) i else areas_at s (k, i))"
    using ps(4) by (auto simp: areas_at_def fun_eq_iff)
  ultimately show ?thesis using ps p by (simp add: space_set_def pages_at_def frames_def user_ok_def)
qed

lemma set_space_step:
  assumes "tables_ok s" "at (spaces s) h = Some sp" "modify h f (spaces s) = Inr ps" "page_dir (f sp) = page_dir sp" "space_ok (f sp)"
  shows "space_set h (f sp) s (s\<lparr>spaces := ps\<rparr>)"
  using set_space [of s h sp f] assms by auto

text \<open>A state in which all views are the same.\<close>

definition same_views :: "mem \<Rightarrow> mem \<Rightarrow> bool" where
  "same_views s s' \<longleftrightarrow> areas_at s' = areas_at s \<and> pages_at s' = pages_at s \<and> frames s' = frames s \<and> user_ok s' = user_ok s \<and>
     current_space s' = current_space s \<and> dom (at (spaces s')) = dom (at (spaces s)) \<and> phys s' = phys s"

lemma space_set_same:
  assumes "space_set h sp' s s'" "at (spaces s) h = Some sp" "areas sp' = areas sp"
  shows "tables_ok s' \<and> same_views s s'"
proof -
  have "(\<lambda>(k, i). if k = h then at (areas sp') i else areas_at s (k, i)) = areas_at s"
    using assms(2,3) by (auto simp: areas_at_def)
  moreover have "dom ((at (spaces s))(h \<mapsto> sp')) = dom (at (spaces s))" using assms(2) by auto
  ultimately show ?thesis using assms(1) by (simp add: space_set_def same_views_def)
qed

lemma pool_watermark: "pool_inv p \<Longrightarrow> watermark p \<le> capacity p" "pool_inv p \<Longrightarrow> at p i \<noteq> None \<Longrightarrow> i < watermark p"
  using dom_at [of p] by (auto simp: pool_inv_def pool_rep_def capacity_def dom_def)

lemma iter_areas: "pool_inv p \<Longrightarrow> set (iter_from p (pool_begin p)) = dom (at p)"
  using pool_watermark(2) [of p] by (auto simp: iter_indices valid_at dom_def)

lemma area_list_ok:
  assumes "pool_inv p"
  shows "\<exists>as. area_list p = Inr as \<and> set as = ran (at p)"
proof -
  have "\<exists>as. foldr (\<lambda>i r. bindR (get p i) (\<lambda>a. bindR r (\<lambda>as. Inr (a # as)))) is (Inr []) = Inr as \<and> set as = {a. \<exists>i \<in> set is. at p i = Some a}"
    if "set is \<subseteq> dom (at p)" for "is"
    using that
  proof (induction "is")
    case (Cons i "is")
    then obtain a as where "at p i = Some a" "foldr (\<lambda>i r. bindR (get p i) (\<lambda>a. bindR r (\<lambda>as. Inr (a # as)))) is (Inr []) = Inr as"
        "set as = {a. \<exists>i \<in> set is. at p i = Some a}"
      by auto
    then show ?case using assms by (auto simp: get_at)
  qed simp
  from this [of "iter_from p (pool_begin p)"] show ?thesis
    unfolding area_list_def iter_areas [OF assms] ran_def dom_def by blast
qed

lemma space_at: "tables_ok s \<Longrightarrow> at (spaces s) h = Some sp \<Longrightarrow> space_ok sp"
  by (auto simp: tables_ok_def ran_def)

lemma overlaps_ok:
  assumes "tables_ok s" "at (spaces s) h = Some sp"
  shows "overlaps_existing_area h start e s = Inr (\<exists>i a. areas_at s (h, i) = Some a \<and> start < area_end a \<and> area_start a < e)"
proof -
  obtain as where "area_list (areas sp) = Inr as" "set as = ran (at (areas sp))"
    using area_list_ok [of "areas sp"] space_at [OF assms] by (auto simp: space_ok_def)
  then show ?thesis using assms by (auto simp: overlaps_existing_area_def get_space areas_at_def ran_def)
qed

lemma put_area_step:
  assumes ok: "tables_ok s" and put: "put_area h a s = Inr (s', i)"
  shows "tables_ok s' \<and> areas_at s (h, i) = None \<and> areas_at s' = (areas_at s)((h, i) \<mapsto> a) \<and> pages_at s' = pages_at s \<and>
    frames s' = frames s \<and> user_ok s' = user_ok s \<and> current_space s' = current_space s \<and> dom (at (spaces s')) = dom (at (spaces s)) \<and> phys s' = phys s"
proof -
  obtain sp p ps where p: "at (spaces s) h = Some sp" "emplace_anywhere a (areas sp) = Inr (p, i)"
      "modify h (\<lambda>sp. sp\<lparr>areas := p\<rparr>) (spaces s) = Inr ps" "s' = s\<lparr>spaces := ps\<rparr>"
    using put ok by (auto simp: put_area_def get_space split: option.splits)
  have sok: "space_ok sp" by (rule space_at [OF ok p(1)])
  then have e: "pool_inv p" "capacity p = 32" "at (areas sp) i = None" "at p = (at (areas sp))(i \<mapsto> a)"
    using pl.alloc_step [OF _ p(2)] by (auto simp: space_ok_def)
  have "space_ok (sp\<lparr>areas := p\<rparr>)" using sok e by (simp add: space_ok_def)
  then have "space_set h (sp\<lparr>areas := p\<rparr>) s s'" using set_space_step [OF ok p(1,3)] p(4) by simp
  moreover have "(\<lambda>(k, j). if k = h then at (areas (sp\<lparr>areas := p\<rparr>)) j else areas_at s (k, j)) = (areas_at s)((h, i) \<mapsto> a)"
    using e(4) p(1) by (auto simp: areas_at_def fun_eq_iff)
  moreover have "dom ((at (spaces s))(h \<mapsto> sp\<lparr>areas := p\<rparr>)) = dom (at (spaces s))" using p(1) by auto
  moreover have "areas_at s (h, i) = None" using e(3) p(1) by (simp add: areas_at_def)
  ultimately show ?thesis by (simp add: space_set_def)
qed

lemma put_linear_map_step:
  assumes ok: "tables_ok s" and put: "put_linear_map h m s = Inr (s', i)"
  shows "tables_ok s' \<and> same_views s s'"
proof -
  obtain sp p ps where p: "at (spaces s) h = Some sp" "emplace_anywhere m (linear_maps sp) = Inr (p, i)"
      "modify h (\<lambda>sp. sp\<lparr>linear_maps := p\<rparr>) (spaces s) = Inr ps" "s' = s\<lparr>spaces := ps\<rparr>"
    using put ok by (auto simp: put_linear_map_def get_space split: option.splits)
  have sok: "space_ok sp" by (rule space_at [OF ok p(1)])
  then have "space_ok (sp\<lparr>linear_maps := p\<rparr>)" using pl.alloc_step [OF _ p(2)] by (auto simp: space_ok_def)
  then have "space_set h (sp\<lparr>linear_maps := p\<rparr>) s s'" using set_space_step [OF ok p(1,3)] p(4) by simp
  then show ?thesis by (rule space_set_same [OF _ p(1)]) simp
qed

lemma put_file_map_step:
  assumes ok: "tables_ok s" and put: "put_file_map h m s = Inr (s', i)"
  shows "tables_ok s' \<and> same_views s s'"
proof -
  obtain sp p ps where p: "at (spaces s) h = Some sp" "emplace_anywhere m (file_maps sp) = Inr (p, i)"
      "modify h (\<lambda>sp. sp\<lparr>file_maps := p\<rparr>) (spaces s) = Inr ps" "s' = s\<lparr>spaces := ps\<rparr>"
    using put ok by (auto simp: put_file_map_def get_space split: option.splits)
  have sok: "space_ok sp" by (rule space_at [OF ok p(1)])
  then have "space_ok (sp\<lparr>file_maps := p\<rparr>)" using pl.alloc_step [OF _ p(2)] by (auto simp: space_ok_def)
  then have "space_set h (sp\<lparr>file_maps := p\<rparr>) s s'" using set_space_step [OF ok p(1,3)] p(4) by simp
  then show ?thesis by (rule space_set_same [OF _ p(1)]) simp
qed

subsection \<open>Mapping areas\<close>

text \<open>An area added where no area is; the pages of one that is not private may have been mapped before.\<close>

definition fits :: "nat \<Rightarrow> area_info \<Rightarrow> mem \<Rightarrow> bool" where
  "fits h a s \<longleftrightarrow> (\<forall>i b. areas_at s (h, i) = Some b \<longrightarrow> apart a b)"

lemma fitsI:
  assumes "tables_ok s" "at (spaces s) h \<noteq> None" "overlaps_existing_area h start e s = Inr False" "area_start a = start" "area_end a = e"
  shows "fits h a s"
  using assms overlaps_ok [OF assms(1)] by (auto simp: fits_def apart_def)

lemma overlaps_space: "tables_ok s \<Longrightarrow> overlaps_existing_area h start e s = Inr b \<Longrightarrow> at (spaces s) h \<noteq> None"
  by (auto simp: overlaps_existing_area_def get_space split: option.splits)

lemma put_area_inv:
  assumes put: "put_area h a s = Inr (s', i)" and ok: "tables_ok s" "user_ok s" and own: "own_inv (areas_at s) P (frames s)"
    and fit: "fits h a s" "area_ok a" and P: "\<And>x. \<not> (fst x = h \<and> snd x \<in> area_pages a) \<Longrightarrow> pages_at s x = P x" "is_private a \<Longrightarrow> pages_at s = P"
  shows "mem_inv s' \<and> areas_at s (h, i) = None \<and> areas_at s' = (areas_at s)((h, i) \<mapsto> a) \<and> pages_at s' = pages_at s \<and>
    frames s' = frames s \<and> current_space s' = current_space s \<and> dom (at (spaces s')) = dom (at (spaces s)) \<and> phys s' = phys s"
proof -
  have st: "tables_ok s'" "areas_at s (h, i) = None" "areas_at s' = (areas_at s)((h, i) \<mapsto> a)" "pages_at s' = pages_at s"
    "frames s' = frames s" "user_ok s' = user_ok s" "current_space s' = current_space s" "dom (at (spaces s')) = dom (at (spaces s))" "phys s' = phys s"
    using put_area_step [OF ok(1) put] by auto
  have "own_inv ((areas_at s)((h, i) \<mapsto> a)) (pages_at s) (frames s)"
    by (rule own_add_area [OF own st(2) fit(2)]) (use fit(1) P in \<open>auto simp: fits_def\<close>)
  then show ?thesis using st ok(2) by (simp add: mem_inv_def)
qed


definition area_added :: "nat \<Rightarrow> area_info \<Rightarrow> mem \<Rightarrow> mem \<Rightarrow> bool" where
  "area_added h a s s' \<longleftrightarrow> (\<exists>i. areas_at s (h, i) = None \<and> areas_at s' = (areas_at s)((h, i) \<mapsto> a)) \<and> pages_at s' = pages_at s \<and>
     frames s' = frames s \<and> current_space s' = current_space s \<and> dom (at (spaces s')) = dom (at (spaces s)) \<and> phys s' = phys s"

lemma put_area_added:
  assumes "put_area h a s = Inr (s', i)" "mem_inv s" "fits h a s" "area_ok a"
  shows "mem_inv s' \<and> area_added h a s s'"
  using put_area_inv [OF assms(1) _ _ mem_invD(3) [OF assms(2)] assms(3,4)] assms(2) unfolding area_added_def mem_inv_def by blast

lemma mem_map_alloc_step:
  assumes "mem_inv s" "mem_map_alloc h start e flags s = Inr (s', i)"
    and a: "a = \<lparr>area_start = start, area_end = e, area_type = AREA_ALLOC, area_flags = flags, info_handle = 0\<rparr>" "area_ok a"
  shows "mem_inv s' \<and> area_added h a s s'"
proof -
  have o': "overlaps_existing_area h start e s = Inr False" and p: "put_area h a s = Inr (s', i)"
    using assms(2) by (auto simp: mem_map_alloc_def a(1))
  have t: "tables_ok s" using assms(1) by (simp add: mem_inv_def)
  have "fits h a s" by (rule fitsI [OF t overlaps_space [OF t o'] o']) (simp_all add: a(1))
  then show ?thesis using put_area_added [OF p assms(1)] a(2) by blast
qed

lemma same_views_inv: "tables_ok s' \<Longrightarrow> same_views s s' \<Longrightarrow> mem_inv s \<Longrightarrow> mem_inv s'"
  by (simp add: same_views_def mem_inv_def)

lemma same_views_added: "same_views s s1 \<Longrightarrow> area_added h a s1 s2 \<Longrightarrow> area_added h a s s2"
  by (simp add: same_views_def area_added_def)

lemma same_views_fits: "same_views s s1 \<Longrightarrow> fits h a s1 = fits h a s"
  by (simp add: same_views_def fits_def)

lemma mem_map_linear_step:
  assumes "mem_inv s" "mem_map_linear h start e pa flags s = Inr (s', i)"
    and a: "area_ok \<lparr>area_start = start, area_end = e, area_type = AREA_LINEAR_MAP, area_flags = flags, info_handle = 0\<rparr>"
  shows "\<exists>m. mem_inv s' \<and> area_added h \<lparr>area_start = start, area_end = e, area_type = AREA_LINEAR_MAP, area_flags = flags, info_handle = m\<rparr> s s'"
proof -
  obtain s1 m where o': "overlaps_existing_area h start e s = Inr False" and m: "put_linear_map h \<lparr>phys_start = pa\<rparr> s = Inr (s1, m)"
      and p: "put_area h \<lparr>area_start = start, area_end = e, area_type = AREA_LINEAR_MAP, area_flags = flags, info_handle = m\<rparr> s1 = Inr (s', i)"
    using assms(2) by (auto simp: mem_map_linear_def)
  let ?a = "\<lparr>area_start = start, area_end = e, area_type = AREA_LINEAR_MAP, area_flags = flags, info_handle = m\<rparr>"
  have t: "tables_ok s" using assms(1) by (simp add: mem_inv_def)
  have s1: "tables_ok s1" "same_views s s1" using put_linear_map_step [OF t m] by auto
  have "fits h ?a s" by (rule fitsI [OF t overlaps_space [OF t o'] o']) simp_all
  moreover have "area_ok ?a" using a by (simp add: area_ok_def)
  ultimately have "mem_inv s' \<and> area_added h ?a s1 s'"
    using put_area_added [OF p same_views_inv [OF s1 assms(1)]] same_views_fits [OF s1(2)] by blast
  then show ?thesis using same_views_added [OF s1(2)] by blast
qed

lemma mem_map_fd_step:
  assumes "mem_inv s" "mem_map_fd h start e fd offset sz flags s = Inr (s', i)"
    and a: "area_ok \<lparr>area_start = start, area_end = e, area_type = AREA_FILE, area_flags = flags, info_handle = 0\<rparr>"
  shows "\<exists>m. mem_inv s' \<and> area_added h \<lparr>area_start = start, area_end = e, area_type = AREA_FILE, area_flags = flags, info_handle = m\<rparr> s s'"
proof -
  obtain s1 m where o': "overlaps_existing_area h start e s = Inr False"
      and m: "put_file_map h \<lparr>fm_fd = fd, fm_offset = offset, fm_size = sz\<rparr> s = Inr (s1, m)"
      and p: "put_area h \<lparr>area_start = start, area_end = e, area_type = AREA_FILE, area_flags = flags, info_handle = m\<rparr> s1 = Inr (s', i)"
    using assms(2) by (auto simp: mem_map_fd_def)
  let ?a = "\<lparr>area_start = start, area_end = e, area_type = AREA_FILE, area_flags = flags, info_handle = m\<rparr>"
  have t: "tables_ok s" using assms(1) by (simp add: mem_inv_def)
  have s1: "tables_ok s1" "same_views s s1" using put_file_map_step [OF t m] by auto
  have "fits h ?a s" by (rule fitsI [OF t overlaps_space [OF t o'] o']) simp_all
  moreover have "area_ok ?a" using a by (simp add: area_ok_def)
  ultimately have "mem_inv s' \<and> area_added h ?a s1 s'"
    using put_area_added [OF p same_views_inv [OF s1 assms(1)]] same_views_fits [OF s1(2)] by blast
  then show ?thesis using same_views_added [OF s1(2)] by blast
qed

subsection \<open>Loops over pages\<close>

lemma page_loop_step:
  assumes "page_loop k f a e s = Inr s'" "I a s" "0 \<le> a" "a mod 4096 = 0" "e \<le> 0xF0000000"
    and "\<And>a s s'. I a s \<Longrightarrow> 0 \<le> a \<Longrightarrow> a mod 4096 = 0 \<Longrightarrow> a < e \<Longrightarrow> f a s = Inr s' \<Longrightarrow> I (a + 0x1000) s'"
  shows "\<exists>b. e \<le> b \<and> I b s'"
  using assms(1-4)
proof (induction k arbitrary: a s)
  case (Suc k)
  show ?case
  proof (cases "a < e")
    case True
    then obtain s1 where s1: "f a s = Inr s1" "page_loop k f (u32 (a + 0x1000)) e s1 = Inr s'" using Suc.prems(1) by auto
    have "u32 (a + 0x1000) = a + 0x1000" using True Suc.prems(3) assms(5) by (intro u32_id) auto
    then show ?thesis using Suc.IH [of "a + 0x1000" s1] s1 assms(6) [OF Suc.prems(2-4) True s1(1)] Suc.prems(3,4) by simp
  next
    case False
    then show ?thesis using Suc.prems(1,2) by (intro exI [of _ a]) simp
  qed
qed simp

lemma page_loop_total:
  assumes "I a s" "0 \<le> a" "a mod 4096 = 0" "e \<le> 0xF0000000" "e - a \<le> 4096 * int k"
    and "\<And>a s. I a s \<Longrightarrow> 0 \<le> a \<Longrightarrow> a mod 4096 = 0 \<Longrightarrow> a < e \<Longrightarrow> \<exists>s'. f a s = Inr s' \<and> I (a + 0x1000) s'"
  shows "\<exists>b s'. page_loop (Suc k) f a e s = Inr s' \<and> e \<le> b \<and> I b s'"
  using assms(1-3,5)
proof (induction k arbitrary: a s)
  case (Suc k)
  show ?case
  proof (cases "a < e")
    case True
    obtain s1 where s1: "f a s = Inr s1" "I (a + 0x1000) s1" using assms(6) [OF Suc.prems(1-3) True] by auto
    have "u32 (a + 0x1000) = a + 0x1000" using True Suc.prems(2) assms(4) by (intro u32_id) auto
    then show ?thesis using Suc.IH [of "a + 0x1000" s1] s1 Suc.prems(2-4) True by simp
  next
    case False
    then show ?thesis using Suc.prems(1) by (intro exI [of _ a] exI [of _ s]) simp
  qed
qed auto

lemma PAGE_TURNS_Suc: "PAGE_TURNS = Suc 1048576"
  by (simp add: PAGE_TURNS_def)

subsection \<open>Eager linear maps\<close>

text \<open>Pages change only inside \<open>[start, e)\<close> of one space.\<close>

definition pages_within :: "nat \<Rightarrow> int \<Rightarrow> int \<Rightarrow> mem \<Rightarrow> mem \<Rightarrow> bool" where
  "pages_within h start e s s' \<longleftrightarrow> tables_ok s' \<and> same_rest s s' \<and>
     (\<forall>k n. \<not> (k = h \<and> start \<le> n * 4096 \<and> n * 4096 < e) \<longrightarrow> pages_at s' (k, n) = pages_at s (k, n))"

lemma page_set_within:
  assumes w: "pages_within h start e s0 s" and p: "page_set h va x s s'" "tables_ok s'" and va: "in_space va" "va mod 4096 = 0" "start \<le> va" "va < e"
  shows "pages_within h start e s0 s'"
proof -
  have "same_rest s0 s'" using w p(1) by (auto simp: pages_within_def page_set_def same_rest_def)
  moreover have "va div 4096 * 4096 = va" using va(2) by auto
  ultimately show ?thesis using w p(2) page_set_pages [OF p(1) va(1)] va unfolding pages_within_def by (auto simp: fun_upd_def)
qed

lemma mem_map_linear_eager_step:
  assumes inv: "mem_inv s" and run: "mem_map_linear_eager h start e pa flags s = Inr (s', i)"
    and a: "area_ok \<lparr>area_start = start, area_end = e, area_type = AREA_LINEAR_MAP, area_flags = flags, info_handle = 0\<rparr>"
  shows "mem_inv s' \<and> frames s' = frames s \<and> current_space s' = current_space s \<and> dom (at (spaces s')) = dom (at (spaces s))"
proof -
  let ?f = "\<lambda>a. map_page h a (u32 (pa + (a - start))) (page_flags flags)"
  obtain s1 s2 m where o': "overlaps_existing_area h start e s = Inr False" and l: "page_loop PAGE_TURNS ?f start e s = Inr s1"
      and m: "put_linear_map h \<lparr>phys_start = pa\<rparr> s1 = Inr (s2, m)"
      and p: "put_area h \<lparr>area_start = start, area_end = e, area_type = AREA_LINEAR_MAP, area_flags = flags, info_handle = m\<rparr> s2 = Inr (s', i)"
    using run by (auto simp: mem_map_linear_eager_def)
  let ?a = "\<lparr>area_start = start, area_end = e, area_type = AREA_LINEAR_MAP, area_flags = flags, info_handle = m\<rparr>"
  have t: "tables_ok s" "user_ok s" using inv by (simp_all add: mem_inv_def)
  have r: "0 \<le> start" "start mod 4096 = 0" "e \<le> 0xE0000000" "area_ok ?a" using a by (auto simp: area_ok_def KERNEL_SCRATCH_BASE_def)
  have "\<exists>b \<ge> e. pages_within h start e s s1 \<and> start \<le> b"
  proof -
    have "\<exists>b. e \<le> b \<and> (pages_within h start e s s1 \<and> start \<le> b)"
    proof (rule page_loop_step [OF l, where I = "\<lambda>a s1. pages_within h start e s s1 \<and> start \<le> a"])
      show "pages_within h start e s s \<and> start \<le> start" using t(1) by (simp add: pages_within_def same_rest_def)
      fix b u u' assume b: "pages_within h start e s u \<and> start \<le> b" "0 \<le> b" "b mod 4096 = 0" "b < e" "?f b u = Inr u'"
      have "in_space b" using b(2,4) r(3) by (simp add: in_space_def)
      then show "pages_within h start e s u' \<and> start \<le> b + 0x1000"
        using map_page_step [OF _ _ b(5)] b page_set_within [of h start e s u b _ u'] by (auto simp: pages_within_def)
    qed (use r in auto)
    then show ?thesis by blast
  qed
  then have w: "tables_ok s1" "same_rest s s1" "\<And>k n. \<not> (k = h \<and> start \<le> n * 4096 \<and> n * 4096 < e) \<Longrightarrow> pages_at s1 (k, n) = pages_at s (k, n)"
    by (auto simp: pages_within_def)
  have s2: "tables_ok s2" "same_views s1 s2" using put_linear_map_step [OF w(1) m] by auto
  have v: "areas_at s2 = areas_at s" "frames s2 = frames s" "user_ok s2" "pages_at s2 = pages_at s1"
    using s2(2) same_rest_views [OF w(2)] t(2) by (auto simp: same_views_def)
  have "fits h ?a s" by (rule fitsI [OF t(1) overlaps_space [OF t(1) o'] o']) simp_all
  then have fit: "fits h ?a s2" using v(1) by (simp add: fits_def)
  have "mem_inv s' \<and> frames s' = frames s2 \<and> current_space s' = current_space s2 \<and> dom (at (spaces s')) = dom (at (spaces s2))"
  proof -
    have own: "own_inv (areas_at s2) (pages_at s) (frames s2)" using mem_invD(3) [OF inv] v by simp
    have "pages_at s2 x = pages_at s x" if "\<not> (fst x = h \<and> snd x \<in> area_pages ?a)" for x
      using that w(3) [of "fst x" "snd x"] v(4) by (auto simp: area_pages_def)
    moreover have "\<not> is_private ?a" by (simp add: is_private_def AREA_LINEAR_MAP_def AREA_ALLOC_def AREA_FILE_def)
    ultimately show ?thesis using put_area_inv [OF p s2(1) v(3) own fit r(4)] by simp
  qed
  then show ?thesis using v(2) s2(2) w(2) by (simp add: same_views_def same_rest_def)
qed

end
