(* ===== verification/Space_Release.thy ===== *)
theory Space_Release
  imports Address_Spaces
begin

text \<open>
  Unmapping areas and destroying a space: both always return, and afterwards the frames of the
  pages that were unmapped are free again and all others are as they were.
\<close>

subsection \<open>Unmapping one area\<close>

text \<open>
  While an area is unmapped: the pages below \<open>b\<close> are gone and their frames free. The frames that
  are in use are those of the pages that remain.
\<close>

definition unmapping :: "nat \<Rightarrow> area_info \<Rightarrow> mem \<Rightarrow> int \<Rightarrow> mem \<Rightarrow> bool" where
  "unmapping h a s0 b s \<longleftrightarrow> mem_inv s \<and> spaces s = spaces s0 \<and> current_space s = current_space s0 \<and>
     page_dir_allocator s = page_dir_allocator s0 \<and> area_start a \<le> b \<and> phys s = phys s0 \<and>
     (\<forall>k n. pages_at s (k, n) = (if k = h \<and> n \<in> area_pages a \<and> n * 4096 < b then None else pages_at s0 (k, n)))"

lemma areas_at_spaces: "spaces s = spaces s0 \<Longrightarrow> areas_at s = areas_at s0"
  by (simp add: areas_at_def)

lemma area_in_space:
  assumes "own_inv A P U" "A (h, i) = Some a" "area_start a \<le> b" "b < area_end a"
  shows "0 \<le> b \<and> b < KERNEL_SCRATCH_BASE \<and> in_space b"
  using assms unfolding own_inv_def areas_ok_def area_ok_def in_space_def KERNEL_SCRATCH_BASE_def by fastforce

lemma unmap_page_ok:
  assumes I: "unmapping h a s0 b s" and a: "areas_at s0 (h, i) = Some a" and b: "b mod 4096 = 0" "b < area_end a"
  shows "\<exists>s'. unmap_page h a b s = Inr s' \<and> unmapping h a s0 (b + 0x1000) s'"
proof -
  have inv: "mem_inv s" and sp0: "spaces s = spaces s0" and lo: "area_start a \<le> b" using I by (auto simp: unmapping_def)
  have t: "tables_ok s" "user_ok s" "own_inv (areas_at s) (pages_at s) (frames s)" using inv by (auto simp: mem_inv_def)
  have ai: "areas_at s (h, i) = Some a" using a areas_at_spaces [OF sp0] by simp
  have va: "in_space b" using area_in_space [OF t(3) ai lo b(2)] by blast
  obtain n where n: "b = 4096 * n" using mod_page_obtain [OF b(1)] .
  then have nb: "b div 4096 = n" "n * 4096 = b" "n \<in> area_pages a" using lo b(2) by (auto simp: area_pages_def)
  obtain sp where sp: "at (spaces s) h = Some sp" using ai by (auto simp: areas_at_def split: option.splits)
  have find: "find_pte s sp b = Inr (pages_at s (h, n))" using find_pte_ok [OF t(1) sp va] nb(2) by (simp add: pages_at_def)
  have next': "(m \<in> area_pages a \<and> m * 4096 < b + 4096) = (m \<in> area_pages a \<and> m * 4096 < b \<or> m = n)" for m
    using nb n by auto
  show ?thesis
  proof (cases "pages_at s (h, n)")
    case None
    then have "unmapping h a s0 (b + 0x1000) s" using I next' by (auto simp: unmapping_def)
    then show ?thesis using None find sp t(1) by (simp add: unmap_page_def get_space)
  next
    case (Some pte)
    obtain s1 where s1: "(if area_type a = AREA_ALLOC \<or> area_type a = AREA_FILE then mem_free_page (pte_frame pte) s else Inr s) = Inr s1"
      "user_ok s1" "own_inv (areas_at s) ((pages_at s)((h, n) := None)) (frames s1)" "\<exists>u. s1 = s\<lparr>user_space_allocator := u\<rparr>"
    proof (cases "is_private a")
      case True
      then have "(h, n) \<in> owned (areas_at s) (pages_at s)" using ai nb(3) Some by (auto simp: owned_def)
      then have "pte_frame pte \<in> frames s" using own_frame_used [OF t(3)] Some by (fastforce simp: frame_at_def)
      then obtain s1 u where "mem_free_page (pte_frame pte) s = Inr s1" "user_ok s1" "frames s1 = frames s - {pte_frame pte}"
          "s1 = s\<lparr>user_space_allocator := Some u\<rparr>"
        using mem_free_page_ok [OF t(2)] by metis
      then show thesis using that [of s1] True own_unmap [OF t(3) ai True nb(3) Some] by (auto simp: is_private_def)
    next
      case False
      have "\<exists>u. s = s\<lparr>user_space_allocator := u\<rparr>" by (intro exI [of _ "user_space_allocator s"]) simp
      then show thesis using that [of s] t own_not_private [OF t(3) ai False nb(3), of None] False by (simp add: is_private_def)
    qed
    then have t1: "tables_ok s1" "spaces s1 = spaces s" "areas_at s1 = areas_at s" "pages_at s1 = pages_at s" "current_space s1 = current_space s"
        "phys s1 = phys s" "page_dir_allocator s1 = page_dir_allocator s" using t(1) by auto
    have sp1: "at (spaces s1) h = Some sp" using sp t1(2) by simp
    obtain s2 where s2: "map_page h b 0xDEAD000 0 s1 = Inr s2" "tables_ok s2" "page_set h b (entry 0xDEAD000 0) s1 s2"
      using map_page_cases [OF t1(1) sp1 va, of "0xDEAD000" 0] b(1) by (auto simp: page_aligned_mod)
    have p2: "pages_at s2 = (pages_at s)((h, n) := None)" using page_set_pages [OF s2(3) va] t1(4) nb(1) by (simp add: entry_def)
    note v2 = page_set_views [OF s2(3)]
    have "mem_inv s2" using s2(2) s1(2,3) v2 t1(3) p2 by (simp add: mem_inv_def)
    then have "unmapping h a s0 (b + 0x1000) s2" using I v2 t1 p2 next' nb(3) by (auto simp: unmapping_def)
    moreover have "unmap_page h a b s = Inr s2" using s1(1) s2(1) find sp t(1) Some by (simp add: unmap_page_def get_space)
    ultimately show ?thesis by blast
  qed
qed


text \<open>The area \<open>(h, i)\<close> and its pages are gone.\<close>

definition area_gone :: "nat \<Rightarrow> nat \<Rightarrow> area_info \<Rightarrow> mem \<Rightarrow> mem \<Rightarrow> bool" where
  "area_gone h i a s s' \<longleftrightarrow> mem_inv s' \<and> areas_at s' = (areas_at s)((h, i) := None) \<and> dom (at (spaces s')) = dom (at (spaces s)) \<and>
     current_space s' = current_space s \<and> phys s' = phys s \<and>
     (\<forall>k n. pages_at s' (k, n) = (if k = h \<and> n \<in> area_pages a then None else pages_at s (k, n)))"

lemma unmap_area_ok:
  assumes inv: "mem_inv s" and a: "areas_at s (h, i) = Some a"
  shows "\<exists>s'. unmap_area h i s = Inr s' \<and> area_gone h i a s s'"
proof -
  obtain sp where sp: "at (spaces s) h = Some sp" "at (areas sp) i = Some a" using a by (auto simp: areas_at_def split: option.splits)
  have t: "tables_ok s" "own_inv (areas_at s) (pages_at s) (frames s)" using inv by (auto simp: mem_inv_def)
  have ok: "area_ok a" using t(2) a by (auto simp: own_inv_def areas_ok_def)
  have sok: "space_ok sp" by (rule space_at [OF t(1) sp(1)])
  have I0: "unmapping h a s (area_start a) s" using inv by (auto simp: unmapping_def area_pages_def)
  obtain b s1 where s1: "page_loop PAGE_TURNS (unmap_page h a) (area_start a) (area_end a) s = Inr s1" "area_end a \<le> b" "unmapping h a s b s1"
    using page_loop_total [where I = "unmapping h a s" and f = "unmap_page h a" and k = 1048576 and e = "area_end a", OF I0]
      unmap_page_ok [OF _ a] ok
    by (auto simp: PAGE_TURNS_Suc area_ok_def KERNEL_SCRATCH_BASE_def simp del: page_loop.simps)
  have i1: "mem_inv s1" "spaces s1 = spaces s" "current_space s1 = current_space s" "phys s1 = phys s" using s1(3) by (auto simp: unmapping_def)
  have p1: "pages_at s1 (k, n) = (if k = h \<and> n \<in> area_pages a then None else pages_at s (k, n))" for k n
    using s1(2,3) by (auto simp: unmapping_def area_pages_def)
  have t1: "tables_ok s1" "user_ok s1" "own_inv (areas_at s1) (pages_at s1) (frames s1)" using i1(1) by (auto simp: mem_inv_def)
  have sp1: "at (spaces s1) h = Some sp" using sp(1) i1(2) by simp
  obtain p where p: "erase i (areas sp) = Inr p" "pool_inv p" "capacity p = 32" "at p = (at (areas sp))(i := None)"
    using pl.release_total [of "areas sp" i] pl.release_step [of "areas sp" i] sok sp(2) by (fastforce simp: space_ok_def)
  have "space_ok (sp\<lparr>areas := p\<rparr>)" using sok p by (simp add: space_ok_def)
  then obtain ps where ps: "modify h (\<lambda>sp. sp\<lparr>areas := p\<rparr>) (spaces s1) = Inr ps" "space_set h (sp\<lparr>areas := p\<rparr>) s1 (s1\<lparr>spaces := ps\<rparr>)"
    using set_space [OF t1(1) sp1, of "\<lambda>sp. sp\<lparr>areas := p\<rparr>"] by auto
  let ?s = "s1\<lparr>spaces := ps\<rparr>"
  have A: "areas_at ?s = (areas_at s1)((h, i) := None)"
    using ps(2) p(4) sp1 unfolding space_set_def by (auto simp: areas_at_def fun_eq_iff)
  have ai: "areas_at s1 (h, i) = Some a" using a areas_at_spaces [OF i1(2)] by simp
  have "own_inv ((areas_at s1)((h, i) := None)) (pages_at s1) (frames s1)"
    by (rule own_remove_area [OF t1(3) ai]) (simp add: p1)
  then have "mem_inv ?s" using ps(2) A t1(2) by (simp add: mem_inv_def space_set_def)
  moreover have "dom (at (spaces ?s)) = dom (at (spaces s))" using ps(2) sp1 i1(2) by (auto simp: space_set_def)
  ultimately have "area_gone h i a s ?s" using A ps(2) p1 i1 areas_at_spaces [OF i1(2)] by (simp add: area_gone_def space_set_def)
  moreover have "unmap_area h i s = Inr ?s"
    using sp sp1 s1(1) p(1) ps(1) t(1) t1(1) sok by (simp add: unmap_area_def get_space get_at space_ok_def)
  ultimately show ?thesis by blast
qed

subsection \<open>Unmapping all areas that match\<close>

definition dropped :: "nat \<Rightarrow> (area_info \<Rightarrow> bool) \<Rightarrow> nat \<Rightarrow> mem \<Rightarrow> mem \<Rightarrow> bool" where
  "dropped h drop_it j s0 s \<longleftrightarrow> mem_inv s \<and> dom (at (spaces s)) = dom (at (spaces s0)) \<and> current_space s = current_space s0 \<and> phys s = phys s0 \<and>
     (\<forall>k i. areas_at s (k, i) = (case areas_at s0 (k, i) of None \<Rightarrow> None | Some a \<Rightarrow> if k = h \<and> i < j \<and> drop_it a then None else Some a)) \<and>
     (\<forall>k n. pages_at s (k, n) =
        (if k = h \<and> (\<exists>i < j. \<exists>a. areas_at s0 (h, i) = Some a \<and> drop_it a \<and> n \<in> area_pages a) then None else pages_at s0 (k, n)))"

lemma dropped_skip:
  assumes "dropped h d j s0 s" "\<And>a. areas_at s0 (h, j) = Some a \<Longrightarrow> \<not> d a"
  shows "dropped h d (Suc j) s0 s"
  using assms unfolding dropped_def by (auto simp: less_Suc_eq split: option.splits)

lemma dropped_drop:
  assumes d: "dropped h d j s0 s" and a: "areas_at s0 (h, j) = Some a" "d a" and g: "area_gone h j a s s'"
  shows "dropped h d (Suc j) s0 s'"
  using d g a unfolding dropped_def area_gone_def by (auto simp: less_Suc_eq split: option.splits)


definition dropped_all :: "nat \<Rightarrow> (area_info \<Rightarrow> bool) \<Rightarrow> mem \<Rightarrow> mem \<Rightarrow> bool" where
  "dropped_all h drop_it s0 s \<longleftrightarrow> mem_inv s \<and> dom (at (spaces s)) = dom (at (spaces s0)) \<and> current_space s = current_space s0 \<and> phys s = phys s0 \<and>
     (\<forall>k i. areas_at s (k, i) = (case areas_at s0 (k, i) of None \<Rightarrow> None | Some a \<Rightarrow> if k = h \<and> drop_it a then None else Some a)) \<and>
     (\<forall>k n. pages_at s (k, n) =
        (if k = h \<and> (\<exists>i a. areas_at s0 (h, i) = Some a \<and> drop_it a \<and> n \<in> area_pages a) then None else pages_at s0 (k, n)))"

lemma dropped_end:
  assumes "dropped h d j s0 s" "\<And>i. j \<le> i \<Longrightarrow> areas_at s0 (h, i) = None"
  shows "dropped_all h d s0 s"
proof -
  have "i < j" if "areas_at s0 (h, i) = Some a" for i a using assms(2) [of i] that by (cases "j \<le> i") auto
  then show ?thesis using assms(1) unfolding dropped_def dropped_all_def by (auto split: option.splits) blast+
qed

lemma dropped_later:
  assumes "dropped h d j s0 s" "j \<le> i"
  shows "areas_at s (h, i) = areas_at s0 (h, i)"
  using assms unfolding dropped_def by (simp split: option.splits)

lemma unmap_loop_ok:
  assumes "dropped h d j s0 s" "at (spaces s0) h \<noteq> None" "n + j = 33" "0 < n"
  shows "\<exists>s'. unmap_loop n j d h s = Inr s' \<and> dropped_all h d s0 s'"
  using assms
proof (induction n arbitrary: j s)
  case (Suc n)
  have t: "mem_inv s" "tables_ok s" using Suc.prems(1) by (auto simp: dropped_def mem_inv_def)
  have "h \<in> dom (at (spaces s))" using Suc.prems(1,2) unfolding dropped_def by blast
  then obtain sp where sp: "at (spaces s) h = Some sp" by blast
  have sok: "pool_inv (areas sp)" "capacity (areas sp) = 32" using space_at [OF t(2) sp] by (auto simp: space_ok_def)
  have same: "at (areas sp) i = areas_at s0 (h, i)" if "j \<le> i" for i
    using dropped_later [OF Suc.prems(1) that] sp by (simp add: areas_at_def)
  show ?case
  proof (cases "j < watermark (areas sp)")
    case False
    then have "areas_at s0 (h, i) = None" if "j \<le> i" for i
      using same [OF that] pool_watermark(2) [OF sok(1), of i] that by fastforce
    then have "dropped_all h d s0 s" by (rule dropped_end [OF Suc.prems(1)])
    then show ?thesis using False sp t(2) by (simp add: get_space)
  next
    case True
    then have n: "n + Suc j = 33" "0 < n" using Suc.prems(3) pool_watermark(1) [OF sok(1)] sok(2) by auto
    show ?thesis
    proof (cases "at (areas sp) j")
      case None
      then have "dropped h d (Suc j) s0 s" using dropped_skip [OF Suc.prems(1)] same [of j] by simp
      then show ?thesis using Suc.IH [OF _ Suc.prems(2) n] None True sp t(2) sok(1) by (simp add: get_space valid_at)
    next
      case (Some a)
      then have a: "areas_at s0 (h, j) = Some a" "areas_at s (h, j) = Some a" using same [of j] dropped_later [OF Suc.prems(1), of j] by simp_all
      show ?thesis
      proof (cases "d a")
        case False
        then have "dropped h d (Suc j) s0 s" using dropped_skip [OF Suc.prems(1)] a(1) by simp
        then show ?thesis using Suc.IH [OF _ Suc.prems(2) n] Some False True sp t(2) sok(1) by (simp add: get_space get_at valid_at)
      next
        case drop: True
        obtain s1 where s1: "unmap_area h j s = Inr s1" "area_gone h j a s s1" using unmap_area_ok [OF t(1) a(2)] by blast
        then show ?thesis using Suc.IH [OF dropped_drop [OF Suc.prems(1) a(1) drop s1(2)] Suc.prems(2) n] Some drop True sp t(2) sok(1)
          by (simp add: get_space get_at valid_at)
      qed
    qed
  qed
qed simp

lemma unmap_areas_ok:
  assumes "mem_inv s" "at (spaces s) h \<noteq> None"
  shows "\<exists>s'. unmap_loop 33 0 d h s = Inr s' \<and> dropped_all h d s s'"
  by (rule unmap_loop_ok) (use assms in \<open>auto simp: dropped_def split: option.splits\<close>)

subsection \<open>Freeing the page tables\<close>

lemma free_table_ok:
  assumes ok: "tables_ok s" and sp: "at (spaces s) h = Some sp" and e: "pde_at s h d = Some e"
  obtains al where "free_page (table_addr e) (page_table_allocator s) = Inr al"
    "tables_ok (write_pde (page_dir sp) d pde_zero (s\<lparr>page_table_allocator := al\<rparr>))"
    "\<And>k d'. pde_at (write_pde (page_dir sp) d pde_zero (s\<lparr>page_table_allocator := al\<rparr>)) k d' =
       (if k = h \<and> d' = d then None else pde_at s k d')"
proof -
  have d: "d \<in> {0..<1024}" using e by (auto simp: pde_at_def Let_def split: option.splits if_splits)
  have i: "pa_inv (page_table_allocator s)" "map_inj (dir_at s)" using ok by (auto simp: tables_ok_def)
  obtain al where al: "free_page (table_addr e) (page_table_allocator s) = Inr al" "pa_inv al"
      "pa_pages al = pa_pages (page_table_allocator s)" "pa_used al = pa_used (page_table_allocator s) - {table_addr e}"
    using pg.give_used [OF i(1) table_used [OF ok e]] by auto
  let ?s1 = "s\<lparr>page_table_allocator := al\<rparr>"
  let ?s = "write_pde (page_dir sp) d pde_zero ?s1"
  have d1: "dir_at ?s1 = dir_at s" "spaces ?s1 = spaces s" by (auto simp: dir_at_def fun_eq_iff)
  have pde: "pde_at ?s k d' = (if k = h \<and> d' = d then None else pde_at s k d')" for k d'
    using pde_at_write [of ?s1 h sp d pde_zero k d'] i(2) sp d d1 pde_at_cong [of ?s1 s] by (simp add: pde_zero_def)
  have T: "table_at ?s = (table_at s)((h, d) := None)" by (auto simp: table_at_def pde fun_eq_iff)
  have "map_inj (table_at ?s)" unfolding T using ok by (intro map_inj_remove) (simp add: tables_ok_def)
  moreover have "ran (table_at ?s) \<subseteq> pa_used al"
    unfolding T al(4) using ran_remove_inj [of "table_at s" "(h, d)"] table_atI [OF e] ok unfolding tables_ok_def by blast
  ultimately have "tables_ok ?s" using ok al(2,3) d1(1) by (simp add: tables_ok_def)
  then show thesis using that [OF al(1)] pde by blast
qed

lemma free_tables_ok:
  assumes "tables_ok s" "at (spaces s) h = Some sp" "set is \<subseteq> {..<1024}"
  shows "\<exists>s'. free_tables is h s = Inr s' \<and> tables_ok s' \<and> same_rest s s' \<and>
    (\<forall>k d. pde_at s' k d = (if k = h \<and> d \<in> int ` set is then None else pde_at s k d)) \<and> page_tables s' = page_tables s"
  using assms
proof (induction "is" arbitrary: s)
  case Nil
  then show ?case by (simp add: same_rest_def)
next
  case (Cons i "is")
  let ?pde = "page_dirs s (page_dir sp) (int i)"
  show ?case
  proof (cases "present (pde_flags ?pde)")
    case False
    then have "pde_at s h (int i) = None" using Cons.prems(2) by (simp add: pde_at_def Let_def)
    then show ?thesis using Cons.IH [OF Cons.prems(1,2)] False Cons.prems by (auto simp: get_space Let_def)
  next
    case True
    then have e: "pde_at s h (int i) = Some ?pde" using Cons.prems(2,3) by (simp add: pde_at_def Let_def)
    obtain al where al: "free_page (table_addr ?pde) (page_table_allocator s) = Inr al"
        "tables_ok (write_pde (page_dir sp) (int i) pde_zero (s\<lparr>page_table_allocator := al\<rparr>))"
        "\<And>k d'. pde_at (write_pde (page_dir sp) (int i) pde_zero (s\<lparr>page_table_allocator := al\<rparr>)) k d' =
          (if k = h \<and> d' = int i then None else pde_at s k d')"
      using free_table_ok [OF Cons.prems(1,2) e] by metis
    define s1 where "s1 = write_pde (page_dir sp) (int i) pde_zero (s\<lparr>page_table_allocator := al\<rparr>)"
    have r: "same_rest s s1" "page_tables s1 = page_tables s" "at (spaces s1) h = Some sp"
      using Cons.prems(2) by (simp_all add: s1_def same_rest_def)
    obtain s' where s': "free_tables is h s1 = Inr s'" "tables_ok s'" "same_rest s1 s'"
        "\<And>k d. pde_at s' k d = (if k = h \<and> d \<in> int ` set is then None else pde_at s1 k d)" "page_tables s' = page_tables s1"
      using Cons.IH [of s1] al(2) r(3) Cons.prems(3) unfolding s1_def [symmetric] by auto
    have "free_tables (i # is) h s = Inr s'" using s'(1) al(1) True Cons.prems(1,2) by (simp add: get_space Let_def s1_def)
    moreover have "same_rest s s'" using r(1) s'(3) by (simp add: same_rest_def)
    moreover have "pde_at s' k d = (if k = h \<and> d \<in> int ` set (i # is) then None else pde_at s k d)" for k d
      using s'(4) [of k d] al(3) [of k d] by (auto simp: s1_def)
    ultimately show ?thesis using s'(2,5) r(2) by auto
  qed
qed

subsection \<open>Destroying a space\<close>

text \<open>The space is gone with its areas and pages, and everything else is as it was.\<close>

definition space_gone :: "nat \<Rightarrow> mem \<Rightarrow> mem \<Rightarrow> bool" where
  "space_gone h s s' \<longleftrightarrow> dom (at (spaces s')) = dom (at (spaces s)) - {h} \<and> current_space s' = current_space s \<and> phys s' = phys s \<and>
     (\<forall>k i. areas_at s' (k, i) = (if k = h then None else areas_at s (k, i))) \<and>
     (\<forall>k n. pages_at s' (k, n) = (if k = h then None else pages_at s (k, n)))"

lemma drop_space_ok:
  assumes inv: "mem_inv s" and none: "\<And>d. pde_at s h d = None" "\<And>i. areas_at s (h, i) = None" and sp: "at (spaces s) h = Some sp"
  shows "\<exists>al ps. free_page (page_dir sp) (page_dir_allocator s) = Inr al \<and> erase h (spaces s) = Inr ps \<and>
    (let s' = s\<lparr>page_dir_allocator := al, spaces := ps\<rparr> in mem_inv s' \<and> space_gone h s s')"
proof -
  have t: "tables_ok s" "user_ok s" "own_inv (areas_at s) (pages_at s) (frames s)" using inv by (auto simp: mem_inv_def)
  have d: "dir_at s h = Some (page_dir sp)" using sp by (simp add: dir_at_def)
  have u: "page_dir sp \<in> pa_used (page_dir_allocator s)" using t(1) ranI [of "dir_at s" h] d unfolding tables_ok_def by blast
  have "pa_inv (page_dir_allocator s)" using t(1) by (simp add: tables_ok_def)
  then obtain al where al: "free_page (page_dir sp) (page_dir_allocator s) = Inr al" "pa_inv al"
      "pa_used al = pa_used (page_dir_allocator s) - {page_dir sp}"
    using pg.give_used [OF _ u] by blast
  obtain ps where ps: "erase h (spaces s) = Inr ps" "pool_inv ps" "capacity ps = capacity (spaces s)" "at ps = (at (spaces s))(h := None)"
    using pl.release_total [of "spaces s" h] pl.release_step [of "spaces s" h] t(1) sp by (fastforce simp: tables_ok_def)
  let ?s = "s\<lparr>page_dir_allocator := al, spaces := ps\<rparr>"
  have D: "dir_at ?s = (dir_at s)(h := None)" using ps(4) by (auto simp: dir_at_def fun_eq_iff)
  have pde: "pde_at ?s = pde_at s" using none(1) ps(4) by (auto simp: pde_at_def fun_eq_iff split: option.split)
  have pte: "pte_at ?s = pte_at s" using pde by (auto simp: pte_at_def fun_eq_iff split: option.split)
  have "ran (dir_at ?s) \<subseteq> pa_used al" unfolding D al(3) using ran_remove_inj [of "dir_at s" h] d t(1) unfolding tables_ok_def by blast
  moreover have "map_inj (dir_at ?s)" unfolding D using t(1) by (intro map_inj_remove) (simp add: tables_ok_def)
  moreover have "\<forall>sp \<in> ran (at ps). space_ok sp" using t(1) ps(4) unfolding tables_ok_def by (auto simp: ran_def split: if_splits)
  ultimately have "tables_ok ?s" using t(1) al(2) ps(2,3) pde by (simp add: tables_ok_def table_at_def)
  moreover have A: "areas_at ?s = areas_at s" using none(2) ps(4) sp by (auto simp: areas_at_def fun_eq_iff)
  moreover have P: "pages_at ?s = pages_at s" using pte by (simp add: pages_at_def)
  ultimately have "mem_inv ?s" using t by (simp add: mem_inv_def frames_def user_ok_def)
  moreover have "pages_at s (h, n) = None" for n using none(1) by (simp add: pages_at_def pte_at_def)
  ultimately show ?thesis using al(1) ps none(2) A P by (simp add: space_gone_def Let_def)
qed


lemma destroy_ok:
  assumes inv: "mem_inv s" and sp: "at (spaces s) h \<noteq> None" and cur: "h \<noteq> current_space s"
  shows "\<exists>s'. mem_destroy_space h s = Inr s' \<and> mem_inv s' \<and> space_gone h s s'"
proof -
  obtain s1 where s1: "unmap_loop 33 0 (\<lambda>_. True) h s = Inr s1" "dropped_all h (\<lambda>_. True) s s1"
    using unmap_areas_ok [OF inv sp] by blast
  have i1: "mem_inv s1" "dom (at (spaces s1)) = dom (at (spaces s))" "current_space s1 = current_space s" "phys s1 = phys s"
      "\<And>i. areas_at s1 (h, i) = None" "\<And>k i. k \<noteq> h \<Longrightarrow> areas_at s1 (k, i) = areas_at s (k, i)"
      "\<And>k n. k \<noteq> h \<Longrightarrow> pages_at s1 (k, n) = pages_at s (k, n)"
    using s1(2) unfolding dropped_all_def by (auto split: option.splits)
  have t1: "tables_ok s1" "user_ok s1" "own_inv (areas_at s1) (pages_at s1) (frames s1)" using i1(1) by (auto simp: mem_inv_def)
  obtain sp1 where sp1: "at (spaces s1) h = Some sp1" using sp i1(2) by blast
  obtain s2 where s2: "free_tables [0..<1024] h s1 = Inr s2" "tables_ok s2" "same_rest s1 s2"
      "\<And>k d. pde_at s2 k d = (if k = h \<and> d \<in> int ` set [0..<1024] then None else pde_at s1 k d)" "page_tables s2 = page_tables s1"
    using free_tables_ok [OF t1(1) sp1, of "[0..<1024]"] by (auto simp: atLeast0LessThan)
  have out: "pde_at s1 k d = None" if "d \<notin> int ` set [0..<1024]" for k d
  proof -
    have "d \<notin> {0..<1024}"
    proof
      assume "d \<in> {0..<1024}"
      then have "d = int (nat d)" "nat d \<in> set [0..<1024]" by auto
      then show False using that by blast
    qed
    then show ?thesis by (auto simp: pde_at_def Let_def split: option.split)
  qed
  have pde2: "pde_at s2 k d = (if k = h then None else pde_at s1 k d)" for k d using s2(4) [of k d] out [of d k] by auto
  have p2: "pages_at s2 (k, n) = (if k = h then None else pages_at s1 (k, n))" for k n
    using s2(5) by (simp add: pages_at_def pte_at_def pde2 split: option.split)
  note v2 = same_rest_views [OF s2(3)]
  have "own_inv (areas_at s1) (pages_at s2) (frames s1)"
  proof (rule own_scratch [OF t1(3)])
    fix k n assume "n * 4096 < KERNEL_SCRATCH_BASE"
    then have "pages_at s1 (h, n) = None" using t1(3) i1(5) unfolding own_inv_def pages_covered_def by (metis option.distinct(1))
    then show "pages_at s2 (k, n) = pages_at s1 (k, n)" using p2 [of k n] by auto
  qed
  then have i2: "mem_inv s2" using s2(2) v2 t1(2) by (simp add: mem_inv_def)
  have sp2: "at (spaces s2) h = Some sp1" using sp1 s2(3) by (simp add: same_rest_def)
  obtain al ps where fin: "free_page (page_dir sp1) (page_dir_allocator s2) = Inr al" "erase h (spaces s2) = Inr ps"
      "mem_inv (s2\<lparr>page_dir_allocator := al, spaces := ps\<rparr>)" "space_gone h s2 (s2\<lparr>page_dir_allocator := al, spaces := ps\<rparr>)"
    using drop_space_ok [OF i2 _ _ sp2] pde2 v2(1) i1(5) by (auto simp: Let_def)
  have "mem_destroy_space h s = Inr (s2\<lparr>page_dir_allocator := al, spaces := ps\<rparr>)"
    using cur s1(1) s2(1,2) fin(1,2) sp2 by (simp add: mem_destroy_space_def get_space del: upt_Suc)
  moreover have "space_gone h s (s2\<lparr>page_dir_allocator := al, spaces := ps\<rparr>)"
  proof -
    have "spaces s2 = spaces s1" "current_space s2 = current_space s" "phys s2 = phys s" using s2(3) i1(3,4) by (simp_all add: same_rest_def)
    then show ?thesis using fin(4) i1(2,6,7) p2 v2(1) unfolding space_gone_def by simp
  qed
  ultimately show ?thesis using fin(3) by blast
qed

end
