(* ===== verification/Page_Faults.thy ===== *)
theory Page_Faults
  imports Space_Release
begin

text \<open>
  Finding the area of an address, the checks of user pointers, and page faults: a fault in an area that is
  allocated on demand gives the page a zeroed frame that nobody else has.
\<close>

subsection \<open>Finding areas\<close>

definition inside :: "int \<Rightarrow> area_info \<Rightarrow> bool" where
  "inside x a \<longleftrightarrow> area_start a \<le> x \<and> x < area_end a"

lemma find_area_loop_ok:
  assumes "pool_inv p"
  shows "\<exists>r. find_area_loop p x is = Inr r \<and>
    (case r of Some i \<Rightarrow> i \<in> set is \<and> (\<exists>a. at p i = Some a \<and> inside x a) | None \<Rightarrow> \<forall>i \<in> set is. \<forall>a. at p i = Some a \<longrightarrow> \<not> inside x a)"
proof (induction "is")
  case (Cons i "is")
  then obtain r where r: "find_area_loop p x is = Inr r"
      "case r of Some i \<Rightarrow> i \<in> set is \<and> (\<exists>a. at p i = Some a \<and> inside x a) | None \<Rightarrow> \<forall>i \<in> set is. \<forall>a. at p i = Some a \<longrightarrow> \<not> inside x a"
    by blast
  show ?case
  proof (cases "\<exists>a. at p i = Some a \<and> inside x a")
    case True
    then show ?thesis using assms by (intro exI [of _ "Some i"]) (auto simp: valid_at get_at inside_def)
  next
    case False
    then have "find_area_loop p x (i # is) = Inr r" using assms r(1) by (auto simp: valid_at get_at inside_def)
    then show ?thesis using r(2) False by (intro exI [of _ r]) (auto split: option.splits)
  qed
qed simp

lemma find_area_ok:
  assumes "tables_ok s" "at (spaces s) h \<noteq> None"
  shows "\<exists>r. mem_find_area h x s = Inr r \<and> (\<forall>i. r = Some i \<longrightarrow> (\<exists>a. areas_at s (h, i) = Some a \<and> inside x a)) \<and>
    (r = None \<longrightarrow> (\<forall>i a. areas_at s (h, i) = Some a \<longrightarrow> \<not> inside x a))"
proof -
  obtain sp where sp: "at (spaces s) h = Some sp" using assms(2) by blast
  have p: "pool_inv (areas sp)" using space_at [OF assms(1) sp] by (simp add: space_ok_def)
  obtain r where r: "find_area_loop (areas sp) x [0..<watermark (areas sp)] = Inr r"
      "case r of Some i \<Rightarrow> i \<in> set [0..<watermark (areas sp)] \<and> (\<exists>a. at (areas sp) i = Some a \<and> inside x a)
       | None \<Rightarrow> \<forall>i \<in> set [0..<watermark (areas sp)]. \<forall>a. at (areas sp) i = Some a \<longrightarrow> \<not> inside x a"
    using find_area_loop_ok [OF p] by blast
  have "i < watermark (areas sp)" if "at (areas sp) i = Some a" for i a using pool_watermark(2) [OF p] that by auto
  then show ?thesis using r sp assms(1)
    by (intro exI [of _ r]) (auto simp: mem_find_area_def get_space areas_at_def split: option.splits)
qed

text \<open>Under the invariant at most one area contains an address.\<close>

lemma inside_unique:
  assumes "mem_inv s" "areas_at s (h, i) = Some a" "areas_at s (h, j) = Some b" "inside x a" "inside x b"
  shows "i = j"
proof (rule ccontr)
  assume "i \<noteq> j"
  then have "apart a b" using assms(1-3) unfolding mem_inv_def own_inv_def areas_ok_def by blast
  then show False using assms(4,5) by (auto simp: apart_def inside_def)
qed

lemma find_area_iff:
  assumes "mem_inv s" "at (spaces s) h \<noteq> None"
  shows "\<exists>r. mem_find_area h x s = Inr r \<and> (\<forall>i. r = Some i \<longleftrightarrow> (\<exists>a. areas_at s (h, i) = Some a \<and> inside x a))"
proof -
  have t: "tables_ok s" using assms(1) by (simp add: mem_inv_def)
  obtain r where r: "mem_find_area h x s = Inr r"
    "\<And>i. r = Some i \<Longrightarrow> \<exists>a. areas_at s (h, i) = Some a \<and> inside x a" "r = None \<Longrightarrow> \<forall>i a. areas_at s (h, i) = Some a \<longrightarrow> \<not> inside x a"
    using find_area_ok [OF t assms(2), of x] by blast
  have "r = Some i" if "areas_at s (h, i) = Some a" "inside x a" for i a
  proof (cases r)
    case None
    then show ?thesis using r(3) that by blast
  next
    case (Some j)
    then obtain b where "areas_at s (h, j) = Some b" "inside x b" using r(2) by blast
    then show ?thesis using inside_unique [OF assms(1) that(1)] that(2) Some by blast
  qed
  then show ?thesis using r(1,2) by blast
qed

lemma get_area:
  assumes "tables_ok s" "areas_at s (h, i) = Some a"
  obtains sp where "get (spaces s) h = Inr sp" "get (areas sp) i = Inr a" "at (spaces s) h = Some sp"
proof -
  obtain sp where sp: "at (spaces s) h = Some sp" "at (areas sp) i = Some a" using assms(2) by (auto simp: areas_at_def split: option.splits)
  then show thesis using that [of sp] assms(1) space_at [OF assms(1) sp(1)] by (simp add: get_space get_at space_ok_def)
qed

lemma area_at_ok:
  assumes inv: "mem_inv s" and sp: "at (spaces s) h \<noteq> None"
  shows "\<exists>r. area_at h x s = Inr r \<and> (\<forall>i a. r = Some (i, a) \<longleftrightarrow> areas_at s (h, i) = Some a \<and> inside x a)"
proof -
  have t: "tables_ok s" using inv by (simp add: mem_inv_def)
  obtain r where r: "mem_find_area h x s = Inr r" "\<And>i. r = Some i \<longleftrightarrow> (\<exists>a. areas_at s (h, i) = Some a \<and> inside x a)"
    using find_area_iff [OF inv sp] by blast
  show ?thesis
  proof (cases r)
    case None
    then have "\<not> (areas_at s (h, i) = Some a \<and> inside x a)" for i a using r(2) [of i] by blast
    moreover have "area_at h x s = Inr None" using r(1) None by (simp add: area_at_def)
    ultimately show ?thesis by (intro exI [of _ None]) simp
  next
    case (Some i)
    then obtain a where a: "areas_at s (h, i) = Some a" "inside x a" using r(2) by blast
    obtain sp where "get (spaces s) h = Inr sp" "get (areas sp) i = Inr a" by (rule get_area [OF t a(1)])
    then have "area_at h x s = Inr (Some (i, a))" using r(1) Some by (simp add: area_at_def)
    moreover have "(j, b) = (i, a)" if "areas_at s (h, j) = Some b" "inside x b" for j b
      using inside_unique [OF inv a(1) that(1) a(2) that(2)] that(1) a(1) by auto
    then have "(Some (i, a) = Some (j, b)) = (areas_at s (h, j) = Some b \<and> inside x b)" for j b using a by blast
    ultimately show ?thesis by blast
  qed
qed

subsection \<open>User pointers\<close>

definition user_area :: "mem \<Rightarrow> nat \<Rightarrow> nat \<Rightarrow> area_info \<Rightarrow> bool" where
  "user_area s h i a \<longleftrightarrow> areas_at s (h, i) = Some a \<and> area_flags a AND MEM_AREA_SYSCALL \<noteq> 0"

lemma valid_pointer_ok:
  assumes inv: "mem_inv s" and sp: "at (spaces s) h \<noteq> None"
  shows "valid_pointer h x s = Inr (\<exists>i a. user_area s h i a \<and> inside x a)"
proof -
  have t: "tables_ok s" using inv by (simp add: mem_inv_def)
  obtain r where r: "mem_find_area h x s = Inr r" "\<And>i. r = Some i \<longleftrightarrow> (\<exists>a. areas_at s (h, i) = Some a \<and> inside x a)"
    using find_area_iff [OF inv sp] by blast
  show ?thesis
  proof (cases r)
    case None
    then have "\<not> (areas_at s (h, i) = Some a \<and> inside x a)" for i a using r(2) [of i] by blast
    then have "\<not> (\<exists>i a. user_area s h i a \<and> inside x a)" unfolding user_area_def by blast
    then show ?thesis using r(1) None by (simp add: valid_pointer_def mem_area_flags_def)
  next
    case (Some i)
    then obtain a where a: "areas_at s (h, i) = Some a" "inside x a" using r(2) by blast
    obtain sp where "get (spaces s) h = Inr sp" "get (areas sp) i = Inr a" by (rule get_area [OF t a(1)])
    then have "mem_area_flags h x s = Inr (Some (area_flags a))" using r(1) Some by (simp add: mem_area_flags_def)
    moreover have "areas_at s (h, j) = Some b \<Longrightarrow> inside x b \<Longrightarrow> b = a" for j b using inside_unique [OF inv a(1), of j b x] a by auto
    then have "(\<exists>i a. user_area s h i a \<and> inside x a) \<longleftrightarrow> area_flags a AND MEM_AREA_SYSCALL \<noteq> 0" using a unfolding user_area_def by metis
    ultimately show ?thesis by (simp add: valid_pointer_def)
  qed
qed

lemma valid_buffer_ok:
  assumes inv: "mem_inv s" and sp: "at (spaces s) h \<noteq> None"
  shows "valid_buffer h x len s = Inr (\<exists>i a. user_area s h i a \<and> inside x a \<and> inside (u32 (x + len)) a)"
proof -
  obtain r where r: "mem_find_area h x s = Inr r" "\<And>i. r = Some i \<longleftrightarrow> (\<exists>a. areas_at s (h, i) = Some a \<and> inside x a)"
    using find_area_iff [OF inv sp] by blast
  obtain q where q: "mem_find_area h (u32 (x + len)) s = Inr q" "\<And>i. q = Some i \<longleftrightarrow> (\<exists>a. areas_at s (h, i) = Some a \<and> inside (u32 (x + len)) a)"
    using find_area_iff [OF inv sp] by blast
  have "(\<exists>i a. user_area s h i a \<and> inside x a) \<and> q \<noteq> None \<and> r = q \<longleftrightarrow> (\<exists>i a. user_area s h i a \<and> inside x a \<and> inside (u32 (x + len)) a)"
    (is "?L \<longleftrightarrow> ?R")
  proof
    assume ?L
    then obtain i a where a: "user_area s h i a" "inside x a" "q \<noteq> None" "r = q" by blast
    then have "r = Some i" using r(2) [of i] by (auto simp: user_area_def)
    then obtain b where b: "areas_at s (h, i) = Some b" "inside (u32 (x + len)) b" using q(2) [of i] a(4) by blast
    then have "b = a" using a(1) by (simp add: user_area_def)
    then show ?R using a b by blast
  next
    assume ?R
    then obtain i a where "user_area s h i a" "inside x a" "inside (u32 (x + len)) a" by blast
    moreover from this have "r = Some i" "q = Some i" using r(2) [of i] q(2) [of i] by (auto simp: user_area_def)
    ultimately show ?L by blast
  qed
  moreover have "valid_buffer h x len s = Inr ((\<exists>i a. user_area s h i a \<and> inside x a) \<and> q \<noteq> None \<and> r = q)"
  proof (cases "\<exists>i a. user_area s h i a \<and> inside x a")
    case True
    then have "r \<noteq> None" using r(2) unfolding user_area_def by (metis option.distinct(1))
    then show ?thesis using r(1) q(1) valid_pointer_ok [OF inv sp, of x] True by (cases q) (simp_all add: valid_buffer_def)
  next
    case False
    then show ?thesis using valid_pointer_ok [OF inv sp, of x] by (simp add: valid_buffer_def)
  qed
  ultimately show ?thesis by simp
qed


subsection \<open>Pages of the active space\<close>

lemma page_start: "x AND NOT 0xFFF = x div 4096 * (4096 :: int)"
proof -
  have "x AND NOT (mask 12) = push_bit 12 (drop_bit 12 x)" by (rule bit_eqI) (auto simp: bit_simps)
  then show ?thesis by (simp add: mask_eq_exp_minus_1 push_bit_eq_mult drop_bit_eq_div)
qed

lemma active_frame_ok:
  assumes "tables_ok s" "at (spaces s) (current_space s) \<noteq> None" "in_space va" "pte_at s (current_space s) va = Some e"
  shows "active_frame s va = Inr (pte_frame e)"
  using assms find_pte_ok [OF assms(1) _ assms(3)] by (auto simp: active_frame_def get_space)

lemma page_flags_rw:
  "page_flags (f OR MEM_AREA_READWRITE) = page_flags f OR MEM_PE_RW"
  "f AND MEM_AREA_READWRITE \<noteq> 0 \<Longrightarrow> page_flags f OR MEM_PE_RW = page_flags f"
  "f AND MEM_AREA_READWRITE = 0 \<Longrightarrow> page_flags (f AND NOT MEM_AREA_READWRITE) = page_flags f"
proof -
  have ev: "(f OR 1) AND m = f AND m" if "even m" for m :: mflags using that by (intro bit_eqI) (auto simp: bit_simps bit_1_iff bit_0)
  have one: "(f OR 1) AND 1 \<noteq> 0"
  proof
    assume "(f OR 1) AND 1 = 0"
    then have "\<not> bit ((f OR 1) AND 1) 0" by simp
    then show False by (simp add: bit_and_iff bit_or_iff del: bit_0)
  qed
  show "page_flags (f OR MEM_AREA_READWRITE) = page_flags f OR MEM_PE_RW"
  proof -
    let ?g = "f OR MEM_AREA_READWRITE"
    have "?g AND MEM_AREA_USER = f AND MEM_AREA_USER" "?g AND MEM_AREA_CACHE_DISABLED = f AND MEM_AREA_CACHE_DISABLED"
        "?g AND MEM_AREA_GLOBAL = f AND MEM_AREA_GLOBAL" "?g AND MEM_AREA_READWRITE \<noteq> 0"
      using ev one by (simp_all add: MEM_AREA_READWRITE_def MEM_AREA_USER_def MEM_AREA_CACHE_DISABLED_def MEM_AREA_GLOBAL_def)
    then show ?thesis unfolding page_flags_def by (simp add: ac_simps)
  qed
  show "page_flags f OR MEM_PE_RW = page_flags f" if "f AND MEM_AREA_READWRITE \<noteq> 0"
    using that by (simp add: page_flags_def ac_simps)
  show "page_flags (f AND NOT MEM_AREA_READWRITE) = page_flags f" if "f AND MEM_AREA_READWRITE = 0"
  proof -
    have "f AND NOT MEM_AREA_READWRITE = f" using that by (intro bit_eqI) (auto simp: bit_simps MEM_AREA_READWRITE_def and_one_eq bit_0 odd_iff_mod_2_eq_one)
    then show ?thesis by simp
  qed
qed

text \<open>A user page is free.\<close>

definition user_room :: "mem \<Rightarrow> bool" where
  "user_room s \<longleftrightarrow> (case user_space_allocator s of None \<Rightarrow> False | Some u \<Rightarrow> pa_used u \<noteq> pa_pages u)"

lemma mem_alloc_page_cases:
  assumes "user_ok s"
  shows "if user_room s then \<exists>s' a. mem_alloc_page s = Inr (s', a) else mem_alloc_page s = Inl Panic"
proof -
  obtain u where u: "user_space_allocator s = Some u" "pa_inv u" using assms by (auto simp: user_ok_def split: option.splits)
  then show ?thesis using pg.take_empty [OF u(2)] pg.take_some [OF u(2)] by (auto simp: user_room_def mem_alloc_page_def)
qed

lemma pte_pages: "in_space va \<Longrightarrow> pte_at s h va = pages_at s (h, va div 4096)"
proof -
  assume "in_space va"
  have "va div 4096 * 4096 div 4096 = va div 4096" by simp
  then have "va div 4096 * 4096 div 0x400000 = va div 0x400000" "va div 4096 * 4096 div 0x1000 mod 1024 = va div 0x1000 mod 1024"
    using page_number_parts [of "va div 4096 * 4096" va] by blast+
  then have "pte_at s h (va div 4096 * 4096) = pte_at s h va" unfolding pte_at_def by (simp only:)
  then show ?thesis by (simp add: pages_at_def)
qed

lemma map_page_pages:
  assumes "tables_ok s" "at (spaces s) h \<noteq> None" "in_space va" "page_aligned va" "page_aligned pa"
  shows "if present f \<and> \<not> table_room h va s then map_page h va pa f s = Inl Panic
    else \<exists>s'. map_page h va pa f s = Inr s' \<and> tables_ok s' \<and> same_rest s s' \<and> pages_at s' = (pages_at s)((h, va div 4096) := entry pa f)"
proof -
  obtain sp where sp: "at (spaces s) h = Some sp" using assms(2) by blast
  have "same_rest s s' \<and> pages_at s' = (pages_at s)((h, va div 4096) := entry pa f)" if "page_set h va (entry pa f) s s'" for s'
    using page_set_pages [OF that assms(3)] that by (simp add: page_set_def)
  then show ?thesis using map_page_cases [OF assms(1) sp assms(3-5), of f] by (auto split: if_splits)
qed


subsection \<open>Faults in areas that are allocated on demand\<close>

lemma write_frame_simps [simp]:
  "tables_ok (write_frame f bs s) = tables_ok s" "areas_at (write_frame f bs s) = areas_at s" "pages_at (write_frame f bs s) = pages_at s"
  "frames (write_frame f bs s) = frames s" "user_ok (write_frame f bs s) = user_ok s" "spaces (write_frame f bs s) = spaces s"
  "current_space (write_frame f bs s) = current_space s" "mem_inv (write_frame f bs s) = mem_inv s"
  by (simp_all add: write_frame_def mem_inv_def)

lemma phys_write_nothing [simp]: "phys (write_frame f [] s) = phys s"
  by (auto simp: write_frame_def fun_eq_iff)

text \<open>
  The page \<open>n\<close> of space \<open>h\<close> gets the new frame \<open>f\<close>, and nothing else changes but the contents of
  that frame, which becomes \<open>bs\<close>.
\<close>

definition page_given :: "nat \<Rightarrow> int \<Rightarrow> int \<Rightarrow> mflags \<Rightarrow> byte list \<Rightarrow> mem \<Rightarrow> mem \<Rightarrow> bool" where
  "page_given h n f flags bs s s' \<longleftrightarrow> mem_inv s' \<and> f \<notin> frames s \<and> frames s' = insert f (frames s) \<and> page_aligned f \<and>
     pages_at s' = (pages_at s)((h, n) := entry f flags) \<and> areas_at s' = areas_at s \<and> spaces s' = spaces s \<and>
     current_space s' = current_space s \<and> phys s' = phys (write_frame f bs s)"

lemma page_aligned_mult [simp]: "page_aligned (n * 4096)"
  by (simp add: page_aligned_mod)

lemma entry_present: "page_aligned f \<Longrightarrow> present fl \<Longrightarrow> \<exists>e. entry f fl = Some e \<and> pte_frame e = f"
  using entry_frame [of f fl] by (simp add: entry_def)

text \<open>A new frame for a page of an area.\<close>

lemma give_page:
  assumes inv: "mem_inv s" and a: "areas_at s (h, i) = Some a" "is_private a" "n \<in> area_pages a" "pages_at s (h, n) = None"
    and f: "present flags"
  shows "if user_room s \<and> table_room h (n * 4096) s
    then \<exists>s1 s2 f. mem_alloc_page s = Inr (s1, f) \<and> current_space s1 = current_space s \<and> map_page h (n * 4096) f flags s1 = Inr s2 \<and>
      page_given h n f flags [] s s2
    else bindR (mem_alloc_page s) (\<lambda>(s1, f). map_page h (n * 4096) f flags s1) = Inl Panic"
proof (cases "user_room s")
  case False
  then show ?thesis using mem_alloc_page_cases [of s] inv by (simp add: mem_inv_def)
next
  case True
  have t: "tables_ok s" "user_ok s" "own_inv (areas_at s) (pages_at s) (frames s)" using inv by (auto simp: mem_inv_def)
  obtain s1 f where s1: "mem_alloc_page s = Inr (s1, f)" using mem_alloc_page_cases [OF t(2)] True by auto
  obtain u where n: "user_ok s1" "f \<notin> frames s" "frames s1 = insert f (frames s)" "page_aligned f" "s1 = s\<lparr>user_space_allocator := Some u\<rparr>"
    using mem_alloc_page_step [OF t(2) s1] by blast
  have t1: "tables_ok s1" using t(1) n(5) by simp
  have sp: "at (spaces s1) h \<noteq> None" using a(1) n(5) by (auto simp: areas_at_def split: option.splits)
  have va: "in_space (n * 4096)" using area_in_space [OF t(3) a(1)] a(3) by (simp add: area_pages_def)
  have r: "table_room h (n * 4096) s1 = table_room h (n * 4096) s"
    using pde_at_cong [of s1 s] n(5) by (simp add: table_room_def)
  have d: "n * 4096 div 4096 = n" by simp
  have m: "if \<not> table_room h (n * 4096) s1 then map_page h (n * 4096) f flags s1 = Inl Panic
    else \<exists>s'. map_page h (n * 4096) f flags s1 = Inr s' \<and> tables_ok s' \<and> same_rest s1 s' \<and> pages_at s' = (pages_at s1)((h, n) := entry f flags)"
    using map_page_pages [OF t1 sp va page_aligned_mult n(4), of flags, unfolded d] f by simp
  show ?thesis
  proof (cases "table_room h (n * 4096) s")
    case False
    then show ?thesis using m r s1 by simp
  next
    case room: True
    then obtain s2 where s2: "map_page h (n * 4096) f flags s1 = Inr s2" "tables_ok s2" "same_rest s1 s2"
        "pages_at s2 = (pages_at s1)((h, n) := entry f flags)"
      using m r by auto
    obtain e where e: "entry f flags = Some e" "pte_frame e = f" using entry_present [OF n(4) f] by blast
    have P: "pages_at s2 = (pages_at s)((h, n) \<mapsto> e)" using s2(4) e(1) n(5) by simp
    have A: "areas_at s2 = areas_at s" "frames s2 = insert f (frames s)" "user_ok s2" using same_rest_views [OF s2(3)] n by simp_all
    have "own_inv (areas_at s) ((pages_at s)((h, n) \<mapsto> e)) (insert f (frames s))"
      using own_map_fresh [of "areas_at s" "pages_at s" "frames s" h i a n e] t(3) a n(2) e(2) by simp
    then have "mem_inv s2" using s2(2) A P by (simp add: mem_inv_def)
    then have "page_given h n f flags [] s s2"
      using n s2(3) A P e(1) by (simp add: page_given_def same_rest_def)
    then show ?thesis using True room s1 s2(1) n(5) by auto
  qed
qed


lemma write_virt_given:
  assumes g: "page_given h n f flags bs s s'" and h: "h = current_space s" "at (spaces s) h \<noteq> None" and fl: "present flags" and n: "in_space (n * 4096)"
  shows "write_virt (n * 4096) bs' s' = Inr (write_frame f bs' s')"
proof -
  have g': "mem_inv s'" "page_aligned f" "pages_at s' = (pages_at s)((h, n) := entry f flags)" "spaces s' = spaces s" "current_space s' = current_space s"
    using g by (simp_all add: page_given_def)
  obtain e where e: "entry f flags = Some e" "pte_frame e = f" using entry_present [OF g'(2) fl] by blast
  have "pte_at s' h (n * 4096) = Some e" using g'(3) e(1) by (simp add: pages_at_def fun_eq_iff)
  then have "active_frame s' (n * 4096) = Inr f" using active_frame_ok [of s' "n * 4096" e] g' h n e(2) by (simp add: mem_inv_def)
  then show ?thesis by (simp add: write_virt_def)
qed

lemma page_given_write:
  assumes "page_given h n f flags bs s s'" "length bs \<le> length bs'"
  shows "page_given h n f flags bs' s (write_frame f bs' s')"
proof -
  have "phys (write_frame f bs' s') = phys (write_frame f bs' s)"
    using assms by (auto simp: page_given_def write_frame_def fun_eq_iff)
  then show ?thesis using assms(1) by (simp add: page_given_def)
qed

lemma page_given_over:
  assumes "page_given h n f flags bs s s'"
  shows "page_given h n f flags (data @ drop (length data) bs) s (write_frame f data s')"
proof -
  have "phys (write_frame f data s') = phys (write_frame f (data @ drop (length data) bs) s)"
    using assms by (auto simp: page_given_def write_frame_def fun_eq_iff nth_append)
  then show ?thesis using assms(1) by (simp add: page_given_def)
qed

lemma fresh_page_ok:
  assumes inv: "mem_inv s" and a: "areas_at s (current_space s, i) = Some a" "is_private a" "n \<in> area_pages a" "pages_at s (current_space s, n) = None"
  shows "if user_room s \<and> table_room (current_space s) (n * 4096) s
    then \<exists>s' f. fresh_page a (n * 4096) s = Inr (s', f) \<and>
      page_given (current_space s) n f (page_flags (area_flags a OR MEM_AREA_READWRITE)) (replicate 4096 0) s s'
    else fresh_page a (n * 4096) s = Inl Panic"
proof -
  let ?h = "current_space s" and ?fl = "page_flags (area_flags a OR MEM_AREA_READWRITE)"
  have sp: "at (spaces s) ?h \<noteq> None" using a(1) by (auto simp: areas_at_def split: option.splits)
  have va: "in_space (n * 4096)" using area_in_space [OF mem_invD(3) [OF inv] a(1)] a(3) by (simp add: area_pages_def)
  note g = give_page [OF inv a present_page_flags, of "area_flags a OR MEM_AREA_READWRITE"]
  show ?thesis
  proof (cases "user_room s \<and> table_room ?h (n * 4096) s")
    case True
    then obtain s1 s2 f where s: "mem_alloc_page s = Inr (s1, f)" "current_space s1 = ?h" "map_page ?h (n * 4096) f ?fl s1 = Inr s2"
        "page_given ?h n f ?fl [] s s2" using g by auto
    have "write_virt (n * 4096) (replicate 4096 0) s2 = Inr (write_frame f (replicate 4096 0) s2)"
      by (rule write_virt_given [OF s(4) refl sp present_page_flags va])
    moreover have "page_given ?h n f ?fl (replicate 4096 0) s (write_frame f (replicate 4096 0) s2)"
      by (rule page_given_write [OF s(4)]) simp
    ultimately show ?thesis using True s(1-3) by (auto simp: fresh_page_def)
  next
    case False
    then have "bindR (mem_alloc_page s) (\<lambda>(s1, f). map_page ?h (n * 4096) f ?fl s1) = Inl Panic" using g by simp
    moreover have "current_space s1 = ?h" if "mem_alloc_page s = Inr (s1, f)" for s1 f
      using mem_alloc_page_step [OF mem_invD(2) [OF inv] that] by auto
    ultimately have "fresh_page a (n * 4096) s = Inl Panic" by (cases "mem_alloc_page s") (auto simp: fresh_page_def)
    then show ?thesis using False by simp
  qed
qed

lemma protect_page_ok:
  assumes g: "page_given h n f (page_flags (area_flags a OR MEM_AREA_READWRITE)) bs s s'" and h: "h = current_space s" "at (spaces s) h \<noteq> None" and n: "in_space (n * 4096)"
  shows "\<exists>s''. protect_page a (n * 4096) f s' = Inr s'' \<and> page_given h n f (page_flags (area_flags a)) bs s s''"
proof (cases "area_flags a AND MEM_AREA_READWRITE = 0")
  case False
  then show ?thesis using g page_flags_rw(1,2) [of "area_flags a"] by (simp add: protect_page_def)
next
  case True
  let ?fl = "page_flags (area_flags a)"
  have g': "mem_inv s'" "page_aligned f" "pages_at s' = (pages_at s)((h, n) := entry f (page_flags (area_flags a OR MEM_AREA_READWRITE)))"
      "spaces s' = spaces s" "current_space s' = current_space s"
    using g by (simp_all add: page_given_def)
  have t: "tables_ok s'" "own_inv (areas_at s') (pages_at s') (frames s')" using g'(1) by (simp_all add: mem_inv_def)
  obtain e where e: "entry f (page_flags (area_flags a OR MEM_AREA_READWRITE)) = Some e" "pte_frame e = f"
    using entry_present [OF g'(2) present_page_flags] by blast
  obtain e' where e': "entry f ?fl = Some e'" "pte_frame e' = f" using entry_present [OF g'(2) present_page_flags] by blast
  have P: "pages_at s' (h, n) = Some e" using g'(3) e(1) by simp
  then have "table_room h (n * 4096) s'" by (auto simp: table_room_def pages_at_def pte_at_def split: option.splits)
  moreover have d: "n * 4096 div 4096 = n" by simp
  ultimately obtain s2 where s2: "map_page h (n * 4096) f ?fl s' = Inr s2" "tables_ok s2" "same_rest s' s2"
      "pages_at s2 = (pages_at s')((h, n) \<mapsto> e')"
    using map_page_pages [of s' h "n * 4096" f ?fl, unfolded d] t(1) h(2) g'(2,4) n e'(1) by auto
  have "own_inv (areas_at s') (pages_at s2) (frames s')" unfolding s2(4) using own_remap [OF t(2) P, of e'] e(2) e'(2) by simp
  then have "mem_inv s2" using s2(2) same_rest_views [OF s2(3)] g'(1) by (simp add: mem_inv_def)
  then have "page_given h n f ?fl bs s s2" using g same_rest_views [OF s2(3)] s2(3,4) e'(1) by (simp add: page_given_def same_rest_def)
  then show ?thesis using True s2(1) h(1) g'(5) page_flags_rw(3) [of "area_flags a"] by (auto simp: protect_page_def)
qed

lemma aligned_below: "a mod 4096 = 0 \<Longrightarrow> a \<le> x \<Longrightarrow> a \<le> x div 4096 * (4096 :: int)"
proof -
  assume "a mod 4096 = 0" "a \<le> x"
  then have "a div 4096 * 4096 = a" "a div 4096 \<le> x div 4096" by (auto intro: zdiv_mono1)
  then show ?thesis by linarith
qed

lemma inside_page:
  assumes "own_inv A P U" "A (h, i) = Some a" "inside x a"
  shows "x div 4096 \<in> area_pages a"
proof -
  have "area_ok a" using assms(1,2) unfolding own_inv_def areas_ok_def by blast
  then have "area_start a \<le> x div 4096 * 4096" using assms(3) by (intro aligned_below) (simp_all add: area_ok_def inside_def)
  moreover have "x div 4096 * 4096 \<le> x" by linarith
  ultimately show ?thesis using assms(3) by (simp add: inside_def area_pages_def)
qed

lemma page_fault_alloc_ok:
  assumes inv: "mem_inv s" and a: "areas_at s (current_space s, i) = Some a" "is_private a" "inside x a" "pages_at s (current_space s, x div 4096) = None"
  shows "if user_room s \<and> table_room (current_space s) x s
    then \<exists>s' f. page_fault_alloc a x s = Inr s' \<and> page_given (current_space s) (x div 4096) f (page_flags (area_flags a)) (replicate 4096 0) s s'
    else page_fault_alloc a x s = Inl Panic"
proof -
  let ?h = "current_space s"
  have own: "own_inv (areas_at s) (pages_at s) (frames s)" using inv by (simp add: mem_inv_def)
  have n: "x div 4096 \<in> area_pages a" by (rule inside_page [OF own a(1,3)])
  have sp: "at (spaces s) ?h \<noteq> None" using a(1) by (auto simp: areas_at_def split: option.splits)
  have va: "in_space (x div 4096 * 4096)" using area_in_space [OF own a(1)] n by (simp add: area_pages_def)
  have r: "table_room ?h (x div 4096 * 4096) s = table_room ?h x s"
    using page_number_parts [of "x div 4096 * 4096" x] by (simp add: table_room_def)
  have run: "page_fault_alloc a x s = bindR (fresh_page a (x div 4096 * 4096) s) (\<lambda>(s1, new). protect_page a (x div 4096 * 4096) new s1)"
    by (simp only: page_fault_alloc_def page_start Let_def)
  note f = fresh_page_ok [OF inv a(1,2) n a(4), unfolded r]
  show ?thesis
  proof (cases "user_room s \<and> table_room ?h x s")
    case True
    then obtain s1 f where s1: "fresh_page a (x div 4096 * 4096) s = Inr (s1, f)"
        "page_given ?h (x div 4096) f (page_flags (area_flags a OR MEM_AREA_READWRITE)) (replicate 4096 0) s s1" using f by auto
    then show ?thesis using protect_page_ok [OF s1(2) refl sp va] True run by auto
  next
    case False
    then have "fresh_page a (x div 4096 * 4096) s = Inl Panic" using f by simp
    then show ?thesis using False run by simp
  qed
qed


subsection \<open>The other faults\<close>

text \<open>A fault changes at most the page it is about.\<close>

definition page_handled :: "nat \<Rightarrow> int \<Rightarrow> mem \<Rightarrow> mem \<Rightarrow> bool" where
  "page_handled h n s s' \<longleftrightarrow> mem_inv s' \<and> areas_at s' = areas_at s \<and> spaces s' = spaces s \<and> current_space s' = current_space s \<and>
     pages_at s' (h, n) \<noteq> None \<and> (\<forall>x. x \<noteq> (h, n) \<longrightarrow> pages_at s' x = pages_at s x)"

lemma page_given_handled: "page_given h n f flags bs s s' \<Longrightarrow> present flags \<Longrightarrow> page_handled h n s s'"
  using entry_present [of f flags] by (auto simp: page_given_def page_handled_def)

lemma page_fault_linear_step:
  assumes inv: "mem_inv s" and a: "areas_at s (current_space s, i) = Some a" "\<not> is_private a" "inside x a"
    and run: "page_fault_linear_map a x s = Inr s'"
  shows "page_handled (current_space s) (x div 4096) s s'"
proof -
  have t: "tables_ok s" "own_inv (areas_at s) (pages_at s) (frames s)" using inv by (simp_all add: mem_inv_def)
  have n: "x div 4096 \<in> area_pages a" by (rule inside_page [OF t(2) a(1,3)])
  have va: "in_space (x div 4096 * 4096)" using area_in_space [OF t(2) a(1)] n by (simp add: area_pages_def)
  obtain pa where m: "map_page (current_space s) (x div 4096 * 4096) pa (page_flags (area_flags a)) s = Inr s'"
    using run unfolding page_fault_linear_map_def page_start Let_def by auto
  have st: "tables_ok s'" "page_set (current_space s) (x div 4096 * 4096) (entry pa (page_flags (area_flags a))) s s'" "page_aligned pa"
    using map_page_step [OF t(1) va m] by simp_all
  have P: "pages_at s' = (pages_at s)((current_space s, x div 4096) := entry pa (page_flags (area_flags a)))"
    using page_set_pages [OF st(2) va] by simp
  have "own_inv (areas_at s) (pages_at s') (frames s)" unfolding P by (rule own_not_private [OF t(2) a(1,2) n])
  then have "mem_inv s'" using st(1) page_set_views [OF st(2)] inv by (simp add: mem_inv_def)
  then show ?thesis using P page_set_views [OF st(2)] entry_present [OF st(3) present_page_flags, of "area_flags a"]
    by (auto simp: page_handled_def)
qed

lemma page_fault_file_step:
  assumes inv: "mem_inv s" and a: "areas_at s (current_space s, i) = Some a" "is_private a" "inside x a" "pages_at s (current_space s, x div 4096) = None"
    and run: "page_fault_file junk ctx a x (s, v) = Inr (s', v')"
  shows "page_handled (current_space s) (x div 4096) s s'"
proof -
  let ?h = "current_space s" and ?n = "x div 4096"
  have own: "own_inv (areas_at s) (pages_at s) (frames s)" using inv by (simp add: mem_inv_def)
  have n: "?n \<in> area_pages a" by (rule inside_page [OF own a(1,3)])
  have sp: "at (spaces s) ?h \<noteq> None" using a(1) by (auto simp: areas_at_def split: option.splits)
  have va: "in_space (?n * 4096)" using area_in_space [OF own a(1)] n by (simp add: area_pages_def)
  obtain s1 f s2 data where r: "fresh_page a (?n * 4096) s = Inr (s1, f)" "write_virt (?n * 4096) data s1 = Inr s2"
      "protect_page a (?n * 4096) f s2 = Inr s'"
    using run unfolding page_fault_file_def page_start Let_def by (auto split: sum.splits) (meson sumE)
  have g: "page_given ?h ?n f (page_flags (area_flags a OR MEM_AREA_READWRITE)) (replicate 4096 0) s s1"
    using fresh_page_ok [OF inv a(1,2) n a(4)] r(1) by (auto split: if_splits)
  have s2: "s2 = write_frame f data s1" using write_virt_given [OF g refl sp present_page_flags va, of data] r(2) by simp
  have "page_given ?h ?n f (page_flags (area_flags a OR MEM_AREA_READWRITE)) (data @ drop (length data) (replicate 4096 0)) s s2"
    unfolding s2 by (rule page_given_over [OF g])
  then obtain s3 where "protect_page a (?n * 4096) f s2 = Inr s3" "page_given ?h ?n f (page_flags (area_flags a)) (data @ drop (length data) (replicate 4096 0)) s s3"
    using protect_page_ok [OF _ refl sp va] by blast
  then show ?thesis using r(3) page_given_handled by auto
qed


text \<open>
  A page fault for a page that is not there leaves the invariant intact and changes no other page;
  a fault outside all areas kills the process.
\<close>

lemma int_page_fault_step:
  assumes inv: "mem_inv s" and none: "pages_at s (current_space s, x div 4096) = None"
    and run: "int_page_fault junk ctx e x (s, v) = Inr (Handled (s', v'))"
  shows "page_handled (current_space s) (x div 4096) s s'"
proof -
  obtain i a where r: "area_at (current_space s) x s = Inr (Some (i, a))"
  proof (cases "area_at (current_space s) x s")
    case (Inr q)
    then show ?thesis using run that by (cases q) (auto simp: int_page_fault_def split: if_splits)
  qed (use run in \<open>simp add: int_page_fault_def split: if_splits\<close>)
  have sp: "at (spaces s) (current_space s) \<noteq> None"
    using r mem_invD(1) [OF inv] by (auto simp: area_at_def mem_find_area_def get_space split: option.splits)
  have a: "areas_at s (current_space s, i) = Some a" "inside x a"
    using area_at_ok [OF inv sp, of x] r by auto
  consider (lin) "area_type a = AREA_LINEAR_MAP" "page_fault_linear_map a x s = Inr s'"
    | (alloc) "area_type a = AREA_ALLOC" "page_fault_alloc a x s = Inr s'"
    | (backed) "area_type a = AREA_FILE" "page_fault_file junk ctx a x (s, v) = Inr (s', v')"
    using run r by (auto simp: int_page_fault_def split: if_splits)
  then show ?thesis
  proof cases
    case lin
    then have "\<not> is_private a" by (simp add: is_private_def AREA_LINEAR_MAP_def AREA_ALLOC_def AREA_FILE_def)
    then show ?thesis using page_fault_linear_step [OF inv a(1) _ a(2) lin(2)] by simp
  next
    case alloc
    then have "is_private a" by (simp add: is_private_def)
    then show ?thesis using page_fault_alloc_ok [OF inv a(1) _ a(2) none] alloc(2) page_given_handled [OF _ present_page_flags] by (auto split: if_splits)
  next
    case backed
    then have "is_private a" by (simp add: is_private_def)
    then show ?thesis using page_fault_file_step [OF inv a(1) _ a(2) none backed(2)] by simp
  qed
qed

end
