(* ===== verification/Spec2Isabelle.thy ===== *)
theory Spec2Isabelle
  imports Pool Queue Ring_Buffer Flip_Buffer Page_Alloc Frag_Buffer Unordered_Map P2_String P2_Format Net_Input TCP_Machine VFS_Tree VFS_Files Scheduler Page_Faults
begin

text \<open>
  Verification of peos2, an operating system for 32-bit x86: its support library
  (\<open>src/libraries/support\<close>), its network stack (\<open>src/libraries/net\<close>) and the portable parts of
  its kernel (\<open>src/kernel\<close>).

  \<^bold>\<open>How the parts interact.\<close> The containers of the support library are used throughout: the
  tables of connections, probes, processes, nodes and descriptors are pools; the send queue of TCP
  is a ring buffer and a queue; datagrams waiting for an address live in a flip buffer, and
  fragments in a fragment buffer inside an unordered map. In the network stack a frame goes
  from ethernet to ARP or IPv4, from IPv4 through reassembly to UDP, ICMP or TCP, and what they send goes
  back through IPv4, which asks ARP for the next hop. In the kernel the filesystem keeps nodes,
  open files and the descriptors of each process, and the scheduler keeps the processes.

  \<^bold>\<open>Conventions\<close> (\<open>Prelude\<close>). A struct or class is a record, an operation a function from the
  old state to the new one. Code that may fail gives \<open>'a res\<close>, a sum with the faults \<open>Panic\<close> (a
  failed assertion; assertions are on), \<open>OutOfBounds\<close>, \<open>Uninitialized\<close> and \<open>Diverges\<close>; an
  error code the source returns is an ordinary value. Integers that may wrap are words or carry
  an explicit wrap (\<open>u32\<close>, \<open>s32\<close>, \<open>inc16\<close>); \<open>size_t\<close> and pointers have 32 bits. Logging is
  left out.

  \<^bold>\<open>Support library.\<close>
  \<^item> \<open>Pool\<close> (\<open>pool.h\<close>): the free list and the watermark refine a finite map from handles to
    elements; emplacing, erasing and iteration. Locale \<open>handle_table\<close>, interpretation \<open>pl\<close>, is
    what all tables of the development rest on.
  \<^item> \<open>Queue\<close>, \<open>Ring_Buffer\<close> (\<open>queue.h\<close>, \<open>ring_buffer.h\<close>): refinement of bounded lists; locales
    \<open>fifo\<close> and \<open>byte_stream\<close>.
  \<^item> \<open>Flip_Buffer\<close> (\<open>flip_buffer.h\<close>): handles resolve to disjoint live ranges or to nothing.
  \<^item> \<open>Page_Alloc\<close> (\<open>page_alloc.h\<close>): no page is handed out twice; locale \<open>page_source\<close>.
  \<^item> \<open>Frag_Buffer\<close> (\<open>frag_buffer.h\<close>): fragments in any order rebuild the message; where the
    code writes outside its storage.
  \<^item> \<open>Unordered_Map\<close> (\<open>unordered_map.h\<close>): refinement of a map; locale \<open>keyed_store\<close>.
  \<^item> \<open>P2_String\<close>, \<open>P2_Format\<close> (\<open>string.h\<close>, \<open>string.cc\<close>, \<open>filesystem.h\<close>, \<open>format.h\<close>): bounds and
    termination by NUL, number printing, path splitting, and formatting against a
    specification.

  \<^bold>\<open>Network stack.\<close>
  \<^item> \<open>Net_Utils\<close> (\<open>utils.cc\<close>, \<open>ipv4/utils.cc\<close>, \<open>ethernet/utils.cc\<close>): byte order, checksums, addresses as text.
  \<^item> \<open>Net_Stack\<close>, \<open>Net_Output\<close>, \<open>Net_Resolve\<close>: the state of the stack, sending, and address
    resolution with its probes and timeouts; a datagram that waits for an address is sent when
    the answer arrives.
  \<^item> \<open>Net_Input\<close>: receiving, fragments and delivery; a datagram sent is the datagram received.
  \<^item> \<open>TCP_Queues\<close> (\<open>send_queue\<close>, \<open>receive_queue\<close>): the receive queue delivers the byte stream in
    order, the send queue keeps exactly what is not acknowledged.
  \<^item> \<open>TCP\<close>, \<open>TCP_Machine\<close> (\<open>connection.cc\<close>, \<open>connection_state.cc\<close>, \<open>connection_table.cc\<close>,
    \<open>protocol.cc\<close>): connections and their states; the invariant of the table, the state
    diagram as an inductive relation, and the choice of the best match.

  \<^bold>\<open>Kernel.\<close>
  \<^item> \<open>VFS\<close> (\<open>filesystem.cc\<close>), \<open>VFS_Tree\<close>, \<open>VFS_Files\<close>: the nodes refine a tree of names, the descriptors a map from
    numbers to files; reference counts, closing, forking a context, and directory listings as streams.
    A driver is a record of functions on its own state.
  \<^item> \<open>Process\<close>, \<open>Scheduler\<close> (\<open>process.cc\<close>, \<open>process_private.h\<close>): the two linked lists refine lists of
    processes, the choice is the process that waited longest, and every running process gets
    its turn.

  \<^bold>\<open>Bounds and fuel.\<close> A loop that is not structural has a termination proof or fuel. The fuel is
  one more than what the loop can do: the capacity of the pool for the loops over linked lists
  (\<open>dirent_loop\<close>, \<open>decide_loop\<close>), 17 for the loops over the 16 descriptors of a context
  (\<open>close_loop\<close>, \<open>fork_loop\<close>), the number of queued segments for \<open>rx_loop\<close> and \<open>tx_loop\<close>, and
  65536 turns of the index for each of 33 erasures for \<open>arp_tick\<close>. That it is enough is part of the
  properties about termination and of those that state a result. \<open>tick_loop\<close> takes its fuel
  as an argument.

  \<^bold>\<open>Not modelled.\<close> Device drivers and start-up code are port input and output, device memory
  and inline assembly (\<open>x86.cc\<close>, \<open>rtl8139.cc\<close>, \<open>pci.cc\<close>, \<open>serial.cc\<close>, \<open>screen.cc\<close>,
  \<open>keyboard.cc\<close>, \<open>timer.cc\<close>, \<open>boot.s\<close>). A context switch is the change of the current process; its
  registers and stacks are left out, and so are \<open>exec\<close> and the loading of executables. The user
  programs only make system calls. The test code and logging are not part of the system's
  behaviour.
\<close>

end
